(* ===== verification/Prelude.thy ===== *)
theory Prelude
  imports Main "HOL-Library.Word" "HOL-Library.Monad_Syntax" "HOL-Library.Char_ord"
    "HOL-Library.List_Lexorder"
begin

text \<open>
  What every component of the model shares.  Machine integers are words of the source's width:
  \<open>u8\<close>, \<open>u16\<close>, \<open>u32\<close>, \<open>u64\<close> and \<open>u128\<close>.  The release profile of the workspace
  (\<open>Cargo.toml\<close>) keeps \<open>overflow-checks\<close> on, so a plain \<open>+\<close>, \<open>-\<close> or \<open>*\<close> of the
  source that overflows is a panic: it is modelled by the checked operations below, and \<open>None\<close>
  is the panic.  The source's \<open>saturating_*\<close> methods are \<open>sat_add\<close> and \<open>sat_sub\<close>,
  \<open>wrapping_*\<close> is the word operation itself, and an \<open>as\<close> cast is \<open>ucast\<close> or \<open>of_nat\<close>.
  A \<open>Result\<close> is a sum with the error on the left, sequenced by \<open>rbind\<close>.
\<close>

section \<open>Types\<close>

type_synonym u8 = "8 word"
type_synonym u16 = "16 word"
type_synonym u32 = "32 word"
type_synonym u64 = "64 word"
type_synonym u128 = "128 word"
type_synonym bytes = "8 word list"

named_theorems checked_simps \<open>characterisations of checked and saturating arithmetic over nat\<close>
named_theorems cursor_simps \<open>reading what has been written\<close>

section \<open>Checked and saturating arithmetic\<close>

definition checked_add :: "'a::len word \<Rightarrow> 'a word \<Rightarrow> 'a word option" where
  "checked_add a b = (if unat a + unat b < 2 ^ LENGTH('a) then Some (a + b) else None)"

definition checked_sub :: "'a::len word \<Rightarrow> 'a word \<Rightarrow> 'a word option" where
  "checked_sub a b = (if b \<le> a then Some (a - b) else None)"

definition checked_mul :: "'a::len word \<Rightarrow> 'a word \<Rightarrow> 'a word option" where
  "checked_mul a b = (if unat a * unat b < 2 ^ LENGTH('a) then Some (a * b) else None)"

definition sat_add :: "'a::len word \<Rightarrow> 'a word \<Rightarrow> 'a word" where
  "sat_add a b = (if unat a + unat b < 2 ^ LENGTH('a) then a + b else - 1)"

definition sat_sub :: "'a::len word \<Rightarrow> 'a word \<Rightarrow> 'a word" where
  "sat_sub a b = (if b \<le> a then a - b else 0)"

lemma unat_lt: "unat (a :: 'a::len word) < 2 ^ LENGTH('a)"
  by (rule unsigned_less)

lemma checked_add_Some [checked_simps]:
  "checked_add a b = Some c \<longleftrightarrow> unat c = unat a + unat b"
  unfolding checked_add_def
  by (auto simp: unat_word_ariths word_unat_eq_iff) (metis unsigned_less)+

lemma checked_add_None:
  "checked_add (a :: 'a::len word) b = None \<longleftrightarrow> 2 ^ LENGTH('a) \<le> unat a + unat b"
  by (auto simp: checked_add_def)

lemma checked_mul_Some [checked_simps]:
  "checked_mul a b = Some c \<longleftrightarrow> unat c = unat a * unat b"
  unfolding checked_mul_def
  by (auto simp: unat_word_ariths word_unat_eq_iff) (metis unsigned_less)+

lemma checked_sub_Some [checked_simps]:
  "checked_sub a b = Some c \<longleftrightarrow> unat a = unat c + unat b"
  unfolding checked_sub_def
  by (auto simp: word_le_nat_alt unat_sub word_unat_eq_iff)

lemma unat_sat_add [checked_simps]:
  "unat (sat_add a b :: 'a::len word) = min (unat a + unat b) (2 ^ LENGTH('a) - 1)"
proof (cases "unat a + unat b < 2 ^ LENGTH('a)")
  case True
  then show ?thesis by (simp add: sat_add_def unat_word_ariths)
next
  case False
  moreover have "unat (- 1 :: 'a word) = 2 ^ LENGTH('a) - 1"
    by (simp add: unsigned_minus_1_eq_mask mask_eq_exp_minus_1)
  ultimately show ?thesis by (simp add: sat_add_def)
qed

lemma unat_sat_sub [checked_simps]: "unat (sat_sub a b) = unat a - unat b"
  by (simp add: sat_sub_def word_le_nat_alt unat_sub)

lemma unat_div_word: "unat (a div b) = unat a div unat b"
  by (simp add: unat_div)

lemma unat_ucast_up: "LENGTH('a) \<le> LENGTH('b) \<Longrightarrow> unat (ucast (a :: 'a::len word) :: 'b::len word) = unat a"
  by (simp add: unsigned_ucast_eq take_bit_nat_eq_self_iff) (meson unsigned_less less_le_trans
      power_increasing one_le_numeral)

lemma unat_ucast_down: "unat a < 2 ^ LENGTH('b) \<Longrightarrow> unat (ucast (a :: 'a::len word) :: 'b::len word) = unat a"
  by (simp add: unsigned_ucast_eq take_bit_nat_eq_self_iff)

lemma unat_of_nat_lt: "n < 2 ^ LENGTH('a) \<Longrightarrow> unat (of_nat n :: 'a::len word) = n"
  by (simp add: unsigned_of_nat take_bit_nat_eq_self_iff)

section \<open>Results\<close>

definition rbind :: "'e + 'a \<Rightarrow> ('a \<Rightarrow> 'e + 'b) \<Rightarrow> 'e + 'b" where
  "rbind m f = (case m of Inl e \<Rightarrow> Inl e | Inr x \<Rightarrow> f x)"

lemma rbind_simps [simp]: "rbind (Inl e) f = Inl e" "rbind (Inr x) f = f x"
  by (simp_all add: rbind_def)

lemma rbind_Inr: "rbind m f = Inr y \<longleftrightarrow> (\<exists>x. m = Inr x \<and> f x = Inr y)"
  by (cases m) simp_all

lemma rbind_cong [fundef_cong]:
  "m = m' \<Longrightarrow> (\<And>x. m' = Inr x \<Longrightarrow> f x = g x) \<Longrightarrow> rbind m f = rbind m' g"
  by (cases m') simp_all

definition ok_or :: "'a option \<Rightarrow> 'e \<Rightarrow> 'e + 'a" where
  "ok_or x e = (case x of None \<Rightarrow> Inl e | Some y \<Rightarrow> Inr y)"

lemma ok_or_simps [simp]: "ok_or None e = Inl e" "ok_or (Some y) e = Inr y"
  by (simp_all add: ok_or_def)

lemma ok_or_Inr: "ok_or x e = Inr y \<longleftrightarrow> x = Some y"
  by (cases x) simp_all

section \<open>Little-endian bytes\<close>

fun le_bytes :: "nat \<Rightarrow> nat \<Rightarrow> bytes" where
  "le_bytes 0 v = []"
| "le_bytes (Suc n) v = of_nat v # le_bytes n (v div 256)"

fun le_nat :: "bytes \<Rightarrow> nat" where
  "le_nat [] = 0"
| "le_nat (b # bs) = unat b + 256 * le_nat bs"

definition le16 :: "u16 \<Rightarrow> bytes" where "le16 w = le_bytes 2 (unat w)"
definition le32 :: "u32 \<Rightarrow> bytes" where "le32 w = le_bytes 4 (unat w)"
definition le64 :: "u64 \<Rightarrow> bytes" where "le64 w = le_bytes 8 (unat w)"

definition of_le :: "bytes \<Rightarrow> 'a::len word" where "of_le bs = of_nat (le_nat bs)"

lemma length_le_bytes [simp]: "length (le_bytes n v) = n"
  by (induction n arbitrary: v) simp_all

lemma length_le_words [simp]: "length (le16 a) = 2" "length (le32 b) = 4" "length (le64 c) = 8"
  by (simp_all add: le16_def le32_def le64_def)

lemma le_nat_less: "le_nat bs < 256 ^ length bs"
proof (induction bs)
  case Nil
  show ?case by simp
next
  case (Cons b bs)
  have "unat b < 256" using unsigned_less [of b] by simp
  with Cons show ?case by simp
qed

lemma le_nat_app: "le_nat (xs @ ys) = le_nat xs + 256 ^ length xs * le_nat ys"
  by (induction xs) (simp_all add: algebra_simps)

lemma le_nat_replicate_0 [simp]: "le_nat (replicate n 0) = 0"
  by (induction n) simp_all

lemma le_nat_le_bytes: "le_nat (le_bytes n v) = v mod 256 ^ n"
proof (induction n arbitrary: v)
  case 0
  show ?case by simp
next
  case (Suc n)
  have "v mod 256 ^ Suc n = v mod 256 + 256 * (v div 256 mod 256 ^ n)"
    by (simp add: mod_mult2_eq)
  then show ?case by (simp add: Suc unat_of_nat)
qed

lemma le_bytes_le_nat: "le_bytes (length bs) (le_nat bs) = bs"
proof (induction bs)
  case Nil
  show ?case by simp
next
  case (Cons b bs)
  have b: "unat b < 256" using unsigned_less [of b] by simp
  then have "(unat b + 256 * le_nat bs) div 256 = le_nat bs" by simp
  moreover have "(of_nat (unat b + 256 * le_nat bs) :: u8) = of_nat (unat b)"
    by (simp only: word_of_nat_eq_iff take_bit_eq_mod) simp
  then have "(of_nat (unat b + 256 * le_nat bs) :: u8) = b" by simp
  ultimately show ?case using Cons by simp
qed

lemma of_le_words [simp]: "of_le (le16 a) = a" "of_le (le32 b) = b" "of_le (le64 c) = c"
  using unat_lt [of a] unat_lt [of b] unat_lt [of c]
  by (simp_all add: of_le_def le16_def le32_def le64_def le_nat_le_bytes)

lemma le_nat_words: "le_nat (le16 a) = unat a" "le_nat (le32 b) = unat b" "le_nat (le64 c) = unat c"
  using unat_lt [of a] unat_lt [of b] unat_lt [of c]
  by (simp_all add: le16_def le32_def le64_def le_nat_le_bytes)

lemma le_words_of_le:
  "length bs = 2 \<Longrightarrow> le16 (of_le bs) = bs"
  "length bs = 4 \<Longrightarrow> le32 (of_le bs) = bs"
  "length bs = 8 \<Longrightarrow> le64 (of_le bs) = bs"
  using le_nat_less [of bs] le_bytes_le_nat [of bs]
  by (simp_all add: of_le_def le16_def le32_def le64_def unat_of_nat_lt)

lemma le_words_inject [simp]:
  "le16 a = le16 a' \<longleftrightarrow> a = a'" "le32 b = le32 b' \<longleftrightarrow> b = b'" "le64 c = le64 c' \<longleftrightarrow> c = c'"
  by (metis of_le_words(1), metis of_le_words(2), metis of_le_words(3))

section \<open>Strings\<close>

text \<open>
  A Rust string is its UTF-8 bytes; HOL's \<open>char\<close> has exactly 256 values, so \<open>string\<close> carries
  them one to one, and the lexicographic order of \<open>List_Lexorder\<close> over \<open>Char_ord\<close> is the byte
  order of \<open>str::cmp\<close>.
\<close>

definition str_bytes :: "string \<Rightarrow> bytes" where "str_bytes = map (\<lambda>c. of_nat (of_char c))"
definition bytes_str :: "bytes \<Rightarrow> string" where "bytes_str = map (\<lambda>b. char_of (unat b))"

lemma length_str_bytes [simp]: "length (str_bytes s) = length s" "length (bytes_str b) = length b"
  by (simp_all add: str_bytes_def bytes_str_def)

lemma of_char_less [simp]: "of_char c < (256 :: nat)"
  by (metis mod_less_divisor of_char_mod_256 zero_less_numeral)

lemma bytes_str_bytes [simp]: "bytes_str (str_bytes s) = s"
  by (induction s) (simp_all add: bytes_str_def str_bytes_def unat_of_nat)

lemma str_bytes_str [simp]: "str_bytes (bytes_str b) = b"
proof (induction b)
  case Nil
  show ?case by (simp add: bytes_str_def str_bytes_def)
next
  case (Cons x b)
  have "unat x < 256" using unat_lt [of x] by simp
  with Cons show ?case by (simp add: bytes_str_def str_bytes_def)
qed

section \<open>Lists\<close>

lemma take_append_exact [simp]: "length xs = n \<Longrightarrow> take n (xs @ ys) = xs"
  by simp

lemma drop_append_exact [simp]: "length xs = n \<Longrightarrow> drop n (xs @ ys) = ys"
  by simp

text \<open>\<open>&xs[a..b]\<close>: a range that does not lie in the slice panics.\<close>

definition slice_range :: "nat \<Rightarrow> nat \<Rightarrow> 'a list \<Rightarrow> 'a list option" where
  "slice_range a b xs = (if a \<le> b \<and> b \<le> length xs then Some (take (b - a) (drop a xs)) else None)"

lemma slice_range_Some:
  "slice_range a b xs = Some ys \<longleftrightarrow> a \<le> b \<and> b \<le> length xs \<and> ys = take (b - a) (drop a xs)"
  by (auto simp: slice_range_def)

section \<open>Checked sums\<close>

text \<open>\<open>iter().sum()\<close> adds from the left and panics on overflow, as every plain addition does.\<close>

fun checked_sum :: "'a::len word \<Rightarrow> 'a word list \<Rightarrow> 'a word option" where
  "checked_sum a [] = Some a"
| "checked_sum a (x # xs) = do { a \<leftarrow> checked_add a x; checked_sum a xs }"

lemma checked_add_total:
  "unat a + unat b < 2 ^ LENGTH('a) \<Longrightarrow> checked_add a b = Some (a + b)" for a b :: "'a::len word"
  by (simp add: checked_add_def)

lemma checked_ex:
  fixes a b :: "'a::len word"
  shows "unat a + unat b < 2 ^ LENGTH('a) \<Longrightarrow> \<exists>c. checked_add a b = Some c \<and> unat c = unat a + unat b"
    and "unat a * unat b < 2 ^ LENGTH('a) \<Longrightarrow> \<exists>c. checked_mul a b = Some c \<and> unat c = unat a * unat b"
    and "unat b \<le> unat a \<Longrightarrow> \<exists>c. checked_sub a b = Some c \<and> unat c = unat a - unat b"
  unfolding checked_add_def checked_mul_def checked_sub_def
  by (auto simp: unat_word_ariths word_le_nat_alt unat_sub)

lemma unat_add_lt:
  "unat a + unat b < 2 ^ LENGTH('a) \<Longrightarrow> unat (a + b) = unat a + unat b" for a b :: "'a::len word"
  by (simp add: unat_word_ariths)

lemma checked_sum_Some [checked_simps]:
  "checked_sum a xs = Some r \<longleftrightarrow> unat r = unat a + sum_list (map unat xs)"
proof (induction xs arbitrary: a)
  case (Cons x xs)
  show ?case
  proof (cases "checked_add a x")
    case None
    then have "2 ^ LENGTH('a) \<le> unat a + unat x" by (simp add: checked_add_None)
    then have "unat r \<noteq> unat a + (unat x + sum_list (map unat xs))" using unat_lt [of r] by linarith
    then show ?thesis using None by simp
  next
    case (Some y)
    then have "unat y = unat a + unat x" by (simp add: checked_add_Some)
    then show ?thesis using Some Cons [of y] by (simp add: add.assoc)
  qed
qed (auto simp: word_unat_eq_iff)

section \<open>Saturating sums\<close>

definition sat_sum :: "u64 list \<Rightarrow> u64" where
  "sat_sum = foldl sat_add 0"

lemma unat_foldl_sat_add:
  "unat (foldl sat_add a xs) = min (unat a + sum_list (map unat xs)) (2 ^ 64 - 1)" for a :: u64
proof (induction xs arbitrary: a)
  case Nil
  then show ?case using unat_lt [of a] by simp
next
  case (Cons x xs)
  then show ?case by (simp add: unat_sat_add)
qed

lemma unat_sat_sum: "unat (sat_sum xs) = min (sum_list (map unat xs)) (2 ^ 64 - 1)"
  by (simp add: sat_sum_def unat_foldl_sat_add)

end
