(* ===== verification/Window.thy ===== *)
theory Window
  imports Prelude "HOL-Library.AList" "HOL-Library.Multiset"
begin

text \<open>
  The TIDES share window (\<open>tides/src/lib.rs\<close>): the identity table, the rows of credited work with
  their running totals, trimming to a target of work, and the per-identity view a split is made
  from.  The identity index is only looked up, so it is a map; the totals are iterated, so they are
  an association list in some order, and the view is shown not to depend on it.  \<open>None\<close> is a panic
  of the checked arithmetic.  Shown: the totals always agree with the rows, trimming drops exactly
  the oldest rows the target does not need, and crediting in any interleaving with trimming leaves
  the rows a replay would leave.
\<close>

section \<open>Rows\<close>

definition SOURCE_UNKNOWN :: u8 where "SOURCE_UNKNOWN = 0"
definition SOURCE_STRATUM :: u8 where "SOURCE_STRATUM = 1"
definition SOURCE_DATUM :: u8 where "SOURCE_DATUM = 2"

record credit =
  cr_ts :: u32
  cr_ident :: u32
  cr_work :: u64
  cr_height :: u32
  cr_source :: u8

definition CREDIT_SIZE :: nat where "CREDIT_SIZE = 24"

definition credit_write :: "credit \<Rightarrow> bytes" where
  "credit_write c = le32 (cr_ts c) @ le32 (cr_ident c) @ le64 (cr_work c) @ le32 (cr_height c) @
     [cr_source c, 0, 0, 0]"

definition credit_read :: "bytes \<Rightarrow> credit" where
  "credit_read b =
     \<lparr>cr_ts = of_le (take 4 b), cr_ident = of_le (take 4 (drop 4 b)), cr_work = of_le (take 8 (drop 8 b)),
      cr_height = of_le (take 4 (drop 16 b)), cr_source = b ! 20\<rparr>"

lemma credit_write_length [simp]: "length (credit_write c) = CREDIT_SIZE"
  by (simp add: credit_write_def CREDIT_SIZE_def)

lemma credit_read_write: "credit_read (credit_write c) = c"
  by (cases c) (simp add: credit_read_def credit_write_def nth_append)

record miner_stat =
  m_identity :: string
  m_work :: u64
  m_stratum_work :: u64
  m_credits :: u64
  m_last_ts :: u32

section \<open>The window\<close>

type_synonym totals = "(u32 \<times> (u64 \<times> u64 \<times> u32)) list"

record window =
  w_idents :: "string list"
  w_ident_index :: "string \<rightharpoonup> u32"
  w_credits :: "credit list"
  w_totals :: totals
  w_total_work :: u64
  w_target_work :: u64
  w_lifetime_shares :: u64
  w_lifetime_work :: u64

definition window_new :: window where
  "window_new = \<lparr>w_idents = [], w_ident_index = Map.empty, w_credits = [], w_totals = [], w_total_work = 0,
     w_target_work = 0, w_lifetime_shares = 0, w_lifetime_work = 0\<rparr>"

definition intern :: "window \<Rightarrow> string \<Rightarrow> u32 \<times> window" where
  "intern w identity =
     (case w_ident_index w identity of
        Some i \<Rightarrow> (i, w)
      | None \<Rightarrow>
          let i = of_nat (length (w_idents w)) in
          (i, w\<lparr>w_idents := w_idents w @ [identity], w_ident_index := (w_ident_index w)(identity \<mapsto> i)\<rparr>))"

definition identity_at :: "window \<Rightarrow> u32 \<Rightarrow> string option" where
  "identity_at w ident = (if unat ident < length (w_idents w) then Some (w_idents w ! unat ident) else None)"

definition index_of :: "window \<Rightarrow> string \<Rightarrow> u32 option" where
  "index_of w s = w_ident_index w s"

definition work_of :: "window \<Rightarrow> string \<Rightarrow> u64" where
  "work_of w s =
     (case Option.bind (w_ident_index w s) (map_of (w_totals w)) of None \<Rightarrow> 0 | Some t \<Rightarrow> fst t)"

text \<open>What dropping a row does to the totals of its identity.\<close>

definition drop_total :: "credit \<Rightarrow> totals \<Rightarrow> totals" where
  "drop_total c ts =
     (case map_of ts (cr_ident c) of
        None \<Rightarrow> ts
      | Some (wk, n, seen) \<Rightarrow>
          let wk = sat_sub wk (cr_work c); n = sat_sub n 1 in
          if n = 0 then AList.delete (cr_ident c) ts else AList.update (cr_ident c) (wk, n, seen) ts)"

function trim :: "window \<Rightarrow> window" where
  "trim w =
     (if w_target_work w = 0 then w
      else case w_credits w of
        [] \<Rightarrow> w
      | front # rows \<Rightarrow>
          (case checked_sub (w_total_work w) (cr_work front) of
             None \<Rightarrow> w
           | Some rest \<Rightarrow>
               if rest < w_target_work w then w
               else trim (w\<lparr>w_credits := rows, w_total_work := rest, w_totals := drop_total front (w_totals w)\<rparr>)))"
  by pat_completeness auto
termination
  by (relation "measure (\<lambda>w. length (w_credits w))") auto

declare trim.simps [simp del]

definition set_target :: "window \<Rightarrow> u64 \<Rightarrow> window" where
  "set_target w target_work = trim (w\<lparr>w_target_work := target_work\<rparr>)"

text \<open>\<open>totals.entry(ident).or_insert((0, 0, 0))\<close>\<close>

definition total_entry :: "totals \<Rightarrow> u32 \<Rightarrow> u64 \<times> u64 \<times> u32" where
  "total_entry ts ident = (case map_of ts ident of None \<Rightarrow> (0, 0, 0) | Some t \<Rightarrow> t)"

text \<open>The tail row takes the work when it is for the same identity, second, height and source.\<close>

definition push_or_merge :: "credit list \<Rightarrow> credit \<Rightarrow> credit list \<times> bool" where
  "push_or_merge rows c =
     (if rows \<noteq> [] \<and> cr_ident (last rows) = cr_ident c \<and> cr_ts (last rows) = cr_ts c \<and>
         cr_height (last rows) = cr_height c \<and> cr_source (last rows) = cr_source c
      then (butlast rows @ [(last rows)\<lparr>cr_work := sat_add (cr_work (last rows)) (cr_work c)\<rparr>], False)
      else (rows @ [c], True))"

definition window_credit :: "window \<Rightarrow> string \<Rightarrow> u64 \<Rightarrow> u32 \<Rightarrow> u32 \<Rightarrow> u8 \<Rightarrow> ((credit \<times> bool) \<times> window) option" where
  "window_credit w identity work height ts source = do {
     let (ident, w) = intern w identity;
     shares \<leftarrow> checked_add (w_lifetime_shares w) 1;
     let w = w\<lparr>w_lifetime_shares := shares, w_lifetime_work := sat_add (w_lifetime_work w) work,
               w_total_work := sat_add (w_total_work w) work\<rparr>;
     let (wk, n, _) = total_entry (w_totals w) ident;
     let (rows, appended) = push_or_merge (w_credits w)
           \<lparr>cr_ts = ts, cr_ident = ident, cr_work = work, cr_height = height, cr_source = source\<rparr>;
     n \<leftarrow> (if appended then checked_add n 1 else Some n);
     Some ((last rows, appended),
       trim (w\<lparr>w_totals := AList.update ident (sat_add wk work, n, ts) (w_totals w), w_credits := rows\<rparr>))
   }"

definition credit_row :: "window \<Rightarrow> string \<Rightarrow> u64 \<Rightarrow> u32 \<Rightarrow> u32 \<Rightarrow> u8 \<Rightarrow> (credit \<times> window) option" where
  "credit_row w identity work height ts source = do {
     let (ident, w) = intern w identity;
     shares \<leftarrow> checked_add (w_lifetime_shares w) 1;
     let w = w\<lparr>w_lifetime_shares := shares, w_lifetime_work := sat_add (w_lifetime_work w) work,
               w_total_work := sat_add (w_total_work w) work\<rparr>;
     let (wk, n, _) = total_entry (w_totals w) ident;
     n \<leftarrow> checked_add n 1;
     let c = \<lparr>cr_ts = ts, cr_ident = ident, cr_work = work, cr_height = height, cr_source = source\<rparr>;
     Some (c, trim (w\<lparr>w_totals := AList.update ident (sat_add wk work, n, ts) (w_totals w),
                      w_credits := w_credits w @ [c]\<rparr>))
   }"

definition push_raw :: "window \<Rightarrow> credit \<Rightarrow> window option" where
  "push_raw w c = do {
     let (wk, n, last_ts) = total_entry (w_totals w) (cr_ident c);
     n \<leftarrow> checked_add n 1;
     Some (w\<lparr>w_total_work := sat_add (w_total_work w) (cr_work c),
             w_totals := AList.update (cr_ident c) (sat_add wk (cr_work c), n, max last_ts (cr_ts c)) (w_totals w),
             w_credits := w_credits w @ [c]\<rparr>)
   }"

section \<open>The view of the miners\<close>

text \<open>The order of the view: most work first, then by identity.\<close>

datatype rank = Rank u64 string

instantiation rank :: linorder
begin

fun less_eq_rank :: "rank \<Rightarrow> rank \<Rightarrow> bool" where
  "less_eq_rank (Rank a s) (Rank b t) \<longleftrightarrow> b < a \<or> (a = b \<and> s \<le> t)"

definition less_rank :: "rank \<Rightarrow> rank \<Rightarrow> bool" where
  "less_rank x y \<longleftrightarrow> x \<le> y \<and> \<not> y \<le> x"

instance
proof
  fix x y z :: rank
  show "(x < y) = (x \<le> y \<and> \<not> y \<le> x)" by (simp add: less_rank_def)
  show "x \<le> x" by (cases x) simp
  show "x \<le> y \<Longrightarrow> y \<le> z \<Longrightarrow> x \<le> z" by (cases x; cases y; cases z) auto
  show "x \<le> y \<Longrightarrow> y \<le> x \<Longrightarrow> x = y" by (cases x; cases y) auto
  show "x \<le> y \<or> y \<le> x" by (cases x; cases y) auto
qed

end

definition rank_of :: "miner_stat \<Rightarrow> rank" where
  "rank_of m = Rank (m_work m) (m_identity m)"

fun stratum_of :: "credit list \<Rightarrow> (u32 \<rightharpoonup> u64) \<Rightarrow> (u32 \<rightharpoonup> u64) option" where
  "stratum_of [] m = Some m"
| "stratum_of (c # cs) m =
     (if cr_source c = SOURCE_STRATUM then do {
        s \<leftarrow> checked_add (case m (cr_ident c) of None \<Rightarrow> 0 | Some s \<Rightarrow> s) (cr_work c);
        stratum_of cs (m(cr_ident c \<mapsto> s))
      }
      else stratum_of cs m)"

fun miner_rows :: "window \<Rightarrow> (u32 \<rightharpoonup> u64) \<Rightarrow> totals \<Rightarrow> miner_stat list option" where
  "miner_rows w stratum [] = Some []"
| "miner_rows w stratum ((i, (wk, n, last_ts)) # ts) = do {
     s \<leftarrow> identity_at w i;
     ms \<leftarrow> miner_rows w stratum ts;
     Some (\<lparr>m_identity = s, m_work = wk,
            m_stratum_work = min (case stratum i of None \<Rightarrow> 0 | Some x \<Rightarrow> x) wk,
            m_credits = n, m_last_ts = last_ts\<rparr> # ms)
   }"

definition miners :: "window \<Rightarrow> miner_stat list option" where
  "miners w = do {
     stratum \<leftarrow> stratum_of (w_credits w) Map.empty;
     v \<leftarrow> miner_rows w stratum (w_totals w);
     Some (sort_key rank_of v)
   }"

section \<open>The invariant\<close>

definition rows_of :: "u32 \<Rightarrow> credit list \<Rightarrow> credit list" where
  "rows_of i cs = filter (\<lambda>c. cr_ident c = i) cs"

definition works :: "credit list \<Rightarrow> nat" where
  "works cs = sum_list (map (\<lambda>c. unat (cr_work c)) cs)"

lemma works_simps [simp]: "works [] = 0" "works (c # cs) = unat (cr_work c) + works cs"
  "works (xs @ ys) = works xs + works ys"
  by (simp_all add: works_def)

lemma rows_of_simps [simp]: "rows_of i [] = []" "rows_of i (xs @ ys) = rows_of i xs @ rows_of i ys"
  "rows_of i (c # cs) = (if cr_ident c = i then c # rows_of i cs else rows_of i cs)"
  by (simp_all add: rows_of_def)

definition entry_ok :: "credit list \<Rightarrow> (u64 \<times> u64 \<times> u32) option \<Rightarrow> bool" where
  "entry_ok rows e \<longleftrightarrow> (case e of None \<Rightarrow> rows = []
     | Some (wk, n, _) \<Rightarrow> rows \<noteq> [] \<and> unat wk = works rows \<and> unat n = length rows)"

lemma entry_ok_simps [simp]: "entry_ok rows None \<longleftrightarrow> rows = []"
  "entry_ok rows (Some (wk, n, l)) \<longleftrightarrow> rows \<noteq> [] \<and> unat wk = works rows \<and> unat n = length rows"
  by (simp_all add: entry_ok_def)

definition totals_ok :: "totals \<Rightarrow> credit list \<Rightarrow> bool" where
  "totals_ok ts cs \<longleftrightarrow> distinct (map fst ts) \<and> (\<forall>i. entry_ok (rows_of i cs) (map_of ts i))"

definition idents_ok :: "string list \<Rightarrow> (string \<rightharpoonup> u32) \<Rightarrow> bool" where
  "idents_ok ids ix \<longleftrightarrow> distinct ids \<and> length ids \<le> 2 ^ 32 \<and>
     (\<forall>s i. ix s = Some i \<longleftrightarrow> unat i < length ids \<and> ids ! unat i = s)"

definition window_inv :: "window \<Rightarrow> bool" where
  "window_inv w \<longleftrightarrow> idents_ok (w_idents w) (w_ident_index w) \<and>
     (\<forall>c \<in> set (w_credits w). unat (cr_ident c) < length (w_idents w)) \<and>
     totals_ok (w_totals w) (w_credits w) \<and> unat (w_total_work w) = works (w_credits w)"

lemma window_inv_new: "window_inv window_new"
  by (simp add: window_inv_def window_new_def idents_ok_def totals_ok_def)

lemma rows_of_works: "works (rows_of i cs) \<le> works cs"
  by (induction cs) auto

lemma totals_okD:
  assumes "totals_ok ts cs" and "map_of ts i = Some (wk, n, l)"
  shows "unat wk = works (rows_of i cs)" "unat n = length (rows_of i cs)" "rows_of i cs \<noteq> []"
proof -
  have "entry_ok (rows_of i cs) (map_of ts i)" using assms(1) by (simp add: totals_ok_def)
  then show "unat wk = works (rows_of i cs)" "unat n = length (rows_of i cs)" "rows_of i cs \<noteq> []"
    by (simp_all add: assms(2))
qed

lemma total_entry_ok:
  assumes "totals_ok ts cs" and "total_entry ts i = (wk, n, l)"
  shows "unat wk = works (rows_of i cs)" "unat n = length (rows_of i cs)"
proof -
  have "entry_ok (rows_of i cs) (map_of ts i)" using assms(1) by (simp add: totals_ok_def)
  then show "unat wk = works (rows_of i cs)" "unat n = length (rows_of i cs)"
    using assms(2) by (cases "map_of ts i"; auto simp: total_entry_def)+
qed

lemma drop_total_ok:
  assumes "totals_ok ts (c # cs)"
  shows "totals_ok (drop_total c ts) cs"
proof -
  let ?i = "cr_ident c"
  have all: "entry_ok (rows_of i (c # cs)) (map_of ts i)" for i using assms by (simp add: totals_ok_def)
  obtain wk n l where e: "map_of ts ?i = Some (wk, n, l)"
    using all [of ?i] by (cases "map_of ts ?i") auto
  have wk: "unat (sat_sub wk (cr_work c)) = works (rows_of ?i cs)"
    and n: "unat (sat_sub n 1) = length (rows_of ?i cs)"
    using totals_okD [OF assms e] by (simp_all add: unat_sat_sub)
  have other: "entry_ok (rows_of i cs) (map_of ts i)" if "i \<noteq> ?i" for i
    using all [of i] that by simp
  have d: "distinct (map fst ts)" using assms by (simp add: totals_ok_def)
  show ?thesis
  proof (cases "sat_sub n 1 = 0")
    case True
    then have "rows_of ?i cs = []" using n by simp
    moreover have "drop_total c ts = AList.delete ?i ts" using True by (simp add: drop_total_def e)
    ultimately show ?thesis
      using d other by (simp add: totals_ok_def AList.distinct_delete AList.delete_conv')
  next
    case False
    then have "rows_of ?i cs \<noteq> []" using n by (auto simp: word_unat_eq_iff)
    moreover have "drop_total c ts = AList.update ?i (sat_sub wk (cr_work c), sat_sub n 1, l) ts"
      using False by (simp add: drop_total_def e)
    ultimately show ?thesis
      using d other wk n by (simp add: totals_ok_def AList.distinct_update AList.update_conv')
  qed
qed

lemma totals_ok_add:
  assumes "totals_ok ts cs" and "total_entry ts (cr_ident c) = (wk, n, l)"
    and "unat wk' = unat wk + unat (cr_work c)" and "unat n' = unat n + 1"
  shows "totals_ok (AList.update (cr_ident c) (wk', n', l') ts) (cs @ [c])"
proof -
  have "distinct (map fst ts)" "entry_ok (rows_of i cs) (map_of ts i)" for i
    using assms(1) by (simp_all add: totals_ok_def)
  then show ?thesis
    using total_entry_ok [OF assms(1,2)] assms(3,4)
    by (simp add: totals_ok_def AList.distinct_update AList.update_conv')
qed

section \<open>Trimming\<close>

fun trim_rows :: "nat \<Rightarrow> credit list \<Rightarrow> credit list" where
  "trim_rows T [] = []"
| "trim_rows T (c # cs) = (if T \<le> works cs then trim_rows T cs else c # cs)"

definition trimmed :: "u64 \<Rightarrow> credit list \<Rightarrow> credit list" where
  "trimmed target cs = (if target = 0 then cs else trim_rows (unat target) cs)"

lemma trim_spec:
  "window_inv w \<Longrightarrow> window_inv (trim w) \<and> w_credits (trim w) = trimmed (w_target_work w) (w_credits w) \<and>
     w_idents (trim w) = w_idents w \<and> w_ident_index (trim w) = w_ident_index w \<and>
     w_target_work (trim w) = w_target_work w \<and> w_lifetime_shares (trim w) = w_lifetime_shares w \<and>
     w_lifetime_work (trim w) = w_lifetime_work w"
proof (induction w rule: trim.induct)
  case (1 w)
  show ?case
  proof (cases "w_target_work w = 0 \<or> w_credits w = []")
    case True
    then show ?thesis using "1.prems" by (auto simp: trim.simps [of w] trimmed_def)
  next
    case False
    then obtain c cs where cs: "w_credits w = c # cs" and t: "w_target_work w \<noteq> 0" by (cases "w_credits w") auto
    have tot: "unat (w_total_work w) = unat (cr_work c) + works cs"
      using "1.prems" cs by (simp add: window_inv_def)
    define rest where "rest = w_total_work w - cr_work c"
    have sub: "checked_sub (w_total_work w) (cr_work c) = Some rest"
      using tot by (simp add: checked_sub_def rest_def word_le_nat_alt)
    then have rest: "unat rest = works cs" using tot by (simp add: checked_sub_Some)
    show ?thesis
    proof (cases "rest < w_target_work w")
      case True
      then show ?thesis
        using "1.prems" cs t sub rest by (simp add: trim.simps [of w] trimmed_def word_less_nat_alt)
    next
      case ge: False
      let ?w = "w\<lparr>w_credits := cs, w_total_work := rest, w_totals := drop_total c (w_totals w)\<rparr>"
      have "window_inv ?w"
        using "1.prems" cs rest drop_total_ok [of "w_totals w" c cs] by (simp add: window_inv_def)
      from "1.IH" [OF t cs sub ge this] show ?thesis
        using cs t sub ge rest by (simp add: trim.simps [of w] trimmed_def word_less_nat_alt)
    qed
  qed
qed

lemma trim_rows_suffix: "\<exists>k. trim_rows T cs = drop k cs"
proof (induction cs)
  case (Cons c cs)
  then obtain k where "trim_rows T cs = drop k cs" by blast
  then have "trim_rows T (c # cs) = (if T \<le> works cs then drop (Suc k) (c # cs) else drop 0 (c # cs))" by simp
  then show ?case by metis
qed simp

lemma trim_rows_enough: "T \<le> works cs \<Longrightarrow> T \<le> works (trim_rows T cs)"
  by (induction cs) auto

lemma trim_rows_short: "works cs < T \<Longrightarrow> trim_rows T cs = cs"
  by (cases cs) auto

lemma trim_rows_tight: "trim_rows T cs = c # rest \<Longrightarrow> works rest < T"
  by (induction cs) (auto split: if_splits)

lemma trim_rows_append:
  "0 < T \<Longrightarrow> trim_rows T (trim_rows T xs @ ys) = trim_rows T (xs @ ys)"
  by (induction xs) auto

lemma trimmed_append: "trimmed t (trimmed t xs @ ys) = trimmed t (xs @ ys)"
  by (simp add: trimmed_def trim_rows_append unat_gt_0)

lemma trimmed_idem [simp]: "trimmed t (trimmed t xs) = trimmed t xs"
  using trimmed_append [of t xs "[]"] by simp

section \<open>Crediting\<close>

lemma intern_spec:
  assumes "window_inv w" and "length (w_idents w) < 2 ^ 32" and "intern w s = (i, w')"
  shows "window_inv w'" "unat i < length (w_idents w')" "w_idents w' ! unat i = s"
    "w_credits w' = w_credits w" "w_totals w' = w_totals w" "w_total_work w' = w_total_work w"
    "w_target_work w' = w_target_work w" "w_lifetime_shares w' = w_lifetime_shares w"
    "w_lifetime_work w' = w_lifetime_work w" "length (w_idents w') \<le> 2 ^ 32"
    "w_idents w' = (if s \<in> set (w_idents w) then w_idents w else w_idents w @ [s])"
proof -
  have ok: "idents_ok (w_idents w) (w_ident_index w)" using assms(1) by (simp add: window_inv_def)
  have "window_inv w' \<and> unat i < length (w_idents w') \<and> w_idents w' ! unat i = s \<and>
    w_credits w' = w_credits w \<and> w_totals w' = w_totals w \<and> w_total_work w' = w_total_work w \<and>
    w_target_work w' = w_target_work w \<and> w_lifetime_shares w' = w_lifetime_shares w \<and>
    w_lifetime_work w' = w_lifetime_work w \<and> length (w_idents w') \<le> 2 ^ 32 \<and>
    w_idents w' = (if s \<in> set (w_idents w) then w_idents w else w_idents w @ [s])"
  proof (cases "w_ident_index w s")
    case (Some j)
    then have "unat j < length (w_idents w)" "w_idents w ! unat j = s" using ok by (simp_all add: idents_ok_def)
    then show ?thesis using Some assms by (auto simp: intern_def)
  next
    case None
    let ?n = "length (w_idents w)"
    have new: "s \<notin> set (w_idents w)"
    proof
      assume "s \<in> set (w_idents w)"
      then obtain k where k: "k < ?n" "w_idents w ! k = s" by (auto simp: in_set_conv_nth)
      then have "unat (of_nat k :: u32) = k" using assms(2) by (intro unat_of_nat_lt) simp
      then have "w_ident_index w s = Some (of_nat k)" using ok k by (simp add: idents_ok_def)
      then show False using None by simp
    qed
    have n: "unat (of_nat ?n :: u32) = ?n" using assms(2) by (intro unat_of_nat_lt) simp
    have w': "i = of_nat ?n" "w' = w\<lparr>w_idents := w_idents w @ [s], w_ident_index := (w_ident_index w)(s \<mapsto> i)\<rparr>"
      using assms(3) None by (auto simp: intern_def Let_def)
    have "idents_ok (w_idents w @ [s]) ((w_ident_index w)(s \<mapsto> i))"
    proof -
      have "((w_ident_index w)(s \<mapsto> i)) t = Some j \<longleftrightarrow> unat j < length (w_idents w @ [s]) \<and> (w_idents w @ [s]) ! unat j = t" for t j
      proof (cases "t = s")
        case True
        have "unat j < ?n \<Longrightarrow> w_idents w ! unat j \<noteq> s" using new by (metis nth_mem)
        then show ?thesis using True n w'(1) by (auto simp: nth_append less_Suc_eq word_unat_eq_iff)
      next
        case False
        then show ?thesis using ok by (auto simp: idents_ok_def nth_append less_Suc_eq)
      qed
      then show ?thesis using ok new assms(2) by (simp add: idents_ok_def)
    qed
    then show ?thesis
      using assms(1,2) w' n new by (auto simp: window_inv_def less_Suc_eq)
  qed
  then show "window_inv w'" "unat i < length (w_idents w')" "w_idents w' ! unat i = s"
    "w_credits w' = w_credits w" "w_totals w' = w_totals w" "w_total_work w' = w_total_work w"
    "w_target_work w' = w_target_work w" "w_lifetime_shares w' = w_lifetime_shares w"
    "w_lifetime_work w' = w_lifetime_work w" "length (w_idents w') \<le> 2 ^ 32"
    "w_idents w' = (if s \<in> set (w_idents w) then w_idents w else w_idents w @ [s])"
    by blast+
qed

lemma sat_add_exact: "unat a + unat b < 2 ^ LENGTH('a) \<Longrightarrow> unat (sat_add a b :: 'a::len word) = unat a + unat b"
  by (simp add: unat_sat_add)

lemma credit_row_spec:
  assumes inv: "window_inv w" and room: "length (w_idents w) < 2 ^ 32"
    and tot: "unat (w_total_work w) + unat work < 2 ^ 64"
    and r: "credit_row w s work h ts src = Some (c, w')"
  shows "window_inv w'" "w_credits w' = trimmed (w_target_work w) (w_credits w @ [c])"
    "unat (cr_ident c) < length (w_idents w')" "w_idents w' ! unat (cr_ident c) = s"
    "cr_work c = work" "cr_ts c = ts" "cr_height c = h" "cr_source c = src"
    "w_idents w' = (if s \<in> set (w_idents w) then w_idents w else w_idents w @ [s])"
    "w_target_work w' = w_target_work w" "w_lifetime_work w' = sat_add (w_lifetime_work w) work"
    "unat (w_lifetime_shares w') = unat (w_lifetime_shares w) + 1"
proof -
  obtain i w1 where i: "intern w s = (i, w1)" by fastforce
  note sp = intern_spec [OF inv room i]
  obtain wk n l where e: "total_entry (w_totals w1) i = (wk, n, l)" by (cases "total_entry (w_totals w1) i")
  from r i e obtain sh n' where sh: "checked_add (w_lifetime_shares w1) 1 = Some sh"
    and n': "checked_add n 1 = Some n'"
    and c: "c = \<lparr>cr_ts = ts, cr_ident = i, cr_work = work, cr_height = h, cr_source = src\<rparr>"
    and w': "w' = trim (w1\<lparr>w_lifetime_shares := sh, w_lifetime_work := sat_add (w_lifetime_work w1) work,
        w_total_work := sat_add (w_total_work w1) work,
        w_totals := AList.update i (sat_add wk work, n', ts) (w_totals w1), w_credits := w_credits w1 @ [c]\<rparr>)"
    by (auto simp: credit_row_def Let_def split: Option.bind_splits)
  let ?w = "w1\<lparr>w_lifetime_shares := sh, w_lifetime_work := sat_add (w_lifetime_work w1) work,
        w_total_work := sat_add (w_total_work w1) work,
        w_totals := AList.update i (sat_add wk work, n', ts) (w_totals w1), w_credits := w_credits w1 @ [c]\<rparr>"
  have t1: "totals_ok (w_totals w1) (w_credits w1)" "unat (w_total_work w1) = works (w_credits w1)"
    using sp(1) by (simp_all add: window_inv_def)
  have "unat wk \<le> works (w_credits w1)" using total_entry_ok(1) [OF t1(1) e] rows_of_works by simp
  then have wk: "unat (sat_add wk work) = unat wk + unat work"
    using tot t1(2) sp(6) by (intro sat_add_exact) simp
  have "totals_ok (AList.update i (sat_add wk work, n', ts) (w_totals w1)) (w_credits w1 @ [c])"
    using totals_ok_add [of "w_totals w1" "w_credits w1" c wk n l] t1 e wk n' by (simp add: c checked_add_Some)
  then have inv': "window_inv ?w"
    using sp(1,2) t1(2) sp(6) tot by (simp add: window_inv_def c sat_add_exact)
  note tr = trim_spec [OF inv']
  show "window_inv w'" "w_credits w' = trimmed (w_target_work w) (w_credits w @ [c])"
    "unat (cr_ident c) < length (w_idents w')" "w_idents w' ! unat (cr_ident c) = s"
    "cr_work c = work" "cr_ts c = ts" "cr_height c = h" "cr_source c = src"
    "w_idents w' = (if s \<in> set (w_idents w) then w_idents w else w_idents w @ [s])"
    "w_target_work w' = w_target_work w" "w_lifetime_work w' = sat_add (w_lifetime_work w) work"
    "unat (w_lifetime_shares w') = unat (w_lifetime_shares w) + 1"
    using tr sp sh by (simp_all add: w' c checked_add_Some)
qed

lemma totals_ok_merge:
  assumes "totals_ok ts (xs @ [c])" and "total_entry ts (cr_ident c) = (wk, n, l)"
    and "cr_ident c' = cr_ident c" and "unat (cr_work c') = unat (cr_work c) + k" and "unat wk' = unat wk + k"
  shows "totals_ok (AList.update (cr_ident c) (wk', n, l') ts) (xs @ [c'])"
proof -
  have all: "distinct (map fst ts)" "entry_ok (rows_of i (xs @ [c])) (map_of ts i)" for i
    using assms(1) by (simp_all add: totals_ok_def)
  have "entry_ok (rows_of i (xs @ [c'])) (map_of (AList.update (cr_ident c) (wk', n, l') ts) i)" for i
    using all(2) [of i] total_entry_ok [OF assms(1,2)] assms(3-5)
    by (cases "i = cr_ident c") (simp_all add: AList.update_conv')
  then show ?thesis using all(1) by (simp add: totals_ok_def AList.distinct_update)
qed

lemma credit_spec:
  assumes inv: "window_inv w" and room: "length (w_idents w) < 2 ^ 32"
    and tot: "unat (w_total_work w) + unat work < 2 ^ 64"
    and r: "window_credit w s work h ts src = Some ((c, app), w')"
  shows "window_inv w' \<and> unat (cr_ident c) < length (w_idents w') \<and> w_idents w' ! unat (cr_ident c) = s \<and>
    w_target_work w' = w_target_work w \<and> w_lifetime_work w' = sat_add (w_lifetime_work w) work \<and>
    unat (w_lifetime_shares w') = unat (w_lifetime_shares w) + 1 \<and>
    (if app then cr_work c = work \<and> w_credits w' = trimmed (w_target_work w) (w_credits w @ [c])
     else w_credits w \<noteq> [] \<and> unat (cr_work c) = unat (cr_work (last (w_credits w))) + unat work \<and>
       w_credits w' = trimmed (w_target_work w) (butlast (w_credits w) @ [c]))"
proof -
  obtain i w1 where i: "intern w s = (i, w1)" by fastforce
  note sp = intern_spec [OF inv room i]
  obtain wk n l where e: "total_entry (w_totals w1) i = (wk, n, l)" by (cases "total_entry (w_totals w1) i")
  define new where "new = \<lparr>cr_ts = ts, cr_ident = i, cr_work = work, cr_height = h, cr_source = src\<rparr>"
  obtain rows ap where pm: "push_or_merge (w_credits w1) new = (rows, ap)" by fastforce
  from r i e pm obtain sh n' where sh: "checked_add (w_lifetime_shares w1) 1 = Some sh"
    and n': "(if ap then checked_add n 1 else Some n) = Some n'"
    and c: "c = last rows" "app = ap"
    and w': "w' = trim (w1\<lparr>w_lifetime_shares := sh, w_lifetime_work := sat_add (w_lifetime_work w1) work,
        w_total_work := sat_add (w_total_work w1) work,
        w_totals := AList.update i (sat_add wk work, n', ts) (w_totals w1), w_credits := rows\<rparr>)"
    by (auto simp: window_credit_def Let_def new_def split: Option.bind_splits)
  let ?w = "w1\<lparr>w_lifetime_shares := sh, w_lifetime_work := sat_add (w_lifetime_work w1) work,
        w_total_work := sat_add (w_total_work w1) work,
        w_totals := AList.update i (sat_add wk work, n', ts) (w_totals w1), w_credits := rows\<rparr>"
  have t1: "totals_ok (w_totals w1) (w_credits w1)" "unat (w_total_work w1) = works (w_credits w1)"
    using sp(1) by (simp_all add: window_inv_def)
  have "unat wk \<le> works (w_credits w1)" using total_entry_ok(1) [OF t1(1) e] rows_of_works by simp
  then have wk: "unat (sat_add wk work) = unat wk + unat work"
    using tot t1(2) sp(6) by (intro sat_add_exact) simp
  have m: "totals_ok (AList.update i (sat_add wk work, n', ts) (w_totals w1)) rows \<and>
      works rows = works (w_credits w1) + unat work \<and> cr_ident (last rows) = i \<and>
      (if ap then rows = w_credits w1 @ [new]
       else w_credits w1 \<noteq> [] \<and> rows = butlast (w_credits w1) @ [last rows] \<and>
         cr_ident (last (w_credits w1)) = i \<and>
         unat (cr_work (last rows)) = unat (cr_work (last (w_credits w1))) + unat work)"
  proof (cases ap)
    case False
    define tail where "tail = last (w_credits w1)"
    define row where "row = tail\<lparr>cr_work := sat_add (cr_work tail) work\<rparr>"
    have ne: "w_credits w1 \<noteq> []" and ti: "cr_ident tail = i" and rows: "rows = butlast (w_credits w1) @ [row]"
      using pm False by (auto simp: push_or_merge_def new_def tail_def row_def split: if_splits)
    have cs: "butlast (w_credits w1) @ [tail] = w_credits w1" using ne by (simp add: tail_def)
    have wcs: "works (w_credits w1) = works (butlast (w_credits w1)) + unat (cr_work tail)"
      using arg_cong [OF cs, of works] by simp
    have rw: "unat (cr_work row) = unat (cr_work tail) + unat work"
      using tot t1(2) sp(6) wcs by (simp add: row_def sat_add_exact)
    have "totals_ok (w_totals w1) (butlast (w_credits w1) @ [tail])" using t1(1) cs by simp
    from totals_ok_merge [OF this, of wk n l row "unat work" "sat_add wk work" ts]
    have "totals_ok (AList.update i (sat_add wk work, n', ts) (w_totals w1)) rows"
      using e ti rw wk n' False rows by (simp add: row_def)
    then show ?thesis using False ne ti rw wcs rows by (simp add: tail_def row_def)
  next
    case True
    then have rows: "rows = w_credits w1 @ [new]" using pm by (auto simp: push_or_merge_def split: if_splits)
    have "checked_add n 1 = Some n'" using n' True by simp
    then have "totals_ok (AList.update i (sat_add wk work, n', ts) (w_totals w1)) rows"
      using totals_ok_add [of "w_totals w1" "w_credits w1" new wk n l] t1 e wk
      by (simp add: rows new_def checked_add_Some)
    then show ?thesis using True rows by (simp add: new_def)
  qed
  have "\<forall>c \<in> set rows. unat (cr_ident c) < length (w_idents w1)"
  proof -
    have old: "\<forall>c \<in> set (w_credits w1). unat (cr_ident c) < length (w_idents w1)"
      using sp(1) by (simp add: window_inv_def)
    have "set rows \<subseteq> insert (last rows) (set (w_credits w1))"
      using pm by (auto simp: push_or_merge_def dest: in_set_butlastD split: if_splits)
    then show ?thesis using old m sp(2) by auto
  qed
  then have inv': "window_inv ?w"
    using sp(1) t1(2) sp(6) tot m by (simp add: window_inv_def sat_add_exact)
  note tr = trim_spec [OF inv']
  show ?thesis
    unfolding w' c using tr sp sh m by (cases ap) (auto simp: checked_add_Some new_def)
qed

lemma push_raw_spec:
  assumes inv: "window_inv w" and "unat (cr_ident c) < length (w_idents w)"
    and tot: "unat (w_total_work w) + unat (cr_work c) < 2 ^ 64"
    and r: "push_raw w c = Some w'"
  shows "window_inv w'" "w_credits w' = w_credits w @ [c]" "w_idents w' = w_idents w"
    "w_ident_index w' = w_ident_index w" "w_target_work w' = w_target_work w"
    "w_lifetime_shares w' = w_lifetime_shares w" "w_lifetime_work w' = w_lifetime_work w"
    "unat (w_total_work w') = unat (w_total_work w) + unat (cr_work c)"
proof -
  obtain wk n l where e: "total_entry (w_totals w) (cr_ident c) = (wk, n, l)"
    by (cases "total_entry (w_totals w) (cr_ident c)")
  from r e obtain n' where n': "checked_add n 1 = Some n'"
    and w': "w' = w\<lparr>w_total_work := sat_add (w_total_work w) (cr_work c),
        w_totals := AList.update (cr_ident c) (sat_add wk (cr_work c), n', max l (cr_ts c)) (w_totals w),
        w_credits := w_credits w @ [c]\<rparr>"
    by (auto simp: push_raw_def Let_def split: Option.bind_splits)
  have t: "totals_ok (w_totals w) (w_credits w)" "unat (w_total_work w) = works (w_credits w)"
    using inv by (simp_all add: window_inv_def)
  have "unat wk \<le> works (w_credits w)" using total_entry_ok(1) [OF t(1) e] rows_of_works by simp
  then have wk: "unat (sat_add wk (cr_work c)) = unat wk + unat (cr_work c)"
    using tot t(2) by (intro sat_add_exact) simp
  have "totals_ok (AList.update (cr_ident c) (sat_add wk (cr_work c), n', max l (cr_ts c)) (w_totals w)) (w_credits w @ [c])"
    using totals_ok_add [OF t(1) e wk] n' by (simp add: checked_add_Some)
  then show "window_inv w'" "w_credits w' = w_credits w @ [c]" "w_idents w' = w_idents w"
    "w_ident_index w' = w_ident_index w" "w_target_work w' = w_target_work w"
    "w_lifetime_shares w' = w_lifetime_shares w" "w_lifetime_work w' = w_lifetime_work w"
    "unat (w_total_work w') = unat (w_total_work w) + unat (cr_work c)"
    using inv assms(2) tot t(2) by (auto simp: w' window_inv_def sat_add_exact)
qed

section \<open>Histories\<close>

text \<open>What a live window goes through, while its identity table has room in its 32-bit index.\<close>

inductive window_step :: "window \<Rightarrow> window \<Rightarrow> bool" where
  credit: "window_credit w s work h ts src = Some (r, w') \<Longrightarrow> length (w_idents w) < 2 ^ 32 \<Longrightarrow> window_step w w'"
| credit_row: "credit_row w s work h ts src = Some (c, w') \<Longrightarrow> length (w_idents w) < 2 ^ 32 \<Longrightarrow> window_step w w'"
| set_target: "window_step w (set_target w t)"

definition unsaturated :: "window \<Rightarrow> bool" where
  "unsaturated w \<longleftrightarrow> unat (w_lifetime_work w) < 2 ^ 64 - 1"

definition live_inv :: "window \<Rightarrow> bool" where
  "live_inv w \<longleftrightarrow> (unsaturated w \<longrightarrow> window_inv w \<and> unat (w_total_work w) \<le> unat (w_lifetime_work w) \<and>
     trimmed (w_target_work w) (w_credits w) = w_credits w)"

lemma works_trim_rows: "works (trim_rows T cs) \<le> works cs"
  by (induction cs) auto

lemma works_trimmed: "works (trimmed t cs) \<le> works cs"
  by (simp add: trimmed_def works_trim_rows)

lemma lifetime_after: "unat (sat_add a b :: u64) < 2 ^ 64 - 1 \<Longrightarrow>
    unat a + unat b < 2 ^ 64 - 1 \<and> unat (sat_add a b) = unat a + unat b"
  by (simp add: unat_sat_add min_def split: if_splits)

lemma total_after: "window_inv w \<Longrightarrow> unat (w_total_work w) = works (w_credits w)"
  by (simp add: window_inv_def)

lemma lifetime_credit:
  "window_credit w s work h ts src = Some (r, w') \<Longrightarrow> w_lifetime_work w' = sat_add (w_lifetime_work w) work"
  "credit_row w s work h ts src = Some (c, w') \<Longrightarrow> w_lifetime_work w' = sat_add (w_lifetime_work w) work"
proof -
  have t: "w_lifetime_work (trim w) = w_lifetime_work w" for w
    by (induction w rule: trim.induct) (subst trim.simps, auto split: list.split option.split)
  have i: "w_lifetime_work (snd (intern w s)) = w_lifetime_work w"
    by (simp add: intern_def Let_def split: option.split)
  show "window_credit w s work h ts src = Some (r, w') \<Longrightarrow> w_lifetime_work w' = sat_add (w_lifetime_work w) work"
    using i by (auto simp: window_credit_def t Let_def split: prod.splits Option.bind_splits if_splits)
  show "credit_row w s work h ts src = Some (c, w') \<Longrightarrow> w_lifetime_work w' = sat_add (w_lifetime_work w) work"
    using i by (auto simp: credit_row_def t Let_def split: prod.splits Option.bind_splits)
qed

lemma window_step_inv: "window_step w w' \<Longrightarrow> live_inv w \<Longrightarrow> live_inv w'"
proof (induction rule: window_step.induct)
  case (credit w s work h ts src r w')
  obtain c ap where r: "r = (c, ap)" by fastforce
  show ?case unfolding live_inv_def
  proof
    assume u: "unsaturated w'"
    then have l: "unat (w_lifetime_work w) + unat work < 2 ^ 64 - 1"
        "unat (w_lifetime_work w') = unat (w_lifetime_work w) + unat work"
      using lifetime_after [of "w_lifetime_work w" work] lifetime_credit(1) [OF credit.hyps(1)]
      by (simp_all add: unsaturated_def)
    then have inv: "window_inv w" "unat (w_total_work w) \<le> unat (w_lifetime_work w)"
      using credit.prems by (simp_all add: live_inv_def unsaturated_def)
    note sp = credit_spec [OF inv(1) credit.hyps(2) _ credit.hyps(1) [unfolded r]]
    have "works (w_credits w') \<le> works (w_credits w) + unat work"
    proof (cases ap)
      case True
      then show ?thesis using sp l inv works_trimmed [of "w_target_work w" "w_credits w @ [c]"] by simp
    next
      case False
      then have ne: "w_credits w \<noteq> []" and cw: "unat (cr_work c) = unat (cr_work (last (w_credits w))) + unat work"
        and cs: "w_credits w' = trimmed (w_target_work w) (butlast (w_credits w) @ [c])"
        using sp l inv by simp_all
      have "works (w_credits w) = works (butlast (w_credits w)) + unat (cr_work (last (w_credits w)))"
        using arg_cong [OF append_butlast_last_id [OF ne], of works] by simp
      then show ?thesis using cs cw works_trimmed [of "w_target_work w" "butlast (w_credits w) @ [c]"] by simp
    qed
    then show "window_inv w' \<and> unat (w_total_work w') \<le> unat (w_lifetime_work w') \<and>
        trimmed (w_target_work w') (w_credits w') = w_credits w'"
      using sp l inv total_after [of w] total_after [of w'] by (cases ap) simp_all
  qed
next
  case (credit_row w s work h ts src c w')
  show ?case unfolding live_inv_def
  proof
    assume u: "unsaturated w'"
    then have l: "unat (w_lifetime_work w) + unat work < 2 ^ 64 - 1"
        "unat (w_lifetime_work w') = unat (w_lifetime_work w) + unat work"
      using lifetime_after [of "w_lifetime_work w" work] lifetime_credit(2) [OF credit_row.hyps(1)]
      by (simp_all add: unsaturated_def)
    then have inv: "window_inv w" "unat (w_total_work w) \<le> unat (w_lifetime_work w)"
      using credit_row.prems by (simp_all add: live_inv_def unsaturated_def)
    note sp = credit_row_spec [OF inv(1) credit_row.hyps(2) _ credit_row.hyps(1)]
    have "works (w_credits w') \<le> works (w_credits w) + unat work"
      using sp l inv works_trimmed [of "w_target_work w" "w_credits w @ [c]"] by simp
    then show "window_inv w' \<and> unat (w_total_work w') \<le> unat (w_lifetime_work w') \<and>
        trimmed (w_target_work w') (w_credits w') = w_credits w'"
      using sp l inv total_after [of w] total_after [of w'] by simp
  qed
next
  case (set_target w t)
  have l: "w_lifetime_work (set_target w t) = w_lifetime_work w" if "window_inv w"
    using trim_spec [of "w\<lparr>w_target_work := t\<rparr>"] that by (simp add: set_target_def window_inv_def)
  have lt: "w_lifetime_work (trim w) = w_lifetime_work w" for w
    by (induction w rule: trim.induct) (subst trim.simps, auto split: list.split option.split)
  show ?case unfolding live_inv_def
  proof
    assume "unsaturated (set_target w t)"
    then have inv: "window_inv w" "unat (w_total_work w) \<le> unat (w_lifetime_work w)"
      using set_target.prems by (simp_all add: live_inv_def unsaturated_def set_target_def lt)
    then have "window_inv (w\<lparr>w_target_work := t\<rparr>)" by (simp add: window_inv_def)
    note tr = trim_spec [OF this]
    then show "window_inv (set_target w t) \<and> unat (w_total_work (set_target w t)) \<le> unat (w_lifetime_work (set_target w t)) \<and>
        trimmed (w_target_work (set_target w t)) (w_credits (set_target w t)) = w_credits (set_target w t)"
      using inv total_after [of w] total_after [of "set_target w t"] works_trimmed [of t "w_credits w"]
      by (simp add: set_target_def)
  qed
qed

lemma live_window:
  assumes "window_step\<^sup>*\<^sup>* window_new w" and "unsaturated w"
  shows "window_inv w" "trimmed (w_target_work w) (w_credits w) = w_credits w"
proof -
  have "live_inv w" using assms(1)
  proof (induction rule: rtranclp_induct)
    case base
    show ?case using window_inv_new by (simp add: live_inv_def) (simp add: window_new_def trimmed_def)
  next
    case (step y z)
    then show ?case using window_step_inv by blast
  qed
  then show "window_inv w" "trimmed (w_target_work w) (w_credits w) = w_credits w"
    using assms(2) by (simp_all add: live_inv_def)
qed

section \<open>Properties of the window\<close>

lemma inv_identity:
  assumes "window_inv w" and "c \<in> set (w_credits w)"
  obtains s where "identity_at w (cr_ident c) = Some s" and "index_of w s = Some (cr_ident c)"
  using assms by (simp add: window_inv_def idents_ok_def identity_at_def index_of_def)

lemma inv_work_of:
  assumes "window_inv w" and "index_of w s = Some i"
  shows "identity_at w i = Some s" "unat (work_of w s) = works (rows_of i (w_credits w))"
proof -
  show "identity_at w i = Some s"
    using assms by (simp add: window_inv_def idents_ok_def identity_at_def index_of_def)
  have "entry_ok (rows_of i (w_credits w)) (map_of (w_totals w) i)"
    using assms(1) by (simp add: window_inv_def totals_ok_def)
  then show "unat (work_of w s) = works (rows_of i (w_credits w))"
    using assms(2) by (auto simp: work_of_def index_of_def entry_ok_def split: option.splits)
qed


definition demo_window :: window where
  "demo_window = \<lparr>w_idents = [''ann'', ''bob''], w_ident_index = [''ann'' \<mapsto> 0, ''bob'' \<mapsto> 1],
     w_credits = [\<lparr>cr_ts = 1, cr_ident = 0, cr_work = 4, cr_height = 7, cr_source = SOURCE_DATUM\<rparr>,
       \<lparr>cr_ts = 2, cr_ident = 1, cr_work = 5, cr_height = 7, cr_source = SOURCE_STRATUM\<rparr>],
     w_totals = [(0, 4, 1, 1), (1, 5, 1, 2)], w_total_work = 9, w_target_work = 5,
     w_lifetime_shares = 2, w_lifetime_work = 9\<rparr>"

lemma demo_credits:
  "credit_row window_new ''ann'' 4 7 1 SOURCE_DATUM =
     Some (\<lparr>cr_ts = 1, cr_ident = 0, cr_work = 4, cr_height = 7, cr_source = SOURCE_DATUM\<rparr>,
       demo_window\<lparr>w_idents := [''ann''], w_ident_index := [''ann'' \<mapsto> 0], w_credits := take 1 (w_credits demo_window),
         w_totals := [(0, 4, 1, 1)], w_total_work := 4, w_target_work := 0, w_lifetime_shares := 1, w_lifetime_work := 4\<rparr>)"
  "credit_row (demo_window\<lparr>w_idents := [''ann''], w_ident_index := [''ann'' \<mapsto> 0], w_credits := take 1 (w_credits demo_window),
         w_totals := [(0, 4, 1, 1)], w_total_work := 4, w_target_work := 0, w_lifetime_shares := 1, w_lifetime_work := 4\<rparr>)
     ''bob'' 5 7 2 SOURCE_STRATUM =
     Some (\<lparr>cr_ts = 2, cr_ident = 1, cr_work = 5, cr_height = 7, cr_source = SOURCE_STRATUM\<rparr>,
       demo_window\<lparr>w_target_work := 0\<rparr>)"
  by (simp_all add: credit_row_def window_new_def demo_window_def intern_def total_entry_def checked_add_def
      sat_add_def trim.simps Let_def)

lemma demo_window_reached: "window_step\<^sup>*\<^sup>* window_new (demo_window\<lparr>w_target_work := 0\<rparr>)"
proof -
  have "window_step\<^sup>*\<^sup>* window_new (demo_window\<lparr>w_idents := [''ann''], w_ident_index := [''ann'' \<mapsto> 0],
      w_credits := take 1 (w_credits demo_window), w_totals := [(0, 4, 1, 1)], w_total_work := 4,
      w_target_work := 0, w_lifetime_shares := 1, w_lifetime_work := 4\<rparr>)"
    by (intro r_into_rtranclp window_step.credit_row) (rule demo_credits(1), simp add: window_new_def)
  then show ?thesis
    by (rule rtranclp.rtrancl_into_rtrancl) (intro window_step.credit_row, rule demo_credits(2), simp)
qed


text \<open>
  Trimming drops exactly the oldest rows the target can spare.  The rows after are a suffix of the
  rows before.  With no target nothing goes; if the window holds less than the target nothing goes;
  otherwise what remains still holds the target's work, and without its oldest row it would not.
  The books balance afterwards, and names and lifetime counters are untouched.
\<close>

theorem trim_shortest_suffix:
  assumes "window_inv w"
  shows "(\<exists>k. w_credits (trim w) = drop k (w_credits w)) \<and>
    (w_target_work w = 0 \<or> works (w_credits w) < unat (w_target_work w) \<longrightarrow> w_credits (trim w) = w_credits w) \<and>
    (unat (w_target_work w) \<le> works (w_credits w) \<longrightarrow> unat (w_target_work w) \<le> works (w_credits (trim w))) \<and>
    (w_target_work w \<noteq> 0 \<longrightarrow> (\<forall>c rest. w_credits (trim w) = c # rest \<longrightarrow> works rest < unat (w_target_work w))) \<and>
    window_inv (trim w) \<and> w_idents (trim w) = w_idents w \<and>
    w_lifetime_shares (trim w) = w_lifetime_shares w \<and> w_lifetime_work (trim w) = w_lifetime_work w"
proof -
  note tr = trim_spec [OF assms]
  have cs: "w_credits (trim w) = trimmed (w_target_work w) (w_credits w)" using tr by blast
  have "\<exists>k. w_credits (trim w) = drop k (w_credits w)"
    unfolding cs trimmed_def using trim_rows_suffix [of "unat (w_target_work w)" "w_credits w"] drop_0 by metis
  then show ?thesis
    using tr by (auto simp: trimmed_def trim_rows_enough trim_rows_short dest: trim_rows_tight)
qed

lemma demo_window_inv: "window_inv demo_window" "window_inv (demo_window\<lparr>w_target_work := t\<rparr>)"
proof -
  have "window_inv (demo_window\<lparr>w_target_work := 0\<rparr>)"
    by (rule live_window(1) [OF demo_window_reached]) (simp add: unsaturated_def demo_window_def)
  then show "window_inv demo_window" "window_inv (demo_window\<lparr>w_target_work := t\<rparr>)"
    by (simp_all add: window_inv_def)
qed

theorem trim_shortest_suffix_witness:
  "w_credits (trim demo_window) = drop 1 (w_credits demo_window) \<and>
   unat (w_target_work demo_window) \<le> works (w_credits (trim demo_window))"
proof -
  have "w_credits (trim demo_window) = drop 1 (w_credits demo_window)"
    using trim_spec [OF demo_window_inv(1)] by (simp add: trimmed_def demo_window_def)
  moreover have "unat (w_target_work demo_window) \<le> works (w_credits demo_window)" by (simp add: demo_window_def)
  then have "unat (w_target_work demo_window) \<le> works (w_credits (trim demo_window))"
    using trim_shortest_suffix [OF demo_window_inv(1)] by blast
  ultimately show ?thesis by blast
qed



section \<open>The view of the miners is exact\<close>

definition strat_rows :: "u32 \<Rightarrow> credit list \<Rightarrow> credit list" where
  "strat_rows i cs = filter (\<lambda>c. cr_source c = SOURCE_STRATUM) (rows_of i cs)"

lemma strat_rows_simps [simp]: "strat_rows i [] = []"
  "strat_rows i (c # cs) = (if cr_ident c = i \<and> cr_source c = SOURCE_STRATUM then c # strat_rows i cs else strat_rows i cs)"
  by (simp_all add: strat_rows_def)

lemma works_filter: "works (filter P cs) \<le> works cs"
  by (induction cs) auto

lemma strat_rows_works: "works (strat_rows i cs) \<le> works (rows_of i cs)"
  by (simp add: strat_rows_def works_filter)

definition held :: "(u32 \<rightharpoonup> u64) \<Rightarrow> u32 \<Rightarrow> u64" where
  "held m i = (case m i of None \<Rightarrow> 0 | Some s \<Rightarrow> s)"

lemma stratum_of_spec:
  assumes "\<And>i. unat (held m i) + works (strat_rows i cs) < 2 ^ 64"
  shows "\<exists>m'. stratum_of cs m = Some m' \<and> (\<forall>i. unat (held m' i) = unat (held m i) + works (strat_rows i cs))"
  using assms
proof (induction cs arbitrary: m)
  case (Cons c cs)
  show ?case
  proof (cases "cr_source c = SOURCE_STRATUM")
    case True
    let ?i = "cr_ident c"
    have "unat (held m ?i) + unat (cr_work c) < 2 ^ 64" using Cons.prems [of ?i] True by simp
    then obtain s where s: "checked_add (held m ?i) (cr_work c) = Some s"
        "unat s = unat (held m ?i) + unat (cr_work c)"
      using checked_add_total [of "held m ?i" "cr_work c"] by (auto simp: checked_add_Some)
    have h: "held (m(?i \<mapsto> s)) i = (if i = ?i then s else held m i)" for i by (simp add: held_def)
    have "unat (held (m(?i \<mapsto> s)) i) + works (strat_rows i cs) < 2 ^ 64" for i
      using Cons.prems [of i] True s by (simp add: h split: if_splits)
    from Cons.IH [OF this] obtain m' where m': "stratum_of cs (m(?i \<mapsto> s)) = Some m'"
        "\<And>i. unat (held m' i) = unat (held (m(?i \<mapsto> s)) i) + works (strat_rows i cs)" by blast
    have "stratum_of (c # cs) m = Some m'" using True s(1) m'(1) by (simp add: held_def)
    moreover have "unat (held m' i) = unat (held m i) + works (strat_rows i (c # cs))" for i
      using m'(2) [of i] True s(2) by (simp add: h)
    ultimately show ?thesis by blast
  next
    case False
    then show ?thesis using Cons.IH [of m] Cons.prems by simp
  qed
qed simp

definition stat_of :: "window \<Rightarrow> (u32 \<rightharpoonup> u64) \<Rightarrow> u32 \<times> (u64 \<times> u64 \<times> u32) \<Rightarrow> miner_stat" where
  "stat_of w st = (\<lambda>(i, (wk, n, l)). \<lparr>m_identity = w_idents w ! unat i, m_work = wk,
     m_stratum_work = min (held st i) wk, m_credits = n, m_last_ts = l\<rparr>)"

lemma miner_rows_spec:
  "\<forall>e \<in> set ts. unat (fst e) < length (w_idents w) \<Longrightarrow> miner_rows w st ts = Some (map (stat_of w st) ts)"
  by (induction w st ts rule: miner_rows.induct) (simp_all add: identity_at_def stat_of_def held_def)

lemma works_partition:
  "finite A \<Longrightarrow> cr_ident ` set cs \<subseteq> A \<Longrightarrow> (\<Sum>i\<in>A. works (rows_of i cs)) = works cs"
proof (induction cs)
  case (Cons c cs)
  have "(\<Sum>i\<in>A. works (rows_of i (c # cs))) =
      (\<Sum>i\<in>A. (if cr_ident c = i then unat (cr_work c) else 0) + works (rows_of i cs))"
    by (intro sum.cong) auto
  also have "\<dots> = unat (cr_work c) + works cs"
    using Cons by (simp add: sum.distrib)
  finally show ?case by simp
qed simp

lemma totals_keys: "totals_ok ts cs \<Longrightarrow> fst ` set ts = cr_ident ` set cs"
proof -
  assume ok: "totals_ok ts cs"
  have "i \<in> fst ` set ts \<longleftrightarrow> rows_of i cs \<noteq> []" for i
  proof -
    have "entry_ok (rows_of i cs) (map_of ts i)" using ok by (simp add: totals_ok_def)
    then show ?thesis by (cases "map_of ts i") (auto simp: map_of_eq_None_iff, metis dom_map_of_conv_image_fst domI)
  qed
  moreover have "rows_of i cs \<noteq> [] \<longleftrightarrow> i \<in> cr_ident ` set cs" for i
    by (auto simp: rows_of_def filter_empty_conv)
  ultimately show ?thesis by blast
qed

lemma totals_sum:
  assumes ok: "totals_ok ts cs"
  shows "(\<Sum>e\<leftarrow>ts. unat (fst (snd e))) = works cs"
proof -
  have d: "distinct (map fst ts)" using ok by (simp add: totals_ok_def)
  have "unat (fst (snd e)) = works (rows_of (fst e) cs)" if "e \<in> set ts" for e
  proof -
    obtain i wk n l where e: "e = (i, (wk, n, l))" by (cases e) auto
    then have "map_of ts i = Some (wk, n, l)" using that d by simp
    then show ?thesis using totals_okD [OF ok] e by simp
  qed
  then have "(\<Sum>e\<leftarrow>ts. unat (fst (snd e))) = (\<Sum>i\<leftarrow>map fst ts. works (rows_of i cs))"
    by (simp add: o_def cong: map_cong)
  also have "\<dots> = (\<Sum>i\<in>set (map fst ts). works (rows_of i cs))"
    using d by (rule sum_list_distinct_conv_sum_set)
  also have "\<dots> = works cs" using totals_keys [OF ok] by (intro works_partition) auto
  finally show ?thesis .
qed

lemma miners_spec:
  assumes inv: "window_inv w"
  obtains st where "stratum_of (w_credits w) Map.empty = Some st"
    and "\<And>i. unat (held st i) = works (strat_rows i (w_credits w))"
    and "miners w = Some (sort_key rank_of (map (stat_of w st) (w_totals w)))"
    and "distinct (map m_identity (map (stat_of w st) (w_totals w)))"
proof -
  have tot: "works (w_credits w) < 2 ^ 64" using total_after [OF inv] unat_lt [of "w_total_work w"] by simp
  have "unat (held Map.empty i) + works (strat_rows i (w_credits w)) < 2 ^ 64" for i
    using tot strat_rows_works [of i "w_credits w"] rows_of_works [of i "w_credits w"] by (simp add: held_def)
  from stratum_of_spec [OF this] obtain st where st: "stratum_of (w_credits w) Map.empty = Some st"
    "\<And>i. unat (held st i) = works (strat_rows i (w_credits w))" by (auto simp: held_def)
  have ok: "totals_ok (w_totals w) (w_credits w)" and
    ids: "\<forall>c \<in> set (w_credits w). unat (cr_ident c) < length (w_idents w)" and di: "distinct (w_idents w)"
    using inv by (simp_all add: window_inv_def idents_ok_def)
  have lt: "\<forall>e \<in> set (w_totals w). unat (fst e) < length (w_idents w)"
    using totals_keys [OF ok] ids by (metis (no_types, lifting) imageE image_eqI)
  then have m: "miners w = Some (sort_key rank_of (map (stat_of w st) (w_totals w)))"
    by (simp add: miners_def st miner_rows_spec)
  have "inj_on (\<lambda>i. w_idents w ! unat i) (fst ` set (w_totals w))"
  proof (rule inj_onI)
    fix i j
    assume "i \<in> fst ` set (w_totals w)" "j \<in> fst ` set (w_totals w)" "w_idents w ! unat i = w_idents w ! unat j"
    moreover from calculation have "unat i < length (w_idents w)" "unat j < length (w_idents w)" using lt by auto
    ultimately show "i = j" using di by (simp add: nth_eq_iff_index_eq word_unat_eq_iff)
  qed
  then have "distinct (map (\<lambda>i. w_idents w ! unat i) (map fst (w_totals w)))"
    using ok unfolding totals_ok_def by (subst distinct_map) (simp del: map_map)
  moreover have "map m_identity (map (stat_of w st) (w_totals w)) = map (\<lambda>i. w_idents w ! unat i) (map fst (w_totals w))"
    by (auto simp: stat_of_def)
  ultimately have "distinct (map m_identity (map (stat_of w st) (w_totals w)))" by metis
  then show ?thesis by (rule that [OF st m])
qed


lemma sum_list_perm: "mset xs = mset ys \<Longrightarrow> (\<Sum>x\<leftarrow>xs. f x) = (\<Sum>y\<leftarrow>ys. f y :: nat)"
  by (metis mset_map sum_mset_sum_list)

lemma miners_exact:
  assumes inv: "window_inv w"
  shows "\<exists>v. miners w = Some v \<and> sorted (map rank_of v) \<and> distinct (map m_identity v) \<and>
    (\<Sum>m\<leftarrow>v. unat (m_work m)) = unat (w_total_work w) \<and>
    set (map m_identity v) = (\<lambda>c. w_idents w ! unat (cr_ident c)) ` set (w_credits w) \<and>
    (\<forall>m \<in> set v. m_stratum_work m \<le> m_work m \<and>
       (\<exists>i. identity_at w i = Some (m_identity m) \<and> unat (m_work m) = works (rows_of i (w_credits w)) \<and>
          unat (m_stratum_work m) = works (strat_rows i (w_credits w)) \<and>
          unat (m_credits m) = length (rows_of i (w_credits w))))"
proof -
  from miners_spec [OF inv] obtain st where
    st: "\<And>i. unat (held st i) = works (strat_rows i (w_credits w))" and
    m: "miners w = Some (sort_key rank_of (map (stat_of w st) (w_totals w)))" and
    d: "distinct (map m_identity (map (stat_of w st) (w_totals w)))" by blast
  let ?v = "sort_key rank_of (map (stat_of w st) (w_totals w))"
  have ok: "totals_ok (w_totals w) (w_credits w)" and
    ids: "\<forall>c \<in> set (w_credits w). unat (cr_ident c) < length (w_idents w)"
    using inv by (simp_all add: window_inv_def)
  have ms: "mset ?v = mset (map (stat_of w st) (w_totals w))" by simp
  have "mset (map m_identity ?v) = mset (map m_identity (map (stat_of w st) (w_totals w)))"
    unfolding mset_map ms ..
  then have dist: "distinct (map m_identity ?v)" using d by (metis mset_eq_imp_distinct_iff)
  have "(\<Sum>m\<leftarrow>?v. unat (m_work m)) = (\<Sum>m\<leftarrow>map (stat_of w st) (w_totals w). unat (m_work m))"
    by (rule sum_list_perm [OF ms])
  also have "\<dots> = (\<Sum>e\<leftarrow>w_totals w. unat (fst (snd e)))"
    unfolding list.map_comp by (intro arg_cong [where f = sum_list] map_cong) (auto simp: stat_of_def)
  finally have sum: "(\<Sum>m\<leftarrow>?v. unat (m_work m)) = unat (w_total_work w)"
    using totals_sum [OF ok] total_after [OF inv] by simp
  have names: "set (map m_identity ?v) = (\<lambda>c. w_idents w ! unat (cr_ident c)) ` set (w_credits w)"
  proof -
    have "set (map m_identity ?v) = (\<lambda>i. w_idents w ! unat i) ` fst ` set (w_totals w)"
      by (force simp: stat_of_def)
    then show ?thesis unfolding totals_keys [OF ok] by (simp add: image_image)
  qed
  have each: "m_stratum_work m \<le> m_work m \<and>
       (\<exists>i. identity_at w i = Some (m_identity m) \<and> unat (m_work m) = works (rows_of i (w_credits w)) \<and>
          unat (m_stratum_work m) = works (strat_rows i (w_credits w)) \<and>
          unat (m_credits m) = length (rows_of i (w_credits w)))" if mem: "m \<in> set ?v" for m
  proof -
    from mem obtain i wk n l where e: "(i, (wk, n, l)) \<in> set (w_totals w)" "m = stat_of w st (i, (wk, n, l))" by auto
    then have mo: "map_of (w_totals w) i = Some (wk, n, l)" using ok by (simp add: totals_ok_def)
    note t = totals_okD [OF ok mo]
    have "i \<in> cr_ident ` set (w_credits w)" using e(1) totals_keys [OF ok] by force
    then have lt: "unat i < length (w_idents w)" using ids by auto
    have "held st i \<le> wk" using st [of i] t(1) strat_rows_works [of i "w_credits w"] by (simp add: word_le_nat_alt)
    then show ?thesis using e(2) t st [of i] lt
      by (intro conjI exI [of _ i]) (simp_all add: stat_of_def identity_at_def)
  qed
  have "sorted (map rank_of ?v)" by (rule sorted_sort_key)
  with m dist sum names each show ?thesis by blast
qed

text \<open>
  The miners' view is complete, exact and ordered.  On a balanced window \<open>miners\<close> does not panic
  and returns exactly one line for each identity with work in the window, most work first and by
  name between equals.  Each line has the identity's exact work, its number of rows, and the part
  of its work that came over stratum (never more than the work itself), and the lines add up to the
  window's total.
\<close>

theorem miners_view:
  assumes inv: "window_inv w"
  shows "\<exists>v. miners w = Some v \<and> sorted (map rank_of v) \<and> distinct (map m_identity v) \<and>
    (\<Sum>m\<leftarrow>v. unat (m_work m)) = unat (w_total_work w) \<and>
    set (map m_identity v) = (\<lambda>c. w_idents w ! unat (cr_ident c)) ` set (w_credits w) \<and>
    (\<forall>m \<in> set v. m_stratum_work m \<le> m_work m \<and>
       (\<exists>i. identity_at w i = Some (m_identity m) \<and> unat (m_work m) = works (rows_of i (w_credits w)) \<and>
          unat (m_stratum_work m) = works (strat_rows i (w_credits w)) \<and>
          unat (m_credits m) = length (rows_of i (w_credits w))))"
  by (rule miners_exact [OF inv])

theorem miners_view_witness:
  "(\<exists>v. miners demo_window = Some v \<and> (\<Sum>m\<leftarrow>v. unat (m_work m)) = 9) \<and>
   map_option (map m_identity) (miners demo_window) = Some [''bob'', ''ann'']"
proof -
  have "\<exists>v. miners demo_window = Some v \<and> (\<Sum>m\<leftarrow>v. unat (m_work m)) = unat (w_total_work demo_window)"
    using miners_view [OF demo_window_inv(1)] by blast
  moreover have "map_option (map m_identity) (miners demo_window) = Some [''bob'', ''ann'']"
    by (simp add: miners_def demo_window_def SOURCE_DATUM_def SOURCE_STRATUM_def checked_add_def identity_at_def
        rank_of_def)
  ultimately show ?thesis by (simp add: demo_window_def)
qed

text \<open>
  The view does not depend on the order in which a hash map hands out the totals.  Two balanced
  windows that differ only in the order of their totals give the same list of miners.
\<close>

theorem miners_order_free:
  assumes inv: "window_inv w" and perm: "mset ts = mset (w_totals w)"
  shows "miners (w\<lparr>w_totals := ts\<rparr>) = miners w"
proof -
  from miners_spec [OF inv] obtain st where
    st: "stratum_of (w_credits w) Map.empty = Some st" and
    m: "miners w = Some (sort_key rank_of (map (stat_of w st) (w_totals w)))" and
    d: "distinct (map m_identity (map (stat_of w st) (w_totals w)))" by blast
  have ok: "totals_ok (w_totals w) (w_credits w)" and
    ids: "\<forall>c \<in> set (w_credits w). unat (cr_ident c) < length (w_idents w)"
    using inv by (simp_all add: window_inv_def)
  have "set ts = set (w_totals w)" using perm by (metis set_mset_mset)
  then have "\<forall>e \<in> set ts. unat (fst e) < length (w_idents (w\<lparr>w_totals := ts\<rparr>))"
    using totals_keys [OF ok] ids by (metis (no_types, lifting) imageE image_eqI window.select_convs(1) window.update_convs(4) window.surjective)
  moreover have "stat_of (w\<lparr>w_totals := ts\<rparr>) st = stat_of w st" by (simp add: stat_of_def)
  ultimately have "miners (w\<lparr>w_totals := ts\<rparr>) = Some (sort_key rank_of (map (stat_of w st) ts))"
    by (simp add: miners_def st miner_rows_spec)
  moreover have "sort_key rank_of (map (stat_of w st) ts) = sort_key rank_of (map (stat_of w st) (w_totals w))"
  proof (rule sort_key_inj_key_eq)
    show "mset (map (stat_of w st) ts) = mset (sort_key rank_of (map (stat_of w st) (w_totals w)))"
      by (simp add: perm)
    have "inj_on m_identity (set (map (stat_of w st) (w_totals w)))" using d by (simp only: distinct_map)
    then show "inj_on rank_of (set (map (stat_of w st) ts))"
      using \<open>set ts = set (w_totals w)\<close> by (auto simp: inj_on_def rank_of_def)
  qed simp
  ultimately show ?thesis using m by simp
qed

theorem miners_order_free_witness:
  "miners (demo_window\<lparr>w_totals := rev (w_totals demo_window)\<rparr>) = miners demo_window"
  by (rule miners_order_free [OF demo_window_inv(1)]) simp

end
