(* ===== verification/Splitter.thy ===== *)
theory Splitter
  imports Window "HOL-Library.Sublist"
begin

text \<open>
  Turning a window into coinbase outputs (\<open>tides/src/split.rs\<close>): the fees, the proportional split with
  its floors, minimums and budgets, the capped split that leaves the pool only its fee, and the
  payment of what earlier blocks owe.  \<open>None\<close> is a panic of the checked arithmetic; the script lookup
  is a parameter, and the carry map is the list of its entries in the order a \<open>BTreeMap\<close> iterates.
  Shown: no satoshi is created or lost, every amount is the stated fraction, the budgets hold, the
  pool never gets less than its fee, and the split never panics within stated bounds.
\<close>

section \<open>Parameters and results\<close>

record split_params =
  sp_fee_bps :: u32
  sp_stratum_fee_bps :: u32
  sp_min_payout :: u64
  sp_max_outputs :: nat
  sp_output_budget_bytes :: nat
  sp_max_payees :: nat
  sp_fee_overrides :: "string \<rightharpoonup> u32"

definition bps_for :: "split_params \<Rightarrow> string \<Rightarrow> u32 \<times> u32" where
  "bps_for p identity =
     (case sp_fee_overrides p identity of
        Some bps \<Rightarrow> (bps, bps)
      | None \<Rightarrow> (if sp_stratum_fee_bps p = 0 then sp_fee_bps p else sp_stratum_fee_bps p, sp_fee_bps p))"

definition split_params_default :: split_params where
  "split_params_default = \<lparr>sp_fee_bps = 0, sp_stratum_fee_bps = 0, sp_min_payout = 546, sp_max_outputs = 512,
     sp_output_budget_bytes = 14000, sp_max_payees = 0, sp_fee_overrides = Map.empty\<rparr>"

record payee =
  py_identity :: string
  py_work :: u64
  py_sats :: u64
  py_script :: bytes

datatype unpaid_reason = NoScript | BelowMinimum | OverBudget | BelowCut

record split =
  s_value :: u64
  s_fee_sats :: u64
  s_total_work :: u64
  s_payees :: "payee list"
  s_unpaid :: "(string \<times> u64 \<times> unpaid_reason) list"
  s_carry_paid :: "(string \<times> u64) list"
  s_pool_sats :: u64

definition paid_sats :: "split \<Rightarrow> u64 option" where
  "paid_sats s = checked_sum 0 (map py_sats (s_payees s))"

definition fee_for :: "u64 \<Rightarrow> u32 \<Rightarrow> u64" where
  "fee_for value_sats fee_bps = ucast ((ucast value_sats * ucast fee_bps :: u128) div 10000)"

section \<open>The proportional split\<close>

record split_acc =
  a_fee_sats :: u64
  a_payees :: "payee list"
  a_unpaid :: "(string \<times> u64 \<times> unpaid_reason) list"
  a_paid :: u64
  a_bytes :: nat
  a_fee_num :: u128

text \<open>\<open>u128::from(a) * u128::from(x) + u128::from(b) * u128::from(y)\<close>\<close>

definition weighted :: "u64 \<Rightarrow> u32 \<Rightarrow> u64 \<Rightarrow> u32 \<Rightarrow> u128 option" where
  "weighted a x b y = do {
     p \<leftarrow> checked_mul (ucast a) (ucast x);
     q \<leftarrow> checked_mul (ucast b) (ucast y);
     checked_add p q
   }"

text \<open>\<open>(u128::from(value) * num / u128::from(total_work) / 10_000) as u64\<close>\<close>

definition portion :: "u64 \<Rightarrow> u128 \<Rightarrow> u64 \<Rightarrow> u64 option" where
  "portion value_sats num total_work = do {
     n \<leftarrow> checked_mul (ucast value_sats) num;
     Some (ucast (n div ucast total_work div 10000))
   }"

definition split_miner ::
    "split_params \<Rightarrow> (string \<Rightarrow> bytes option) \<Rightarrow> u64 \<Rightarrow> u64 \<Rightarrow> miner_stat \<Rightarrow> split_acc \<Rightarrow> split_acc option" where
  "split_miner p script_for total_work value_sats m a = do {
     let sw = min (m_stratum_work m) (m_work m);
     let dw = m_work m - sw;
     let (sbps, dbps) = bps_for p (m_identity m);
     fee_part \<leftarrow> weighted sw sbps dw dbps;
     fee_num \<leftarrow> checked_add (a_fee_num a) fee_part;
     sk \<leftarrow> checked_sub 10000 sbps;
     dk \<leftarrow> checked_sub 10000 dbps;
     keep \<leftarrow> weighted sw sk dw dk;
     sats \<leftarrow> portion value_sats keep total_work;
     fee \<leftarrow> portion value_sats fee_part total_work;
     let a = a\<lparr>a_fee_num := fee_num, a_fee_sats := sat_add (a_fee_sats a) fee\<rparr>;
     if sats < sp_min_payout p
     then Some (a\<lparr>a_unpaid := a_unpaid a @ [(m_identity m, sats, BelowMinimum)]\<rparr>)
     else (case script_for (m_identity m) of
        None \<Rightarrow> Some (a\<lparr>a_unpaid := a_unpaid a @ [(m_identity m, sats, NoScript)]\<rparr>)
      | Some script \<Rightarrow>
          let need = 8 + 1 + length script in
          if length (a_payees a) \<ge> sp_max_outputs p \<or> a_bytes a + need > sp_output_budget_bytes p
          then Some (a\<lparr>a_unpaid := a_unpaid a @ [(m_identity m, sats, OverBudget)]\<rparr>)
          else do {
            paid \<leftarrow> checked_add (a_paid a) sats;
            Some (a\<lparr>a_bytes := a_bytes a + need, a_paid := paid,
              a_payees := a_payees a @ [\<lparr>py_identity = m_identity m, py_work = m_work m, py_sats = sats,
                py_script = script\<rparr>]\<rparr>)
          })
   }"

fun split_miners ::
    "split_params \<Rightarrow> (string \<Rightarrow> bytes option) \<Rightarrow> u64 \<Rightarrow> u64 \<Rightarrow> miner_stat list \<Rightarrow> split_acc \<Rightarrow> split_acc option" where
  "split_miners p script_for total_work value_sats [] a = Some a"
| "split_miners p script_for total_work value_sats (m # ms) a =
     Option.bind (split_miner p script_for total_work value_sats m a)
       (split_miners p script_for total_work value_sats ms)"

definition split_start :: split_acc where
  "split_start = \<lparr>a_fee_sats = 0, a_payees = [], a_unpaid = [], a_paid = 0, a_bytes = 0, a_fee_num = 0\<rparr>"

section \<open>The capped split\<close>

definition payee_rank :: "payee \<Rightarrow> rank" where
  "payee_rank q = Rank (py_work q) (py_identity q)"

text \<open>\<open>max_by_key(|q| q.sats)\<close>: the last of the largest.\<close>

fun last_max :: "payee list \<Rightarrow> nat option" where
  "last_max [] = None"
| "last_max (q # qs) =
     (case last_max qs of
        None \<Rightarrow> Some 0
      | Some k \<Rightarrow> if py_sats (qs ! k) \<ge> py_sats q then Some (Suc k) else Some 0)"

fun share_out :: "u64 \<Rightarrow> u128 \<Rightarrow> payee list \<Rightarrow> u64 \<Rightarrow> (payee list \<times> u64) option" where
  "share_out distributable kept_work [] dealt = Some ([], dealt)"
| "share_out distributable kept_work (q # qs) dealt = do {
     n \<leftarrow> checked_mul (ucast distributable) (ucast (py_work q));
     let sats = ucast (n div max kept_work 1);
     dealt \<leftarrow> checked_add dealt sats;
     (qs, dealt) \<leftarrow> share_out distributable kept_work qs dealt;
     Some (q\<lparr>py_sats := sats\<rparr> # qs, dealt)
   }"

definition capped_split :: "split_params \<Rightarrow> u64 \<Rightarrow> u64 \<Rightarrow> split_acc \<Rightarrow> split_acc option" where
  "capped_split p total_work value_sats a = do {
     fee_sats \<leftarrow> portion value_sats (a_fee_num a) (max total_work 1);
     let payees = sort_key payee_rank (a_payees a);
     let unpaid = a_unpaid a @ map (\<lambda>q. (py_identity q, py_sats q, BelowCut)) (drop (sp_max_payees p) payees);
     let payees = take (sp_max_payees p) payees;
     let distributable = sat_sub value_sats fee_sats;
     kept_work \<leftarrow> checked_sum 0 (map (\<lambda>q. ucast (py_work q) :: u128) payees);
     (payees, dealt) \<leftarrow> share_out distributable kept_work payees 0;
     payees \<leftarrow> (case last_max payees of
         None \<Rightarrow> Some payees
       | Some k \<Rightarrow> do {
           dust \<leftarrow> checked_sub distributable dealt;
           sats \<leftarrow> checked_add (py_sats (payees ! k)) dust;
           Some (payees[k := (payees ! k)\<lparr>py_sats := sats\<rparr>])
         });
     Some (a\<lparr>a_fee_sats := fee_sats, a_payees := payees, a_unpaid := unpaid, a_paid := distributable\<rparr>)
   }"

section \<open>Carry\<close>

record carry_acc =
  ca_payees :: "payee list"
  ca_bytes :: nat
  ca_paid :: u64
  ca_room :: u64
  ca_carry_paid :: "(string \<times> u64) list"

fun payee_index :: "string \<Rightarrow> payee list \<Rightarrow> nat option" where
  "payee_index identity [] = None"
| "payee_index identity (q # qs) =
     (if py_identity q = identity then Some 0 else map_option Suc (payee_index identity qs))"

definition spend_carry :: "string \<Rightarrow> u64 \<Rightarrow> carry_acc \<Rightarrow> carry_acc option" where
  "spend_carry identity give a = do {
     paid \<leftarrow> checked_add (ca_paid a) give;
     room \<leftarrow> checked_sub (ca_room a) give;
     Some (a\<lparr>ca_paid := paid, ca_room := room, ca_carry_paid := ca_carry_paid a @ [(identity, give)]\<rparr>)
   }"

fun pay_carry ::
    "split_params \<Rightarrow> (string \<Rightarrow> bytes option) \<Rightarrow> (string \<times> u64) list \<Rightarrow> carry_acc \<Rightarrow> carry_acc option" where
  "pay_carry p script_for [] a = Some a"
| "pay_carry p script_for ((identity, owed) # carry) a =
     (if ca_room a = 0 then Some a
      else if owed = 0 then pay_carry p script_for carry a
      else
        let give = min owed (ca_room a) in
        (case payee_index identity (ca_payees a) of
           Some k \<Rightarrow> do {
             sats \<leftarrow> checked_add (py_sats (ca_payees a ! k)) give;
             a \<leftarrow> spend_carry identity give
               (a\<lparr>ca_payees := (ca_payees a)[k := (ca_payees a ! k)\<lparr>py_sats := sats\<rparr>]\<rparr>);
             pay_carry p script_for carry a
           }
         | None \<Rightarrow>
             if give < sp_min_payout p then pay_carry p script_for carry a
             else (case script_for identity of
                None \<Rightarrow> pay_carry p script_for carry a
              | Some script \<Rightarrow>
                  let need = 8 + 1 + length script in
                  if length (ca_payees a) \<ge> sp_max_outputs p \<or> ca_bytes a + need > sp_output_budget_bytes p
                  then pay_carry p script_for carry a
                  else do {
                    a \<leftarrow> spend_carry identity give
                      (a\<lparr>ca_bytes := ca_bytes a + need,
                         ca_payees := ca_payees a @ [\<lparr>py_identity = identity, py_work = 0, py_sats = give,
                           py_script = script\<rparr>]\<rparr>);
                    pay_carry p script_for carry a
                  })))"

definition compute_with_carry ::
    "miner_stat list \<Rightarrow> u64 \<Rightarrow> u64 \<Rightarrow> split_params \<Rightarrow> (string \<times> u64) list \<Rightarrow> (string \<Rightarrow> bytes option) \<Rightarrow> split option" where
  "compute_with_carry stats total_work value_sats p carry script_for = do {
     a \<leftarrow> (if total_work > 0 then split_miners p script_for total_work value_sats stats split_start
          else Some split_start);
     a \<leftarrow> (if sp_max_payees p > 0 \<and> a_payees a \<noteq> [] then capped_split p total_work value_sats a else Some a);
     c \<leftarrow> pay_carry p script_for carry
           \<lparr>ca_payees = a_payees a, ca_bytes = a_bytes a, ca_paid = a_paid a,
            ca_room = sat_sub value_sats (a_paid a), ca_carry_paid = []\<rparr>;
     Some \<lparr>s_value = value_sats, s_fee_sats = a_fee_sats a, s_total_work = total_work,
           s_payees = ca_payees c, s_unpaid = a_unpaid a, s_carry_paid = ca_carry_paid c,
           s_pool_sats = sat_sub value_sats (ca_paid c)\<rparr>
   }"

definition compute ::
    "miner_stat list \<Rightarrow> u64 \<Rightarrow> u64 \<Rightarrow> split_params \<Rightarrow> (string \<Rightarrow> bytes option) \<Rightarrow> split option" where
  "compute stats total_work value_sats p script_for = compute_with_carry stats total_work value_sats p [] script_for"

text \<open>\<open>Window::split\<close> and \<open>Window::split_with_carry\<close>.\<close>

definition window_split :: "window \<Rightarrow> u64 \<Rightarrow> split_params \<Rightarrow> (string \<Rightarrow> bytes option) \<Rightarrow> split option" where
  "window_split w value_sats p script_for =
     do { ms \<leftarrow> miners w; compute ms (w_total_work w) value_sats p script_for }"

definition window_split_with_carry ::
    "window \<Rightarrow> u64 \<Rightarrow> split_params \<Rightarrow> (string \<times> u64) list \<Rightarrow> (string \<Rightarrow> bytes option) \<Rightarrow> split option" where
  "window_split_with_carry w value_sats p carry script_for =
     do { ms \<leftarrow> miners w; compute_with_carry ms (w_total_work w) value_sats p carry script_for }"



section \<open>The amounts in natural numbers\<close>

definition bps_ok :: "split_params \<Rightarrow> bool" where
  "bps_ok p \<longleftrightarrow> unat (sp_fee_bps p) \<le> 10000 \<and> unat (sp_stratum_fee_bps p) \<le> 10000 \<and>
     (\<forall>bps \<in> ran (sp_fee_overrides p). unat bps \<le> 10000)"

definition stratum_part :: "miner_stat \<Rightarrow> nat" where
  "stratum_part m = min (unat (m_stratum_work m)) (unat (m_work m))"

definition keep_of :: "split_params \<Rightarrow> miner_stat \<Rightarrow> nat" where
  "keep_of p m = stratum_part m * (10000 - unat (fst (bps_for p (m_identity m)))) +
     (unat (m_work m) - stratum_part m) * (10000 - unat (snd (bps_for p (m_identity m))))"

definition fee_of :: "split_params \<Rightarrow> miner_stat \<Rightarrow> nat" where
  "fee_of p m = stratum_part m * unat (fst (bps_for p (m_identity m))) +
     (unat (m_work m) - stratum_part m) * unat (snd (bps_for p (m_identity m)))"

definition due :: "split_params \<Rightarrow> nat \<Rightarrow> nat \<Rightarrow> miner_stat \<Rightarrow> nat" where
  "due p T V m = V * keep_of p m div T div 10000"

definition fee_due :: "split_params \<Rightarrow> nat \<Rightarrow> nat \<Rightarrow> miner_stat \<Rightarrow> nat" where
  "fee_due p T V m = V * fee_of p m div T div 10000"

definition stat_works :: "miner_stat list \<Rightarrow> nat" where
  "stat_works ms = (\<Sum>m\<leftarrow>ms. unat (m_work m))"

definition script_bytes :: "payee list \<Rightarrow> nat" where
  "script_bytes qs = (\<Sum>q\<leftarrow>qs. 8 + 1 + length (py_script q))"

definition sats_of :: "payee list \<Rightarrow> nat" where
  "sats_of qs = (\<Sum>q\<leftarrow>qs. unat (py_sats q))"

lemma sum_simps [simp]:
  "stat_works [] = 0" "stat_works (m # ms) = unat (m_work m) + stat_works ms" "stat_works (ms @ ns) = stat_works ms + stat_works ns"
  "script_bytes [] = 0" "script_bytes (q # qs) = 9 + length (py_script q) + script_bytes qs"
  "script_bytes (qs @ rs) = script_bytes qs + script_bytes rs"
  "sats_of [] = 0" "sats_of (q # qs) = unat (py_sats q) + sats_of qs" "sats_of (qs @ rs) = sats_of qs + sats_of rs"
  by (simp_all add: stat_works_def script_bytes_def sats_of_def)

definition payee_works :: "payee list \<Rightarrow> nat" where
  "payee_works qs = (\<Sum>q\<leftarrow>qs. unat (py_work q))"

lemma payee_works_simps [simp]:
  "payee_works [] = 0" "payee_works (q # qs) = unat (py_work q) + payee_works qs"
  "payee_works (qs @ rs) = payee_works qs + payee_works rs"
  by (simp_all add: payee_works_def)

lemma bps_for_ok:
  assumes "bps_ok p"
  shows "unat (fst (bps_for p s)) \<le> 10000" "unat (snd (bps_for p s)) \<le> 10000"
  using assms by (auto simp: bps_ok_def bps_for_def ranI split: option.split)

lemma stratum_part_le: "stratum_part m \<le> unat (m_work m)"
  by (simp add: stratum_part_def)

lemma keep_fee: "bps_ok p \<Longrightarrow> keep_of p m + fee_of p m = 10000 * unat (m_work m)"
proof -
  assume ok: "bps_ok p"
  have "a * (10000 - x) + b * (10000 - y) + (a * x + b * y) = 10000 * (a + b)"
    if "x \<le> 10000" "y \<le> 10000" for a b x y :: nat
  proof -
    have "a * (10000 - x) + a * x = 10000 * a" "b * (10000 - y) + b * y = 10000 * b"
      using that by (simp_all add: add_mult_distrib2 [symmetric])
    then show ?thesis by simp
  qed
  from this [OF bps_for_ok [OF ok, of "m_identity m"], of "stratum_part m" "unat (m_work m) - stratum_part m"]
  show ?thesis unfolding keep_of_def fee_of_def le_add_diff_inverse [OF stratum_part_le] .
qed

lemma weighted_ex: "\<exists>v. weighted a x b y = Some v \<and> unat v = unat a * unat x + unat b * unat y"
proof -
  have ab: "unat (ucast a :: u128) = unat a" "unat (ucast x :: u128) = unat x"
    "unat (ucast b :: u128) = unat b" "unat (ucast y :: u128) = unat y"
    by (simp_all add: unat_ucast_up)
  have lt: "unat c * unat z \<le> (2 ^ 64 - 1) * (2 ^ 32 - 1)" for c :: u64 and z :: u32
    using unat_lt [of c] unat_lt [of z] by (intro mult_le_mono) simp_all
  obtain q where q: "checked_mul (ucast a :: u128) (ucast x) = Some q" "unat q = unat a * unat x"
    using checked_ex(2) [of "ucast a :: u128" "ucast x"] lt [of a x] ab by auto
  obtain r where r: "checked_mul (ucast b :: u128) (ucast y) = Some r" "unat r = unat b * unat y"
    using checked_ex(2) [of "ucast b :: u128" "ucast y"] lt [of b y] ab by auto
  obtain v where "checked_add q r = Some v" "unat v = unat q + unat r"
    using checked_ex(1) [of q r] q r lt [of a x] lt [of b y] by auto
  then show ?thesis using q r by (simp add: weighted_def)
qed

lemma portion_ex:
  assumes "unat v * unat n < 2 ^ 128" and "unat v * unat n div unat t div 10000 < 2 ^ 64"
  shows "\<exists>s. portion v n t = Some s \<and> unat s = unat v * unat n div unat t div 10000"
proof -
  have v: "unat (ucast v :: u128) = unat v" "unat (ucast t :: u128) = unat t" by (simp_all add: unat_ucast_up)
  obtain q where q: "checked_mul (ucast v :: u128) n = Some q" "unat q = unat v * unat n"
    using checked_ex(2) [of "ucast v :: u128" n] assms(1) v by auto
  have "unat (q div ucast t div 10000) = unat v * unat n div unat t div 10000" by (simp add: unat_div q v)
  then have "unat (ucast (q div ucast t div 10000) :: u64) = unat v * unat n div unat t div 10000"
    using assms(2) by (subst unat_ucast_down) simp_all
  then show ?thesis using q by (simp add: portion_def)
qed


section \<open>The proportional split\<close>

definition acc_inv ::
    "split_params \<Rightarrow> (string \<Rightarrow> bytes option) \<Rightarrow> nat \<Rightarrow> nat \<Rightarrow> miner_stat list \<Rightarrow> split_acc \<Rightarrow> bool" where
  "acc_inv p script_for T V seen a \<longleftrightarrow>
     (unat (a_paid a) + unat (a_fee_sats a)) * T \<le> V * stat_works seen \<and>
     unat (a_fee_sats a) = (\<Sum>m\<leftarrow>seen. fee_due p T V m) \<and>
     unat (a_fee_num a) = (\<Sum>m\<leftarrow>seen. fee_of p m) \<and>
     unat (a_paid a) = sats_of (a_payees a) \<and> a_bytes a = script_bytes (a_payees a) \<and>
     length (a_payees a) \<le> sp_max_outputs p \<and> a_bytes a \<le> sp_output_budget_bytes p \<and>
     payee_works (a_payees a) \<le> stat_works seen \<and>
     (\<forall>q \<in> set (a_payees a). \<exists>m \<in> set seen. py_identity q = m_identity m \<and> py_work q = m_work m \<and>
        unat (py_sats q) = due p T V m \<and> sp_min_payout p \<le> py_sats q \<and>
        script_for (py_identity q) = Some (py_script q)) \<and>
     (\<forall>(s, n, r) \<in> set (a_unpaid a). \<exists>m \<in> set seen. s = m_identity m \<and> unat n = due p T V m \<and>
        (r = BelowMinimum \<and> n < sp_min_payout p \<or> r = NoScript \<and> sp_min_payout p \<le> n \<and> script_for s = None \<or>
         r = OverBudget \<and> sp_min_payout p \<le> n \<and> script_for s \<noteq> None)) \<and>
     mset (map py_identity (a_payees a)) + mset (map fst (a_unpaid a)) = mset (map m_identity seen)"

lemma acc_inv_start: "acc_inv p script_for T V [] split_start"
  by (simp add: acc_inv_def split_start_def)

lemma due_fee_bound:
  assumes "bps_ok p" and "0 < T"
  shows "(due p T V m + fee_due p T V m) * T \<le> V * unat (m_work m)"
proof -
  have d: "x div T div 10000 * (10000 * T) \<le> x" for x
    by (metis div_mult2_eq mult.commute div_times_less_eq_dividend)
  have "(due p T V m + fee_due p T V m) * (10000 * T) \<le> V * keep_of p m + V * fee_of p m"
    unfolding due_def fee_due_def add_mult_distrib by (rule add_mono [OF d d])
  also have "\<dots> = V * (10000 * unat (m_work m))"
    by (simp only: add_mult_distrib2 [symmetric] keep_fee [OF assms(1)])
  finally show ?thesis by simp
qed

lemma fees_bound: "bps_ok p \<Longrightarrow> (\<Sum>m\<leftarrow>ms. fee_of p m) \<le> 10000 * stat_works ms"
proof (induction ms)
  case (Cons m ms)
  then show ?case using keep_fee [of p m] by simp
qed simp

lemma split_miner_ok:
  assumes bps: "bps_ok p" and T: "0 < tw" and inv: "acc_inv p script_for (unat tw) (unat v) seen a"
    and tot: "stat_works (seen @ [m]) \<le> unat tw" and small: "unat v * (10000 * unat tw) < 2 ^ 128"
  shows "\<exists>a'. split_miner p script_for tw v m a = Some a' \<and>
    acc_inv p script_for (unat tw) (unat v) (seen @ [m]) a'"
proof -
  let ?T = "unat tw" and ?V = "unat v"
  have T': "0 < ?T" using T by (simp add: word_less_nat_alt)
  define sw where "sw = min (m_stratum_work m) (m_work m)"
  have sw: "unat sw = stratum_part m" by (auto simp: sw_def stratum_part_def min_def word_le_nat_alt)
  have dw: "unat (m_work m - sw) = unat (m_work m) - stratum_part m"
    using sw by (simp add: unat_sub sw_def word_le_nat_alt [symmetric])
  obtain sb db where b: "bps_for p (m_identity m) = (sb, db)" by fastforce
  have bb: "unat sb \<le> 10000" "unat db \<le> 10000" using bps_for_ok [OF bps, of "m_identity m"] b by simp_all
  obtain sk where sk: "checked_sub 10000 sb = Some sk" "unat sk = 10000 - unat sb" using checked_ex(3) [of sb 10000] bb by auto
  obtain dk where dk: "checked_sub 10000 db = Some dk" "unat dk = 10000 - unat db" using checked_ex(3) [of db 10000] bb by auto
  obtain fp where fp: "weighted sw sb (m_work m - sw) db = Some fp" "unat fp = fee_of p m"
    using weighted_ex [of sw sb "m_work m - sw" db] by (auto simp: fee_of_def b sw dw)
  obtain kp where kp: "weighted sw sk (m_work m - sw) dk = Some kp" "unat kp = keep_of p m"
    using weighted_ex [of sw sk "m_work m - sw" dk] by (auto simp: keep_of_def b sw dw sk dk)
  have "(\<Sum>m\<leftarrow>seen @ [m]. fee_of p m) < 2 ^ 128"
    using fees_bound [OF bps, of "seen @ [m]"] tot unat_lt [of tw] by simp
  then obtain fn where fn: "checked_add (a_fee_num a) fp = Some fn" "unat fn = (\<Sum>m\<leftarrow>seen @ [m]. fee_of p m)"
    using checked_ex(1) [of "a_fee_num a" fp] inv fp(2) by (auto simp: acc_inv_def)
  have kf: "keep_of p m \<le> 10000 * ?T" "fee_of p m \<le> 10000 * ?T"
    using keep_fee [OF bps, of m] tot by simp_all
  have bound: "(unat (a_paid a) + unat (a_fee_sats a) + (due p ?T ?V m + fee_due p ?T ?V m)) * ?T \<le> ?V * stat_works (seen @ [m])"
  proof -
    from add_mono [OF conjunct1 [OF inv [unfolded acc_inv_def]] due_fee_bound [OF bps T', of ?V m]] show ?thesis
      by (simp add: add_mult_distrib add_mult_distrib2)
  qed
  also have "\<dots> \<le> ?V * ?T" using tot by (rule mult_le_mono2)
  finally have le: "unat (a_paid a) + unat (a_fee_sats a) + (due p ?T ?V m + fee_due p ?T ?V m) \<le> ?V"
    using T' by simp
  have V: "?V < 2 ^ 64" using unat_lt [of v] by simp
  have prod: "?V * keep_of p m < 2 ^ 128" "?V * fee_of p m < 2 ^ 128"
    using small mult_le_mono2 [OF kf(1), of ?V] mult_le_mono2 [OF kf(2), of ?V] by linarith+
  obtain s where s: "portion v kp tw = Some s" "unat s = due p ?T ?V m"
    using portion_ex [of v kp tw] kp(2) prod le V by (auto simp: due_def)
  obtain f where f: "portion v fp tw = Some f" "unat f = fee_due p ?T ?V m"
    using portion_ex [of v fp tw] fp(2) prod le V by (auto simp: fee_due_def)
  have fs: "unat (sat_add (a_fee_sats a) f) = (\<Sum>m\<leftarrow>seen @ [m]. fee_due p ?T ?V m)"
    using inv f(2) le V by (simp add: unat_sat_add acc_inv_def)
  define a1 where "a1 = a\<lparr>a_fee_num := fn, a_fee_sats := sat_add (a_fee_sats a) f\<rparr>"
  have fee1: "unat (a_fee_sats a1) = unat (a_fee_sats a) + fee_due p ?T ?V m"
    using fs inv by (simp add: a1_def acc_inv_def)
  have more: "(unat (a_paid a) + due p ?T ?V m + unat (a_fee_sats a1)) * ?T \<le> ?V * stat_works (seen @ [m])"
    using bound by (simp add: fee1 algebra_simps)
  then have less: "(unat (a_paid a) + unat (a_fee_sats a1)) * ?T \<le> ?V * stat_works (seen @ [m])"
    by (rule order_trans [rotated]) (simp add: algebra_simps)
  have eq: "split_miner p script_for tw v m a =
     (if s < sp_min_payout p then Some (a1\<lparr>a_unpaid := a_unpaid a @ [(m_identity m, s, BelowMinimum)]\<rparr>)
      else case script_for (m_identity m) of
        None \<Rightarrow> Some (a1\<lparr>a_unpaid := a_unpaid a @ [(m_identity m, s, NoScript)]\<rparr>)
      | Some sc \<Rightarrow>
          if length (a_payees a) \<ge> sp_max_outputs p \<or> a_bytes a + (8 + 1 + length sc) > sp_output_budget_bytes p
          then Some (a1\<lparr>a_unpaid := a_unpaid a @ [(m_identity m, s, OverBudget)]\<rparr>)
          else Option.bind (checked_add (a_paid a) s) (\<lambda>paid. Some (a1\<lparr>a_bytes := a_bytes a + (8 + 1 + length sc),
            a_paid := paid, a_payees := a_payees a @ [\<lparr>py_identity = m_identity m, py_work = m_work m, py_sats = s,
                py_script = sc\<rparr>]\<rparr>)))"
    by (simp add: split_miner_def Let_def sw_def [symmetric] b sk(1) dk(1) fp(1) kp(1) fn(1) s(1) f(1) a1_def split: option.split)
  note now = inv [unfolded acc_inv_def] less fs fn(2) s(2)
  consider (min) "s < sp_min_payout p" | (none) "sp_min_payout p \<le> s" "script_for (m_identity m) = None"
    | (over) sc where "sp_min_payout p \<le> s" "script_for (m_identity m) = Some sc"
        "length (a_payees a) \<ge> sp_max_outputs p \<or> a_bytes a + (8 + 1 + length sc) > sp_output_budget_bytes p"
    | (pay) sc where "sp_min_payout p \<le> s" "script_for (m_identity m) = Some sc"
        "length (a_payees a) < sp_max_outputs p" "a_bytes a + (8 + 1 + length sc) \<le> sp_output_budget_bytes p"
    by (cases "s < sp_min_payout p"; cases "script_for (m_identity m)"; force simp: not_less not_le)
  then show ?thesis
  proof cases
    case min
    then show ?thesis using now by (auto simp: eq acc_inv_def a1_def)
  next
    case none
    then show ?thesis using now by (auto simp: eq acc_inv_def a1_def)
  next
    case (over sc)
    then show ?thesis using now by (auto simp: eq acc_inv_def a1_def)
  next
    case (pay sc)
    obtain pd where pd: "checked_add (a_paid a) s = Some pd" "unat pd = unat (a_paid a) + due p ?T ?V m"
      using checked_ex(1) [of "a_paid a" s] s(2) le V by auto
    let ?a = "a1\<lparr>a_bytes := a_bytes a + (8 + 1 + length sc), a_paid := pd,
        a_payees := a_payees a @ [\<lparr>py_identity = m_identity m, py_work = m_work m, py_sats = s, py_script = sc\<rparr>]\<rparr>"
    have "split_miner p script_for tw v m a = Some ?a" using pay pd(1) by (simp add: eq)
    moreover have "acc_inv p script_for ?T ?V (seen @ [m]) ?a"
      using pay now pd(2) more by (auto simp: acc_inv_def a1_def)
    ultimately show ?thesis by blast
  qed
qed


lemma split_miners_ok:
  assumes "bps_ok p" and "0 < tw" and "unat v * (10000 * unat tw) < 2 ^ 128"
    and "acc_inv p script_for (unat tw) (unat v) seen a" and "stat_works (seen @ ms) \<le> unat tw"
  shows "\<exists>a'. split_miners p script_for tw v ms a = Some a' \<and>
    acc_inv p script_for (unat tw) (unat v) (seen @ ms) a'"
  using assms(4,5)
proof (induction ms arbitrary: seen a)
  case (Cons m ms)
  obtain a1 where "split_miner p script_for tw v m a = Some a1" "acc_inv p script_for (unat tw) (unat v) (seen @ [m]) a1"
    using split_miner_ok [OF assms(1,2) Cons.prems(1) _ assms(3), of m] Cons.prems(2) by auto
  then show ?case using Cons.IH [of "seen @ [m]" a1] Cons.prems(2) by auto
qed simp

section \<open>The capped split\<close>

lemma last_max_Some: "last_max qs = Some k \<Longrightarrow> k < length qs"
  by (induction qs arbitrary: k) (auto split: option.splits if_splits)

lemma last_max_None: "last_max qs = None \<longleftrightarrow> qs = []"
  by (cases qs) (auto split: option.splits)

lemma sats_of_update:
  "k < length qs \<Longrightarrow> sats_of (qs[k := q]) + unat (py_sats (qs ! k)) = sats_of qs + unat (py_sats q)"
proof (induction qs arbitrary: k)
  case (Cons x qs)
  show ?case
  proof (cases k)
    case (Suc j)
    then show ?thesis using Cons.IH [of j] Cons.prems by simp
  qed simp
qed simp

definition proportional :: "nat \<Rightarrow> nat \<Rightarrow> payee \<Rightarrow> payee \<Rightarrow> bool" where
  "proportional D W q q' \<longleftrightarrow> py_identity q' = py_identity q \<and> py_work q' = py_work q \<and> py_script q' = py_script q \<and>
     unat (py_sats q') = D * unat (py_work q) div W"

lemma proportional_update [simp]:
  "proportional D W q (q\<lparr>py_sats := x\<rparr>) \<longleftrightarrow> unat x = D * unat (py_work q) div W"
  by (simp add: proportional_def)

lemma share_out_ok:
  fixes kw :: u128
  defines "K \<equiv> unat (max kw 1)"
  assumes "unat dealt * K + unat d * payee_works qs \<le> unat d * K"
  shows "\<exists>qs' t. share_out d kw qs dealt = Some (qs', t) \<and>
    list_all2 (proportional (unat d) K) qs qs' \<and> unat t = unat dealt + sats_of qs' \<and> unat t \<le> unat d"
  using assms(2)
proof (induction qs arbitrary: dealt)
  case Nil
  have "0 < K" by (auto simp: K_def max_def word_le_nat_alt)
  then show ?case using Nil by simp
next
  case (Cons q qs)
  have K: "0 < K" by (auto simp: K_def max_def word_le_nat_alt)
  have u: "unat (ucast d :: u128) = unat d" "unat (ucast (py_work q) :: u128) = unat (py_work q)"
    by (simp_all add: unat_ucast_up)
  have "unat d * unat (py_work q) \<le> (2 ^ 64 - 1) * (2 ^ 64 - 1)"
    using unat_lt [of d] unat_lt [of "py_work q"] by (intro mult_le_mono) simp_all
  then obtain n where n: "checked_mul (ucast d :: u128) (ucast (py_work q)) = Some n" "unat n = unat d * unat (py_work q)"
    using checked_ex(2) [of "ucast d :: u128" "ucast (py_work q)"] u by auto
  define s where "s = unat d * unat (py_work q) div K"
  have sW: "s * K \<le> unat d * unat (py_work q)" by (simp add: s_def div_times_less_eq_dividend)
  have step: "(unat dealt + s) * K + unat d * payee_works qs \<le> unat d * K"
    using Cons.prems sW by (simp add: algebra_simps)
  then have "(unat dealt + s) * K \<le> unat d * K" by linarith
  then have le: "unat dealt + s \<le> unat d" using K by simp
  have sat: "unat (ucast (n div max kw 1) :: u64) = s"
    using le unat_lt [of d] n by (subst unat_ucast_down) (simp_all add: unat_div s_def K_def)
  obtain dl where dl: "checked_add dealt (ucast (n div max kw 1) :: u64) = Some dl" "unat dl = unat dealt + s"
    using checked_ex(1) [of dealt "ucast (n div max kw 1) :: u64"] le unat_lt [of d] sat by auto
  obtain qs' t where "share_out d kw qs dl = Some (qs', t)" "list_all2 (proportional (unat d) K) qs qs'"
      "unat t = unat dl + sats_of qs'" "unat t \<le> unat d"
    using Cons.IH [of dl] step dl(2) by auto
  then show ?case using n dl sat by (simp add: s_def)
qed

lemma proportional_all:
  assumes "list_all2 (proportional D W) qs qs'"
  shows "map py_identity qs' = map py_identity qs" "map py_work qs' = map py_work qs"
    "map py_script qs' = map py_script qs" "script_bytes qs' = script_bytes qs"
  using assms by (induction rule: list_all2_induct) (simp_all add: proportional_def)

definition cap_at :: "nat \<Rightarrow> split_acc \<Rightarrow> payee list" where
  "cap_at k a = take k (sort_key payee_rank (a_payees a))"

text \<open>What the capped split leaves: the largest payees share all but the fee, one of them the dust.\<close>

definition capped_result :: "split_params \<Rightarrow> nat \<Rightarrow> nat \<Rightarrow> split_acc \<Rightarrow> split_acc \<Rightarrow> bool" where
  "capped_result p T V a b \<longleftrightarrow>
     unat (a_fee_sats b) = V * unat (a_fee_num a) div T div 10000 \<and>
     unat (a_paid b) = V - unat (a_fee_sats b) \<and> sats_of (a_payees b) = unat (a_paid b) \<and>
     map py_identity (a_payees b) = map py_identity (cap_at (sp_max_payees p) a) \<and>
     map py_work (a_payees b) = map py_work (cap_at (sp_max_payees p) a) \<and>
     map py_script (a_payees b) = map py_script (cap_at (sp_max_payees p) a) \<and>
     (\<exists>k < length (a_payees b). \<forall>i < length (a_payees b). i \<noteq> k \<longrightarrow>
        unat (py_sats (a_payees b ! i)) =
          unat (a_paid b) * unat (py_work (a_payees b ! i)) div max (payee_works (a_payees b)) 1) \<and>
     a_unpaid b = a_unpaid a @
       map (\<lambda>q. (py_identity q, py_sats q, BelowCut)) (drop (sp_max_payees p) (sort_key payee_rank (a_payees a))) \<and>
     a_bytes b = a_bytes a"

lemma payee_works_perm: "mset xs = mset ys \<Longrightarrow> payee_works xs = payee_works ys"
  unfolding payee_works_def by (rule sum_list_perm)

lemma capped_split_ok:
  assumes tw: "0 < tw" and small: "unat v * unat (a_fee_num a) < 2 ^ 128"
    and fee: "unat v * unat (a_fee_num a) div unat tw div 10000 \<le> unat v"
    and works: "payee_works (a_payees a) < 2 ^ 64" "cap_at (sp_max_payees p) a \<noteq> []"
  shows "\<exists>b. capped_split p tw v a = Some b \<and> capped_result p (unat tw) (unat v) a b"
proof -
  have T: "max tw 1 = tw" using tw by (auto simp: max_def word_le_nat_alt word_less_nat_alt word_unat_eq_iff)
  obtain f where f: "portion v (a_fee_num a) tw = Some f" "unat f = unat v * unat (a_fee_num a) div unat tw div 10000"
    using portion_ex [OF small, of tw] fee unat_lt [of v] by auto
  let ?qs = "cap_at (sp_max_payees p) a"
  define d where "d = sat_sub v f"
  have d: "unat d = unat v - unat f" by (simp add: d_def unat_sat_sub)
  have "payee_works ?qs \<le> payee_works (sort_key payee_rank (a_payees a))"
    unfolding cap_at_def by (metis append_take_drop_id le_add1 payee_works_simps(3))
  also have "\<dots> = payee_works (a_payees a)" by (rule payee_works_perm) simp
  finally have wl: "payee_works ?qs < 2 ^ 64" using works(1) by simp
  have ws: "sum_list (map unat (map (\<lambda>q. ucast (py_work q) :: u128) ?qs)) = payee_works ?qs"
    by (simp add: payee_works_def o_def unat_ucast_up)
  obtain kw :: u128 where kw: "checked_sum 0 (map (\<lambda>q. ucast (py_work q) :: u128) ?qs) = Some kw" "unat kw = payee_works ?qs"
  proof -
    have "unat (of_nat (payee_works ?qs) :: u128) = payee_works ?qs" using wl by (intro unat_of_nat_lt) simp
    then show ?thesis using that [of "of_nat (payee_works ?qs)"] ws by (simp add: checked_sum_Some)
  qed
  obtain qs' t where sh: "share_out d kw ?qs 0 = Some (qs', t)" "list_all2 (proportional (unat d) (unat (max kw 1))) ?qs qs'"
      "unat t = sats_of qs'" "unat t \<le> unat d"
  proof -
    have "payee_works ?qs \<le> unat (max kw 1)" using kw(2) by (simp add: max_def word_le_nat_alt)
    then have "unat (0 :: u64) * unat (max kw 1) + unat d * payee_works ?qs \<le> unat d * unat (max kw 1)" by simp
    from share_out_ok [OF this] show ?thesis using that by auto
  qed
  have len: "length qs' = length ?qs" using sh(2) by (simp add: list_all2_lengthD)
  obtain k where k: "last_max qs' = Some k" "k < length qs'"
    using last_max_None [of qs'] last_max_Some [of qs'] len works(2) by (cases "last_max qs'") auto
  obtain du where du: "checked_sub d t = Some du" "unat du = unat d - unat t" using checked_ex(3) [OF sh(4)] by auto
  have top: "unat (py_sats (qs' ! k)) \<le> sats_of qs'"
    using sats_of_update [OF k(2), of "(qs' ! k)\<lparr>py_sats := 0\<rparr>"] by simp
  obtain s where s: "checked_add (py_sats (qs' ! k)) du = Some s" "unat s = unat (py_sats (qs' ! k)) + unat du"
  proof -
    have "unat (py_sats (qs' ! k)) + unat du < 2 ^ LENGTH(64)" using top du(2) sh(3,4) unat_lt [of d] by linarith
    from checked_ex(1) [OF this] show ?thesis using that by blast
  qed
  define b where "b = a\<lparr>a_fee_sats := f, a_payees := qs'[k := (qs' ! k)\<lparr>py_sats := s\<rparr>],
    a_unpaid := a_unpaid a @ map (\<lambda>q. (py_identity q, py_sats q, BelowCut)) (drop (sp_max_payees p) (sort_key payee_rank (a_payees a))),
    a_paid := d\<rparr>"
  have eq: "capped_split p tw v a = Some b"
    by (simp add: capped_split_def T f(1) d_def [symmetric] cap_at_def [symmetric] kw(1) sh(1) k(1) du(1) s(1) b_def Let_def)
  have same: "map g (qs'[k := (qs' ! k)\<lparr>py_sats := s\<rparr>]) = map g qs'" if "\<And>q x. g (q\<lparr>py_sats := x\<rparr>) = g q" for g :: "payee \<Rightarrow> 'z"
    using k(2) that by (simp add: map_update) (metis list_update_id nth_map)
  have sums: "sats_of (qs'[k := (qs' ! k)\<lparr>py_sats := s\<rparr>]) = unat d"
    using sats_of_update [OF k(2), of "(qs' ! k)\<lparr>py_sats := s\<rparr>"] s(2) du(2) sh(3,4) by simp
  have pw: "payee_works (qs'[k := (qs' ! k)\<lparr>py_sats := s\<rparr>]) = unat kw"
    using arg_cong [OF trans [OF same [of py_work] proportional_all(2) [OF sh(2)]], of "\<lambda>ws. sum_list (map unat ws)"] kw(2)
    by (simp add: payee_works_def o_def)
  have others: "unat (py_sats (qs' ! i)) = unat d * unat (py_work (qs' ! i)) div max (unat kw) 1" if "i < length qs'" for i
    using list_all2_nthD2 [OF sh(2) that] by (auto simp: proportional_def max_def word_le_nat_alt)
  have maps: "map py_identity (qs'[k := (qs' ! k)\<lparr>py_sats := s\<rparr>]) = map py_identity ?qs"
      "map py_work (qs'[k := (qs' ! k)\<lparr>py_sats := s\<rparr>]) = map py_work ?qs"
      "map py_script (qs'[k := (qs' ! k)\<lparr>py_sats := s\<rparr>]) = map py_script ?qs"
    unfolding proportional_all(1-3) [OF sh(2), symmetric] by (rule same, simp)+
  have "capped_result p (unat tw) (unat v) a b"
    unfolding capped_result_def b_def using f(2) d sums pw others k(2) maps
    by (auto intro!: exI [of _ k])
  then show ?thesis using eq by blast
qed


section \<open>Carry\<close>

definition received :: "string \<Rightarrow> payee list \<Rightarrow> nat" where
  "received s qs = sats_of (filter (\<lambda>q. py_identity q = s) qs)"

definition carried_to :: "string \<Rightarrow> (string \<times> u64) list \<Rightarrow> nat" where
  "carried_to s cs = (\<Sum>c\<leftarrow>filter (\<lambda>c. fst c = s) cs. unat (snd c))"

definition carry_sum :: "(string \<times> u64) list \<Rightarrow> nat" where
  "carry_sum cs = (\<Sum>c\<leftarrow>cs. unat (snd c))"

lemma carry_simps [simp]:
  "received s [] = 0" "received s (q # qs) = (if py_identity q = s then unat (py_sats q) else 0) + received s qs"
  "received s (qs @ rs) = received s qs + received s rs"
  "carried_to s [] = 0" "carried_to s (c # cs) = (if fst c = s then unat (snd c) else 0) + carried_to s cs"
  "carry_sum [] = 0" "carry_sum (c # cs) = unat (snd c) + carry_sum cs"
  by (simp_all add: received_def carried_to_def carry_sum_def)

lemma payee_index_Some:
  "payee_index s qs = Some k \<Longrightarrow> k < length qs \<and> py_identity (qs ! k) = s"
  by (induction qs arbitrary: k) (auto split: if_splits)

lemma payee_index_None: "payee_index s qs = None \<longleftrightarrow> s \<notin> py_identity ` set qs"
  by (induction qs) auto

lemma received_update:
  "k < length qs \<Longrightarrow> received s (qs[k := (qs ! k)\<lparr>py_sats := x\<rparr>]) + (if py_identity (qs ! k) = s then unat (py_sats (qs ! k)) else 0) =
     received s qs + (if py_identity (qs ! k) = s then unat x else 0)"
proof (induction qs arbitrary: k)
  case (Cons y qs)
  show ?case
  proof (cases k)
    case (Suc j)
    then show ?thesis using Cons.IH [of j] Cons.prems by (auto split: if_splits)
  qed simp
qed simp

definition carry_inv :: "split_params \<Rightarrow> nat \<Rightarrow> carry_acc \<Rightarrow> bool" where
  "carry_inv p V a \<longleftrightarrow> sats_of (ca_payees a) = unat (ca_paid a) \<and> unat (ca_paid a) + unat (ca_room a) = V \<and>
     length (ca_payees a) \<le> sp_max_outputs p \<and> script_bytes (ca_payees a) \<le> ca_bytes a \<and>
     ca_bytes a \<le> sp_output_budget_bytes p"

text \<open>A debt is left for a later block only when the block has no room, no script or no output for it.\<close>

definition left_for_later :: "split_params \<Rightarrow> (string \<Rightarrow> bytes option) \<Rightarrow> carry_acc \<Rightarrow> string \<times> u64 \<Rightarrow> bool" where
  "left_for_later p script_for c e \<longleftrightarrow> snd e = 0 \<or> ca_room c = 0 \<or> snd e < sp_min_payout p \<or>
     ca_room c < sp_min_payout p \<or>
     (case script_for (fst e) of None \<Rightarrow> True
      | Some sc \<Rightarrow> length (ca_payees c) \<ge> sp_max_outputs p \<or> ca_bytes c + (8 + 1 + length sc) > sp_output_budget_bytes p)"

definition carry_post ::
    "split_params \<Rightarrow> (string \<Rightarrow> bytes option) \<Rightarrow> (string \<times> u64) list \<Rightarrow> carry_acc \<Rightarrow> carry_acc \<Rightarrow> (string \<times> u64) list \<Rightarrow> bool" where
  "carry_post p script_for carry a c new \<longleftrightarrow>
     ca_carry_paid c = ca_carry_paid a @ new \<and> subseq (map fst new) (map fst carry) \<and>
     unat (ca_paid c) = unat (ca_paid a) + carry_sum new \<and>
     ca_bytes c + script_bytes (ca_payees a) = ca_bytes a + script_bytes (ca_payees c) \<and>
     ca_room c \<le> ca_room a \<and> length (ca_payees a) \<le> length (ca_payees c) \<and> ca_bytes a \<le> ca_bytes c \<and>
     (\<forall>e \<in> set new. 0 < snd e \<and> (\<exists>owed. (fst e, owed) \<in> set carry \<and> snd e \<le> owed)) \<and>
     (\<forall>s. received s (ca_payees c) = received s (ca_payees a) + carried_to s new) \<and>
     (\<forall>q \<in> set (ca_payees c). (\<exists>q' \<in> set (ca_payees a). py_identity q = py_identity q' \<and> py_work q = py_work q' \<and>
          py_script q = py_script q' \<and> py_sats q' \<le> py_sats q) \<or>
        script_for (py_identity q) = Some (py_script q) \<and> py_work q = 0 \<and> sp_min_payout p \<le> py_sats q) \<and>
     (\<forall>e \<in> set carry. e \<in> set new \<or> left_for_later p script_for c e)"

lemma carry_post_skip:
  assumes "carry_post p script_for carry a c new"
    and "e \<in> set new \<or> left_for_later p script_for c e"
  shows "carry_post p script_for (e # carry) a c new"
  using assms unfolding carry_post_def by (auto intro: subseq_Cons')

lemma spend_carry_ok:
  assumes "unat (ca_paid a) + unat (ca_room a) < 2 ^ 64" and "give \<le> ca_room a"
  shows "\<exists>b. spend_carry s give a = Some b \<and> ca_payees b = ca_payees a \<and> ca_bytes b = ca_bytes a \<and>
    unat (ca_paid b) = unat (ca_paid a) + unat give \<and> unat (ca_room b) = unat (ca_room a) - unat give \<and>
    ca_carry_paid b = ca_carry_paid a @ [(s, give)]"
proof -
  have le: "unat give \<le> unat (ca_room a)" using assms(2) by (simp add: word_le_nat_alt)
  obtain x where "checked_add (ca_paid a) give = Some x" "unat x = unat (ca_paid a) + unat give"
    using checked_ex(1) [of "ca_paid a" give] le assms(1) by auto
  moreover obtain y where "checked_sub (ca_room a) give = Some y" "unat y = unat (ca_room a) - unat give"
    using checked_ex(3) [OF le] by blast
  ultimately show ?thesis by (simp add: spend_carry_def)
qed

lemma sats_of_nth: "k < length qs \<Longrightarrow> unat (py_sats (qs ! k)) \<le> sats_of qs"
  using sats_of_update [of k qs "(qs ! k)\<lparr>py_sats := 0\<rparr>"] by simp

lemma script_bytes_update:
  "k < length qs \<Longrightarrow> script_bytes (qs[k := (qs ! k)\<lparr>py_sats := x\<rparr>]) = script_bytes qs"
proof (induction qs arbitrary: k)
  case (Cons y qs)
  then show ?case by (cases k) simp_all
qed simp

lemma carry_post_pay:
  assumes post: "carry_post p script_for carry b c new" and give: "0 < give" "give \<le> owed"
    and b: "ca_carry_paid b = ca_carry_paid a @ [(s, give)]" "unat (ca_paid b) = unat (ca_paid a) + unat give"
      "unat (ca_room b) = unat (ca_room a) - unat give" "give = min owed (ca_room a)"
      "length (ca_payees a) \<le> length (ca_payees b)" "ca_bytes a \<le> ca_bytes b"
      "ca_bytes b + script_bytes (ca_payees a) = ca_bytes a + script_bytes (ca_payees b)"
      "\<And>t. received t (ca_payees b) = received t (ca_payees a) + (if t = s then unat give else 0)"
      "\<And>q. q \<in> set (ca_payees b) \<Longrightarrow> (\<exists>q' \<in> set (ca_payees a). py_identity q = py_identity q' \<and> py_work q = py_work q' \<and>
          py_script q = py_script q' \<and> py_sats q' \<le> py_sats q) \<or>
        script_for (py_identity q) = Some (py_script q) \<and> py_work q = 0 \<and> sp_min_payout p \<le> py_sats q"
  shows "carry_post p script_for ((s, owed) # carry) a c ((s, give) # new)"
proof -
  note ps = post [unfolded carry_post_def]
  have room: "ca_room c \<le> ca_room b" "ca_room b \<le> ca_room a" using ps b(3) by (simp_all add: word_le_nat_alt)
  have last: "(s, owed) \<in> set ((s, give) # new) \<or> left_for_later p script_for c (s, owed)"
  proof (cases "give = owed")
    case False
    then have "unat (ca_room b) = 0" using b(3,4) by (simp add: min_def split: if_splits)
    then have "ca_room c = 0" using room(1) by (simp add: word_le_nat_alt word_unat_eq_iff)
    then show ?thesis by (simp add: left_for_later_def)
  qed simp
  have payees: "(\<exists>q' \<in> set (ca_payees a). py_identity q = py_identity q' \<and> py_work q = py_work q' \<and>
          py_script q = py_script q' \<and> py_sats q' \<le> py_sats q) \<or>
        script_for (py_identity q) = Some (py_script q) \<and> py_work q = 0 \<and> sp_min_payout p \<le> py_sats q"
    if "q \<in> set (ca_payees c)" for q
  proof -
    from ps that consider q' where "q' \<in> set (ca_payees b)" "py_identity q = py_identity q'" "py_work q = py_work q'"
        "py_script q = py_script q'" "py_sats q' \<le> py_sats q"
      | "script_for (py_identity q) = Some (py_script q) \<and> py_work q = 0 \<and> sp_min_payout p \<le> py_sats q" by blast
    then show ?thesis
    proof cases
      case (1 q')
      from b(9) [OF 1(1)] show ?thesis
      proof (elim disjE bexE conjE)
        fix r
        assume r: "r \<in> set (ca_payees a)" "py_identity q' = py_identity r" "py_work q' = py_work r"
          "py_script q' = py_script r" "py_sats r \<le> py_sats q'"
        then show ?thesis using 1(2-4) order_trans [OF r(5) 1(5)] by auto
      next
        assume r: "script_for (py_identity q') = Some (py_script q')" "py_work q' = 0" "sp_min_payout p \<le> py_sats q'"
        then show ?thesis using 1(2-4) order_trans [OF r(3) 1(5)] by auto
      qed
    qed simp
  qed
  have 1: "ca_carry_paid c = ca_carry_paid a @ ((s, give) # new)"
    "subseq (map fst ((s, give) # new)) (map fst ((s, owed) # carry))"
    "unat (ca_paid c) = unat (ca_paid a) + carry_sum ((s, give) # new)"
    using conjunct1 [OF ps] conjunct1 [OF conjunct2 [OF ps]] conjunct1 [OF conjunct2 [OF conjunct2 [OF ps]]] b(1,2)
    by simp_all
  have 2: "ca_room c \<le> ca_room a" "length (ca_payees a) \<le> length (ca_payees c)" "ca_bytes a \<le> ca_bytes c"
    using ps [THEN conjunct2, THEN conjunct2, THEN conjunct2, THEN conjunct2, THEN conjunct2, THEN conjunct1]
      ps [THEN conjunct2, THEN conjunct2, THEN conjunct2, THEN conjunct2, THEN conjunct2, THEN conjunct2, THEN conjunct1]
      b(5,6) room
    by (metis order_trans)+
  have bytes: "ca_bytes c + script_bytes (ca_payees a) = ca_bytes a + script_bytes (ca_payees c)"
    using ps [THEN conjunct2, THEN conjunct2, THEN conjunct2, THEN conjunct1] b(7) by linarith
  have 3: "0 < snd e \<and> (\<exists>owed'. (fst e, owed') \<in> set ((s, owed) # carry) \<and> snd e \<le> owed')"
    if "e \<in> set ((s, give) # new)" for e
  proof (cases "e = (s, give)")
    case True
    then show ?thesis using give by auto
  next
    case False
    then have "e \<in> set new" using that by simp
    then have "0 < snd e" "\<exists>owed'. (fst e, owed') \<in> set carry \<and> snd e \<le> owed'" using ps by blast+
    then show ?thesis by auto
  qed
  have 4: "received t (ca_payees c) = received t (ca_payees a) + carried_to t ((s, give) # new)" for t
    using ps b(8) [of t] by auto
  have 5: "e \<in> set ((s, give) # new) \<or> left_for_later p script_for c e" if "e \<in> set ((s, owed) # carry)" for e
  proof (cases "e = (s, owed)")
    case False
    then have "e \<in> set new \<or> left_for_later p script_for c e" using that ps by auto
    then show ?thesis by auto
  qed (use last in simp)
  show ?thesis unfolding carry_post_def using 1 bytes 2 3 4 5 payees by blast
qed

lemma carry_inv_room: "carry_inv p (unat v) a \<Longrightarrow> unat (ca_paid a) + unat (ca_room a) < 2 ^ 64" for v :: u64
  using unat_lt [of v] by (simp add: carry_inv_def)

lemma pay_carry_ok:
  fixes v :: u64
  assumes "carry_inv p (unat v) a"
  shows "\<exists>c new. pay_carry p script_for carry a = Some c \<and> carry_inv p (unat v) c \<and> carry_post p script_for carry a c new"
  using assms
proof (induction carry arbitrary: a)
  case Nil
  then show ?case by (auto simp: carry_post_def intro: exI [of _ "[]"])
next
  case (Cons e carry)
  obtain s owed where e: "e = (s, owed)" by fastforce
  define give where "give = min owed (ca_room a)"
  have skip: ?case if step: "pay_carry p script_for (e # carry) a = pay_carry p script_for carry a"
    and left: "\<And>c. ca_room c \<le> ca_room a \<Longrightarrow> length (ca_payees a) \<le> length (ca_payees c) \<Longrightarrow> ca_bytes a \<le> ca_bytes c \<Longrightarrow>
      left_for_later p script_for c e"
  proof -
    obtain c new where c: "pay_carry p script_for carry a = Some c" "carry_inv p (unat v) c"
        "carry_post p script_for carry a c new" using Cons.IH [OF Cons.prems] by blast
    then have "left_for_later p script_for c e" by (intro left) (simp_all add: carry_post_def)
    then have "carry_post p script_for (e # carry) a c new" using carry_post_skip [OF c(3), of e] by blast
    then show ?thesis using c(1,2) step by auto
  qed
  note inv = Cons.prems [unfolded carry_inv_def]
  show ?case
  proof (cases "ca_room a = 0 \<or> owed = 0")
    case True
    show ?thesis
    proof (cases "ca_room a = 0")
      case True
      have "carry_post p script_for (e # carry) a a []"
        using True by (auto simp: carry_post_def left_for_later_def)
      then show ?thesis using Cons.prems True e by auto
    next
      case False
      then show ?thesis using True by (intro skip) (simp_all add: e left_for_later_def)
    qed
  next
    case False
    then have give: "0 < give" "give \<le> owed" "give \<le> ca_room a"
      by (auto simp: give_def min_def word_gt_0)
    have gl: "unat give \<le> unat (ca_room a)" using give(3) by (simp add: word_le_nat_alt)
    show ?thesis
    proof (cases "payee_index s (ca_payees a)")
      case (Some k)
      note k = payee_index_Some [OF Some]
      have "unat (py_sats (ca_payees a ! k)) + unat give < 2 ^ LENGTH(64)"
        using sats_of_nth [OF conjunct1 [OF k]] inv gl carry_inv_room [OF Cons.prems] by simp
      then obtain x where x: "checked_add (py_sats (ca_payees a ! k)) give = Some x"
          "unat x = unat (py_sats (ca_payees a ! k)) + unat give" using checked_ex(1) by blast
      define a1 where "a1 = a\<lparr>ca_payees := (ca_payees a)[k := (ca_payees a ! k)\<lparr>py_sats := x\<rparr>]\<rparr>"
      obtain b where b: "spend_carry s give a1 = Some b" "ca_payees b = ca_payees a1" "ca_bytes b = ca_bytes a"
          "unat (ca_paid b) = unat (ca_paid a) + unat give" "unat (ca_room b) = unat (ca_room a) - unat give"
          "ca_carry_paid b = ca_carry_paid a @ [(s, give)]"
        using spend_carry_ok [of a1 give s] carry_inv_room [OF Cons.prems] give(3) by (auto simp: a1_def)
      have sats: "sats_of (ca_payees b) = sats_of (ca_payees a) + unat give"
        using sats_of_update [OF conjunct1 [OF k], of "(ca_payees a ! k)\<lparr>py_sats := x\<rparr>"] x(2) b(2) by (simp add: a1_def)
      have "carry_inv p (unat v) b"
        using inv sats b gl script_bytes_update [OF conjunct1 [OF k]] by (simp add: carry_inv_def a1_def)
      from Cons.IH [OF this] obtain c new where c: "pay_carry p script_for carry b = Some c"
          "carry_inv p (unat v) c" "carry_post p script_for carry b c new" by blast
      have rec: "received t (ca_payees b) = received t (ca_payees a) + (if t = s then unat give else 0)" for t
        using received_update [OF conjunct1 [OF k], of t x] x(2) k b(2) by (auto simp: a1_def split: if_splits)
      have mem: "\<exists>q' \<in> set (ca_payees a). py_identity q = py_identity q' \<and> py_work q = py_work q' \<and>
          py_script q = py_script q' \<and> py_sats q' \<le> py_sats q" if "q \<in> set (ca_payees b)" for q
      proof -
        have "q \<in> set (ca_payees a) \<or> q = (ca_payees a ! k)\<lparr>py_sats := x\<rparr>"
          using that b(2) set_update_subset_insert [of "ca_payees a" k] by (auto simp: a1_def)
        moreover have "py_sats (ca_payees a ! k) \<le> x" using x(2) by (simp add: word_le_nat_alt)
        ultimately show ?thesis using k nth_mem [of k "ca_payees a"] by auto
      qed
      have "carry_post p script_for (e # carry) a c ((s, give) # new)"
        unfolding e by (rule carry_post_pay [OF c(3) give(1,2) b(6) b(4) b(5) give_def _ _ _ rec])
          (use mem b script_bytes_update [OF conjunct1 [OF k]] in \<open>auto simp: a1_def\<close>)
      moreover have "pay_carry p script_for (e # carry) a = Some c"
        using False Some x(1) b(1) c(1) by (simp add: e give_def [symmetric] a1_def Let_def)
      ultimately show ?thesis using c(2) by blast
    next
      case None
      consider (min) "give < sp_min_payout p" | (none) "sp_min_payout p \<le> give" "script_for s = None"
        | (over) sc where "sp_min_payout p \<le> give" "script_for s = Some sc"
            "length (ca_payees a) \<ge> sp_max_outputs p \<or> ca_bytes a + (8 + 1 + length sc) > sp_output_budget_bytes p"
        | (pay) sc where "sp_min_payout p \<le> give" "script_for s = Some sc"
            "length (ca_payees a) < sp_max_outputs p" "ca_bytes a + (8 + 1 + length sc) \<le> sp_output_budget_bytes p"
        by (cases "give < sp_min_payout p"; cases "script_for s"; force simp: not_less not_le)
      then show ?thesis
      proof cases
        case min
        have "owed < sp_min_payout p \<or> ca_room a < sp_min_payout p" using min by (auto simp: give_def min_def split: if_splits)
        then show ?thesis using False None min
          by (intro skip) (auto simp: e give_def [symmetric] left_for_later_def Let_def)
      next
        case none
        then show ?thesis using False None
          by (intro skip) (auto simp: e give_def [symmetric] left_for_later_def Let_def)
      next
        case (over sc)
        then show ?thesis using False None
          by (intro skip) (auto simp: e give_def [symmetric] left_for_later_def Let_def)
      next
        case (pay sc)
        define q0 where "q0 = \<lparr>py_identity = s, py_work = 0, py_sats = give, py_script = sc\<rparr>"
        define a1 where "a1 = a\<lparr>ca_bytes := ca_bytes a + (8 + 1 + length sc), ca_payees := ca_payees a @ [q0]\<rparr>"
        obtain b where b: "spend_carry s give a1 = Some b" "ca_payees b = ca_payees a1" "ca_bytes b = ca_bytes a1"
            "unat (ca_paid b) = unat (ca_paid a) + unat give" "unat (ca_room b) = unat (ca_room a) - unat give"
            "ca_carry_paid b = ca_carry_paid a @ [(s, give)]"
          using spend_carry_ok [of a1 give s] carry_inv_room [OF Cons.prems] give(3) by (auto simp: a1_def)
        have "carry_inv p (unat v) b" using inv b gl pay by (simp add: carry_inv_def a1_def q0_def)
        from Cons.IH [OF this] obtain c new where c: "pay_carry p script_for carry b = Some c"
            "carry_inv p (unat v) c" "carry_post p script_for carry b c new" by blast
        have "carry_post p script_for (e # carry) a c ((s, give) # new)"
          unfolding e by (rule carry_post_pay [OF c(3) give(1,2) b(6) b(4) b(5) give_def])
            (use pay b in \<open>auto simp: a1_def q0_def\<close>)
        moreover have "pay_carry p script_for (e # carry) a = Some c"
          using False None pay leD [OF pay(1)] b(1) c(1) by (simp add: e give_def [symmetric] a1_def q0_def Let_def)
        ultimately show ?thesis using c(2) by blast
      qed
    qed
  qed
qed


section \<open>The whole split\<close>

lemma capped_bytes:
  assumes "capped_result p T V a b"
  shows "length (a_payees b) = min (length (a_payees a)) (sp_max_payees p)"
    "script_bytes (a_payees b) \<le> script_bytes (a_payees a)" "payee_works (a_payees b) \<le> payee_works (a_payees a)"
proof -
  note r = assms [unfolded capped_result_def]
  have "length (a_payees b) = length (cap_at (sp_max_payees p) a)" using r by (metis length_map)
  then show "length (a_payees b) = min (length (a_payees a)) (sp_max_payees p)" by (simp add: cap_at_def)
  let ?s = "sort_key payee_rank (a_payees a)"
  have sb: "script_bytes qs = (\<Sum>s\<leftarrow>map py_script qs. 8 + 1 + length s)" for qs by (simp add: script_bytes_def o_def)
  have sw: "payee_works qs = (\<Sum>w\<leftarrow>map py_work qs. unat w)" for qs by (simp add: payee_works_def o_def)
  have "script_bytes (a_payees b) = script_bytes (take (sp_max_payees p) ?s)" using r by (simp add: sb cap_at_def)
  also have "\<dots> \<le> script_bytes ?s" by (metis append_take_drop_id le_add1 sum_simps(6))
  also have "\<dots> = script_bytes (a_payees a)" unfolding script_bytes_def by (rule sum_list_perm) simp
  finally show "script_bytes (a_payees b) \<le> script_bytes (a_payees a)" .
  have "payee_works (a_payees b) = payee_works (take (sp_max_payees p) ?s)" using r by (simp add: sw cap_at_def)
  also have "\<dots> \<le> payee_works ?s" by (metis append_take_drop_id le_add1 payee_works_simps(3))
  also have "\<dots> = payee_works (a_payees a)" by (rule payee_works_perm) simp
  finally show "payee_works (a_payees b) \<le> payee_works (a_payees a)" .
qed

definition split_bounds :: "split_params \<Rightarrow> miner_stat list \<Rightarrow> u64 \<Rightarrow> u64 \<Rightarrow> bool" where
  "split_bounds p stats tw v \<longleftrightarrow> bps_ok p \<and> stat_works stats \<le> unat tw \<and> unat v * (10000 * unat tw) < 2 ^ 128"

definition carry_start :: "u64 \<Rightarrow> split_acc \<Rightarrow> carry_acc" where
  "carry_start v b = \<lparr>ca_payees = a_payees b, ca_bytes = a_bytes b, ca_paid = a_paid b,
     ca_room = sat_sub v (a_paid b), ca_carry_paid = []\<rparr>"

text \<open>The three stages of a split: after the miners, after the cap, after the carry.\<close>

definition split_run :: "split_params \<Rightarrow> miner_stat list \<Rightarrow> u64 \<Rightarrow> u64 \<Rightarrow> (string \<times> u64) list \<Rightarrow> (string \<Rightarrow> bytes option) \<Rightarrow>
    split_acc \<Rightarrow> split_acc \<Rightarrow> carry_acc \<Rightarrow> (string \<times> u64) list \<Rightarrow> bool" where
  "split_run p stats tw v carry script_for a b c new \<longleftrightarrow>
     (if tw > 0 then split_miners p script_for tw v stats split_start else Some split_start) = Some a \<and>
     acc_inv p script_for (unat tw) (unat v) (if tw = 0 then [] else stats) a \<and>
     (if sp_max_payees p > 0 \<and> a_payees a \<noteq> [] then capped_split p tw v a else Some a) = Some b \<and>
     (if sp_max_payees p > 0 \<and> a_payees a \<noteq> [] then capped_result p (unat tw) (unat v) a b else b = a) \<and>
     carry_inv p (unat v) (carry_start v b) \<and> pay_carry p script_for carry (carry_start v b) = Some c \<and>
     carry_inv p (unat v) c \<and> carry_post p script_for carry (carry_start v b) c new"

definition split_of :: "u64 \<Rightarrow> u64 \<Rightarrow> split_acc \<Rightarrow> carry_acc \<Rightarrow> (string \<times> u64) list \<Rightarrow> split" where
  "split_of tw v b c new = \<lparr>s_value = v, s_fee_sats = a_fee_sats b, s_total_work = tw, s_payees = ca_payees c,
     s_unpaid = a_unpaid b, s_carry_paid = new, s_pool_sats = ca_room c\<rparr>"

lemma split_of_simps [simp]:
  "s_value (split_of tw v b c new) = v" "s_fee_sats (split_of tw v b c new) = a_fee_sats b"
  "s_total_work (split_of tw v b c new) = tw" "s_payees (split_of tw v b c new) = ca_payees c"
  "s_unpaid (split_of tw v b c new) = a_unpaid b" "s_carry_paid (split_of tw v b c new) = new"
  "s_pool_sats (split_of tw v b c new) = ca_room c"
  by (simp_all add: split_of_def)

lemma compute_ok:
  assumes "split_bounds p stats tw v"
  shows "\<exists>a b c new. split_run p stats tw v carry script_for a b c new \<and>
    compute_with_carry stats tw v p carry script_for = Some (split_of tw v b c new)"
proof -
  let ?T = "unat tw" and ?V = "unat v"
  have bps: "bps_ok p" and sw: "stat_works stats \<le> ?T" and small: "?V * (10000 * ?T) < 2 ^ 128"
    using assms by (simp_all add: split_bounds_def)
  have "\<exists>a. (if tw > 0 then split_miners p script_for tw v stats split_start else Some split_start) = Some a \<and>
      acc_inv p script_for ?T ?V (if tw = 0 then [] else stats) a"
    using split_miners_ok [OF bps _ small acc_inv_start, where ms = stats] sw acc_inv_start [of p script_for ?T ?V]
    by (cases "tw = 0") (auto simp: word_gt_0)
  then obtain a where a: "(if tw > 0 then split_miners p script_for tw v stats split_start else Some split_start) = Some a"
    "acc_inv p script_for ?T ?V (if tw = 0 then [] else stats) a" by blast
  note ai = a(2) [unfolded acc_inv_def]
  have paid: "unat (a_paid a) \<le> ?V"
  proof (cases "tw = 0")
    case False
    then have "0 < ?T" by (simp add: unat_gt_0)
    moreover have "(unat (a_paid a) + unat (a_fee_sats a)) * ?T \<le> ?V * ?T"
      using order_trans [OF conjunct1 [OF ai] mult_le_mono2, of ?T] sw False by (auto simp only: if_False)
    ultimately show ?thesis by simp
  qed (use a(1) in \<open>auto simp: split_start_def\<close>)
  have "\<exists>b. (if sp_max_payees p > 0 \<and> a_payees a \<noteq> [] then capped_split p tw v a else Some a) = Some b \<and>
      (if sp_max_payees p > 0 \<and> a_payees a \<noteq> [] then capped_result p ?T ?V a b else b = a)"
  proof (cases "sp_max_payees p > 0 \<and> a_payees a \<noteq> []")
    case True
    then have tw: "tw \<noteq> 0" using a(1) by (auto simp: split_start_def)
    then have T: "0 < ?T" by (simp add: unat_gt_0)
    have "unat (a_fee_num a) \<le> 10000 * stat_works stats"
      using fees_bound [OF bps, of stats] ai tw by simp
    then have fn: "unat (a_fee_num a) \<le> 10000 * ?T" using sw by linarith
    then have vf: "?V * unat (a_fee_num a) \<le> ?V * (10000 * ?T)" by (rule mult_le_mono2)
    have "?V * unat (a_fee_num a) div ?T div 10000 \<le> ?V * (10000 * ?T) div ?T div 10000"
      using vf by (intro div_le_mono)
    also have "\<dots> = ?V" using T by simp
    finally have fee: "?V * unat (a_fee_num a) div ?T div 10000 \<le> ?V" .
    have "payee_works (a_payees a) < 2 ^ 64"
      using ai tw sw unat_lt [of tw] by (simp add: word_gt_0)
    moreover have "cap_at (sp_max_payees p) a \<noteq> []"
      using True by (metis cap_at_def length_0_conv length_sort not_gr_zero take_eq_Nil)
    ultimately show ?thesis
      using True capped_split_ok [OF _ le_less_trans [OF vf small] fee] tw by (simp add: word_gt_0)
  qed auto
  then obtain b where b: "(if sp_max_payees p > 0 \<and> a_payees a \<noteq> [] then capped_split p tw v a else Some a) = Some b"
    "if sp_max_payees p > 0 \<and> a_payees a \<noteq> [] then capped_result p ?T ?V a b else b = a" by blast
  have start: "carry_inv p ?V (carry_start v b)"
  proof (cases "sp_max_payees p > 0 \<and> a_payees a \<noteq> []")
    case True
    then have r: "capped_result p ?T ?V a b" using b(2) by simp
    have "length (a_payees a) \<le> sp_max_outputs p" "a_bytes a \<le> sp_output_budget_bytes p" "a_bytes a = script_bytes (a_payees a)"
      using ai by blast+
    moreover have "a_bytes b = a_bytes a" "sats_of (a_payees b) = unat (a_paid b)" "unat (a_paid b) = ?V - unat (a_fee_sats b)"
      using r [unfolded capped_result_def] by blast+
    ultimately show ?thesis using capped_bytes [OF r]
      by (simp add: carry_inv_def carry_start_def unat_sat_sub)
  next
    case False
    then have "b = a" using b(2) by auto
    then show ?thesis using ai paid by (simp add: carry_inv_def carry_start_def unat_sat_sub)
  qed
  obtain c new where c: "pay_carry p script_for carry (carry_start v b) = Some c" "carry_inv p ?V c"
      "carry_post p script_for carry (carry_start v b) c new" using pay_carry_ok [OF start] by blast
  have room: "sat_sub v (ca_paid c) = ca_room c"
    using c(2) unfolding carry_inv_def word_unat_eq_iff unat_sat_sub by linarith
  have new: "ca_carry_paid c = new" using c(3) by (simp add: carry_post_def carry_start_def)
  have "compute_with_carry stats tw v p carry script_for = Some (split_of tw v b c new)"
    using a(1) b(1) c(1) room new unfolding compute_with_carry_def carry_start_def split_of_def by simp
  moreover have "split_run p stats tw v carry script_for a b c new"
    unfolding split_run_def using a b start c by blast
  ultimately show ?thesis by blast
qed

lemma split_run_base:
  assumes "split_run p stats tw v carry script_for a b c new"
  shows "compute stats tw v p script_for = Some (split_of tw v b (carry_start v b) [])"
  using assms by (simp add: split_run_def compute_def compute_with_carry_def carry_start_def split_of_def)

lemma split_runD:
  assumes "split_run p stats tw v carry script_for a b c new"
  shows "tw \<noteq> 0 \<Longrightarrow> split_miners p script_for tw v stats split_start = Some a"
    "tw \<noteq> 0 \<Longrightarrow> acc_inv p script_for (unat tw) (unat v) stats a"
    "sp_max_payees p = 0 \<Longrightarrow> b = a"
    "sp_max_payees p > 0 \<Longrightarrow> a_payees a \<noteq> [] \<Longrightarrow> capped_result p (unat tw) (unat v) a b"
    "carry = [] \<Longrightarrow> c = carry_start v b"
    "carry_inv p (unat v) (carry_start v b)" "carry_inv p (unat v) c" "carry_post p script_for carry (carry_start v b) c new"
    "acc_inv p script_for (unat tw) (unat v) (if tw = 0 then [] else stats) a"
proof -
  note r = assms [unfolded split_run_def]
  show "carry_inv p (unat v) (carry_start v b)" "carry_inv p (unat v) c" "carry_post p script_for carry (carry_start v b) c new"
    "acc_inv p script_for (unat tw) (unat v) (if tw = 0 then [] else stats) a"
    using r by blast+
  show "split_miners p script_for tw v stats split_start = Some a" if "tw \<noteq> 0"
    using conjunct1 [OF r] that by (simp add: word_gt_0)
  show "acc_inv p script_for (unat tw) (unat v) stats a" if "tw \<noteq> 0"
    using r that by (metis (full_types))
  show "b = a" if "sp_max_payees p = 0" using r that by (metis (full_types) less_irrefl)
  show "capped_result p (unat tw) (unat v) a b" if "sp_max_payees p > 0" "a_payees a \<noteq> []"
    using r that by (metis (full_types))
  show "c = carry_start v b" if "carry = []"
  proof -
    have "pay_carry p script_for carry (carry_start v b) = Some c" using r by blast
    then show ?thesis using that by simp
  qed
qed

section \<open>Properties of the split\<close>

lemma split_conserved:
  assumes "split_bounds p stats tw v"
  shows "\<exists>s. compute_with_carry stats tw v p carry script_for = Some s \<and>
    sats_of (s_payees s) + unat (s_pool_sats s) = unat v \<and>
    map_option unat (paid_sats s) = Some (sats_of (s_payees s)) \<and>
    length (s_payees s) \<le> sp_max_outputs p \<and> script_bytes (s_payees s) \<le> sp_output_budget_bytes p \<and>
    s_value s = v \<and> s_total_work s = tw"
proof -
  from compute_ok [OF assms] obtain a b c new where
    run: "split_run p stats tw v carry script_for a b c new" and
    eq: "compute_with_carry stats tw v p carry script_for = Some (split_of tw v b c new)" by blast
  have c: "carry_inv p (unat v) c" using run by (simp add: split_run_def)
  note c = c [unfolded carry_inv_def]
  have "checked_sum 0 (map py_sats (ca_payees c)) = Some (ca_paid c)"
    using c by (simp add: checked_sum_Some sats_of_def o_def)
  then show ?thesis using eq c by (simp add: paid_sats_def)
qed

text \<open>
  C2: No satoshi is created or lost, and the split never panics.  With fees of at most 100 percent, miners
  whose work adds up to at most the total, and a value and total with value * total * 10000 below
  2^128: \<open>compute_with_carry\<close> returns, the outputs and the pool's share add up to the block's value
  exactly, and the outputs respect the count limit and the byte budget, in every mode and with any
  carry ledger.
\<close>

theorem split_conserves_value:
  assumes "split_bounds p stats tw v"
  shows "\<exists>s. compute_with_carry stats tw v p carry script_for = Some s \<and>
    sats_of (s_payees s) + unat (s_pool_sats s) = unat v \<and>
    map_option unat (paid_sats s) = Some (sats_of (s_payees s)) \<and>
    length (s_payees s) \<le> sp_max_outputs p \<and> script_bytes (s_payees s) \<le> sp_output_budget_bytes p \<and>
    s_value s = v \<and> s_total_work s = tw"
  using assms by (rule split_conserved)

definition demo_stats :: "miner_stat list" where
  "demo_stats = [\<lparr>m_identity = ''ann'', m_work = 3, m_stratum_work = 0, m_credits = 1, m_last_ts = 0\<rparr>,
     \<lparr>m_identity = ''bob'', m_work = 1, m_stratum_work = 1, m_credits = 1, m_last_ts = 0\<rparr>]"

definition demo_params :: split_params where
  "demo_params = split_params_default\<lparr>sp_fee_bps := 40\<rparr>"

lemma demo_bounds: "split_bounds demo_params demo_stats 4 1000000"
  "split_bounds (demo_params\<lparr>sp_max_payees := 1\<rparr>) demo_stats 4 1000000"
  by (simp_all add: split_bounds_def bps_ok_def demo_params_def split_params_default_def demo_stats_def)

theorem split_conserves_value_witness:
  "\<exists>s. compute_with_carry demo_stats 4 1000000 demo_params [(''cy'', 700)] (\<lambda>_. Some [0, 20, 1]) = Some s \<and>
     sats_of (s_payees s) + unat (s_pool_sats s) = 1000000"
  using split_conserves_value [OF demo_bounds(1), of "[(''cy'', 700)]" "\<lambda>_. Some [0, 20, 1]"] by auto




lemma split_miners_uncapped: "split_miners (p\<lparr>sp_max_payees := k\<rparr>) script_for tw v ms = split_miners p script_for tw v ms"
proof -
  have "bps_for (p\<lparr>sp_max_payees := k\<rparr>) s = bps_for p s" for s by (simp add: bps_for_def cong: option.case_cong)
  then have "split_miner (p\<lparr>sp_max_payees := k\<rparr>) = split_miner p"
    by (intro ext) (simp add: split_miner_def Let_def case_prod_unfold cong: option.case_cong if_cong)
  then have "split_miners (p\<lparr>sp_max_payees := k\<rparr>) script_for tw v ms a = split_miners p script_for tw v ms a" for a
    by (induction ms arbitrary: a) (auto split: Option.bind_splits)
  then show ?thesis by blast
qed

text \<open>
  C17: The capped split leaves the pool exactly its fee.  With a payee cap and no carry, the payees are the
  first \<open>max_payees\<close> of the payable miners by work (names break ties); everything but the fee is
  shared among them in proportion to their work, one of them getting the rounding dust on top, so
  that the pool's share is the exact fee to the satoshi.  The others that could have been paid are
  listed as below the cut.
\<close>

theorem capped_split_exact:
  assumes bounds: "split_bounds p stats tw v" and tw: "0 < tw" and cap: "0 < sp_max_payees p"
    and s0: "compute stats tw v (p\<lparr>sp_max_payees := 0\<rparr>) script_for = Some s0" and ne: "s_payees s0 \<noteq> []"
  defines "ranked \<equiv> sort_key payee_rank (s_payees s0)"
  shows "\<exists>s. compute stats tw v p script_for = Some s \<and>
    map py_identity (s_payees s) = map py_identity (take (sp_max_payees p) ranked) \<and>
    map py_script (s_payees s) = map py_script (take (sp_max_payees p) ranked) \<and>
    map py_work (s_payees s) = map py_work (take (sp_max_payees p) ranked) \<and>
    unat (s_fee_sats s) = unat v * (\<Sum>m\<leftarrow>stats. fee_of p m) div unat tw div 10000 \<and>
    s_pool_sats s = s_fee_sats s \<and> sats_of (s_payees s) + unat (s_fee_sats s) = unat v \<and>
    (\<exists>k < length (s_payees s). \<forall>i < length (s_payees s). i \<noteq> k \<longrightarrow>
       unat (py_sats (s_payees s ! i)) =
         (unat v - unat (s_fee_sats s)) * unat (py_work (s_payees s ! i)) div max (payee_works (s_payees s)) 1) \<and>
    s_unpaid s = s_unpaid s0 @ map (\<lambda>q. (py_identity q, py_sats q, BelowCut)) (drop (sp_max_payees p) ranked)"
proof -
  from compute_ok [OF bounds] obtain a b c new where run: "split_run p stats tw v [] script_for a b c new" by blast
  have tw0: "tw \<noteq> 0" using tw by auto
  note a = split_runD(1,2) [OF run tw0]
  have "s0 = split_of tw v a (carry_start v a) []"
    using s0 tw a(1) split_miners_uncapped [where p = p and k = 0]
    by (simp add: compute_def compute_with_carry_def carry_start_def split_of_def)
  then have p0: "s_payees s0 = a_payees a" "s_unpaid s0 = a_unpaid a" by (simp_all add: carry_start_def)
  then have r: "capped_result p (unat tw) (unat v) a b" using split_runD(4) [OF run cap] ne by simp
  note r = r [unfolded capped_result_def cap_at_def]
  have "unat (a_paid b) \<le> unat v" using split_runD(6) [OF run] by (simp add: carry_inv_def carry_start_def)
  have fn: "unat (a_fee_num a) = (\<Sum>m\<leftarrow>stats. fee_of p m)" using a(2) by (simp add: acc_inv_def)
  have fee: "unat (a_fee_sats b) \<le> unat v"
    using bounds r fn fees_bound [of p stats] tw
  proof -
    have "(\<Sum>m\<leftarrow>stats. fee_of p m) \<le> 10000 * unat tw"
      using fees_bound [of p stats] bounds by (simp add: split_bounds_def)
    then have "unat v * unat (a_fee_num a) \<le> unat v * (10000 * unat tw)" unfolding fn by (rule mult_le_mono2)
    then have "unat v * unat (a_fee_num a) div unat tw div 10000 \<le> unat v * (10000 * unat tw) div unat tw div 10000"
      by (intro div_le_mono)
    also have "\<dots> = unat v" using tw by (simp add: word_less_nat_alt)
    finally show ?thesis using r by simp
  qed
  have pool: "sat_sub v (a_paid b) = a_fee_sats b"
    using r fee by (simp add: word_unat_eq_iff unat_sat_sub)
  have "compute stats tw v p script_for = Some (split_of tw v b (carry_start v b) [])"
    by (rule split_run_base [OF run])
  moreover have "ranked = sort_key payee_rank (a_payees a)" by (simp add: ranked_def p0)
  moreover have "sats_of (a_payees b) + unat (a_fee_sats b) = unat v" using r fee by simp
  moreover have "unat (a_paid b) = unat v - unat (a_fee_sats b)" using r by blast
  note shares = r [unfolded this]
  ultimately show ?thesis
    using shares fn pool p0 by (intro exI [of _ "split_of tw v b (carry_start v b) []"]) (simp add: carry_start_def)
qed


lemma demo_capped:
  "compute demo_stats 4 1000000 (demo_params\<lparr>sp_max_payees := 0\<rparr>) (\<lambda>_. Some [0, 20, 1]) =
     Some \<lparr>s_value = 1000000, s_fee_sats = 4000, s_total_work = 4,
       s_payees = [\<lparr>py_identity = ''ann'', py_work = 3, py_sats = 747000, py_script = [0, 20, 1]\<rparr>,
         \<lparr>py_identity = ''bob'', py_work = 1, py_sats = 249000, py_script = [0, 20, 1]\<rparr>],
       s_unpaid = [], s_carry_paid = [], s_pool_sats = 4000\<rparr>"
  by (simp add: compute_def compute_with_carry_def demo_stats_def demo_params_def split_params_default_def
      split_miner_def split_start_def bps_for_def weighted_def portion_def checked_mul_def checked_add_def
      checked_sub_def sat_add_def sat_sub_def)

theorem capped_split_exact_witness:
  "\<exists>s. compute demo_stats 4 1000000 (demo_params\<lparr>sp_max_payees := 1\<rparr>) (\<lambda>_. Some [0, 20, 1]) = Some s \<and>
     s_pool_sats s = s_fee_sats s \<and> map py_identity (s_payees s) = [''ann'']"
proof -
  have "compute demo_stats 4 1000000 (demo_params\<lparr>sp_max_payees := 1, sp_max_payees := 0\<rparr>) (\<lambda>_. Some [0, 20, 1]) =
      compute demo_stats 4 1000000 (demo_params\<lparr>sp_max_payees := 0\<rparr>) (\<lambda>_. Some [0, 20, 1])" by simp
  note s0 = this [unfolded demo_capped]
  from capped_split_exact [OF demo_bounds(2) _ _ s0] show ?thesis by (auto simp: payee_rank_def)
qed

text \<open>A debt that is left waits for one of the stated reasons.\<close>

lemma carry_left_over:
  assumes run: "split_run p stats tw v carry script_for a b c new" and bytes: "ca_bytes c = script_bytes (ca_payees c) + extra"
  shows "\<forall>(i, owed) \<in> set carry. (i, owed) \<in> set new \<or> owed = 0 \<or> ca_room c = 0 \<or>
       owed < sp_min_payout p \<or> ca_room c < sp_min_payout p \<or> script_for i = None \<or>
       length (ca_payees c) = sp_max_outputs p \<or>
       (\<exists>sc. script_for i = Some sc \<and>
          script_bytes (ca_payees c) + extra + (8 + 1 + length sc) > sp_output_budget_bytes p)"
proof (rule ballI, unfold case_prod_unfold)
  fix e
  assume "e \<in> set carry"
  then have "e \<in> set new \<or> left_for_later p script_for c e" using split_runD(8) [OF run] unfolding carry_post_def by blast
  moreover have "length (ca_payees c) \<le> sp_max_outputs p" using split_runD(7) [OF run] by (simp add: carry_inv_def)
  ultimately show "(fst e, snd e) \<in> set new \<or> snd e = 0 \<or> ca_room c = 0 \<or>
      snd e < sp_min_payout p \<or> ca_room c < sp_min_payout p \<or> script_for (fst e) = None \<or> length (ca_payees c) = sp_max_outputs p \<or>
      (\<exists>sc. script_for (fst e) = Some sc \<and> script_bytes (ca_payees c) + extra + (8 + 1 + length sc) > sp_output_budget_bytes p)"
    unfolding left_for_later_def bytes by (cases "script_for (fst e)") auto
qed



text \<open>
  Under a payee cap a fee override changes what the pool keeps, but not how the payees share the rest.
  Of two miners with equal work, one with its fee overridden to 0.5 percent gets 995,000 and the other 990,000
  of 2,000,000 in the proportional split; with a cap both get 992,500, so the reduced fee is shared
  with everyone.
\<close>

theorem override_lost_under_cap:
  "let stats = [\<lparr>m_identity = ''ann'', m_work = 1000, m_stratum_work = 0, m_credits = 1, m_last_ts = 0\<rparr>,
       \<lparr>m_identity = ''vip'', m_work = 1000, m_stratum_work = 1000, m_credits = 1, m_last_ts = 0\<rparr>];
     p = split_params_default\<lparr>sp_fee_bps := 100, sp_stratum_fee_bps := 200, sp_fee_overrides := [''vip'' \<mapsto> 50]\<rparr>;
     sats = (\<lambda>p. map_option (\<lambda>s. map (\<lambda>q. (py_identity q, py_sats q)) (s_payees s))
       (compute stats 2000 2000000 p (\<lambda>_. Some [0, 20, 1]))) in
   sats p = Some [(''ann'', 990000), (''vip'', 995000)] \<and>
   sats (p\<lparr>sp_max_payees := 2\<rparr>) = Some [(''ann'', 992500), (''vip'', 992500)]"
  by (simp add: Let_def compute_def compute_with_carry_def split_params_default_def capped_split_def payee_rank_def
      split_miner_def split_start_def bps_for_def weighted_def portion_def checked_mul_def checked_add_def
      checked_sub_def sat_add_def sat_sub_def)

end
