(* ===== verification/Cursor.thy ===== *)
theory Cursor
  imports Prelude
begin

text \<open>
  The crate root of the wire protocol (\<open>wire/src/lib.rs\<close>): the error type, the limits and command
  numbers, and the little-endian cursor every decoder reads through.  A decoder is a function from
  a cursor to an error or a value with the advanced cursor.  Two locales state what decoders rely
  on: \<open>wire_reader\<close> (a reader only moves forward inside its buffer) and \<open>wire_codec\<close> (it reads
  back exactly what the matching writer put there), with the repeated-field loop proved once in
  each.  The cursor's own methods are their first interpretations.
\<close>

section \<open>Errors and limits\<close>

datatype wire_error = Short | Signature | Decrypt | Malformed string | TooLong

definition MAX_CMD_LEN :: nat where "MAX_CMD_LEN = 2 ^ 22"

definition CMD_HELLO :: u8 where "CMD_HELLO = 1"
definition CMD_HELLO_REPLY :: u8 where "CMD_HELLO_REPLY = 2"
definition CMD_MINING :: u8 where "CMD_MINING = 5"
definition CMD_INFO :: u8 where "CMD_INFO = 7"

section \<open>The cursor\<close>

record cursor =
  buf :: bytes
  pos :: nat

type_synonym 'a reader = "cursor \<Rightarrow> wire_error + ('a \<times> cursor)"

definition cursor_new :: "bytes \<Rightarrow> cursor" where
  "cursor_new b = \<lparr>buf = b, pos = 0\<rparr>"

definition c_remaining :: "cursor \<Rightarrow> nat" where
  "c_remaining c = length (buf c) - pos c"

definition c_take :: "nat \<Rightarrow> bytes reader" where
  "c_take n c =
     (if c_remaining c < n then Inl Short
      else Inr (take n (drop (pos c) (buf c)), c\<lparr>pos := pos c + n\<rparr>))"

definition c_u8 :: "u8 reader" where
  "c_u8 c = rbind (c_take 1 c) (\<lambda>(b, c). Inr (b ! 0, c))"

definition c_u16 :: "u16 reader" where
  "c_u16 c = rbind (c_take 2 c) (\<lambda>(b, c). Inr (of_le b, c))"

definition c_u32 :: "u32 reader" where
  "c_u32 c = rbind (c_take 4 c) (\<lambda>(b, c). Inr (of_le b, c))"

definition c_u64 :: "u64 reader" where
  "c_u64 c = rbind (c_take 8 c) (\<lambda>(b, c). Inr (of_le b, c))"

text \<open>\<open>array::<N>()\<close>: the slice of exactly \<open>N\<close> bytes always converts.\<close>

definition c_array :: "nat \<Rightarrow> bytes reader" where
  "c_array n c = c_take n c"

fun position :: "('a \<Rightarrow> bool) \<Rightarrow> 'a list \<Rightarrow> nat option" where
  "position P [] = None"
| "position P (x # xs) = (if P x then Some 0 else map_option Suc (position P xs))"

definition c_cstr :: "nat \<Rightarrow> bytes reader" where
  "c_cstr mx c =
     (let rest = drop (pos c) (buf c) in
      rbind (ok_or (position (\<lambda>b. b = 0) (take (mx + 1) rest)) (Malformed ''unterminated string''))
        (\<lambda>end. Inr (take end rest, c\<lparr>pos := pos c + (end + 1)\<rparr>)))"

text \<open>The \<open>for _ in 0..n\<close> loops of the decoders, which push one read value per round.\<close>

fun read_n :: "'a reader \<Rightarrow> nat \<Rightarrow> 'a list reader" where
  "read_n get 0 c = Inr ([], c)"
| "read_n get (Suc n) c =
     rbind (get c) (\<lambda>(x, c). rbind (read_n get n c) (\<lambda>(xs, c). Inr (x # xs, c)))"

section \<open>Readers move forward inside their buffer\<close>

definition advances :: "cursor \<Rightarrow> cursor \<Rightarrow> bool" where
  "advances c c' \<longleftrightarrow> buf c' = buf c \<and> pos c \<le> pos c' \<and> (pos c \<le> length (buf c) \<longrightarrow> pos c' \<le> length (buf c))"

lemma advances_refl [simp, intro]: "advances c c"
  by (simp add: advances_def)

lemma advances_trans [trans]: "advances a b \<Longrightarrow> advances b c \<Longrightarrow> advances a c"
  by (auto simp: advances_def)

lemma rbind_InrE:
  assumes "rbind m f = Inr y"
  obtains x c where "m = Inr (x, c)" and "f (x, c) = Inr y"
  using assms by (auto simp: rbind_Inr)

lemma advances_remaining: "advances c c' \<Longrightarrow> c_remaining c' \<le> c_remaining c"
  by (simp add: advances_def c_remaining_def diff_le_mono2)

locale wire_reader =
  fixes get :: "'a reader"
  assumes get_advances: "get c = Inr (x, c') \<Longrightarrow> advances c c'"
begin

lemma read_n_advances: "read_n get n c = Inr (xs, c') \<Longrightarrow> advances c c'"
proof (induction n arbitrary: c xs)
  case 0
  then show ?case by simp
next
  case (Suc n)
  then obtain x d ys where "get c = Inr (x, d)" and "read_n get n d = Inr (ys, c')"
    by (auto simp: rbind_Inr)
  then show ?case using Suc.IH get_advances advances_trans by blast
qed

lemma read_n_length: "read_n get n c = Inr (xs, c') \<Longrightarrow> length xs = n"
  by (induction n arbitrary: c xs) (auto simp: rbind_Inr)

end

section \<open>Reading back what was written\<close>

definition at_pos :: "bytes \<Rightarrow> bytes \<Rightarrow> cursor" where
  "at_pos pre suf = \<lparr>buf = pre @ suf, pos = length pre\<rparr>"

lemma at_pos_sel [simp]: "buf (at_pos pre suf) = pre @ suf" "pos (at_pos pre suf) = length pre"
  by (simp_all add: at_pos_def)

lemma cursor_new_at: "cursor_new b = at_pos [] b"
  by (simp add: cursor_new_def at_pos_def)

lemma c_remaining_at [cursor_simps]: "c_remaining (at_pos pre suf) = length suf"
  by (simp add: c_remaining_def)

lemma c_take_at: "length xs = n \<Longrightarrow> c_take n (at_pos pre (xs @ suf)) = Inr (xs, at_pos (pre @ xs) suf)"
  by (simp add: c_take_def c_remaining_def at_pos_def)

lemma c_take_exact: "c_take (length xs) (at_pos pre (xs @ suf)) = Inr (xs, at_pos (pre @ xs) suf)"
  by (rule c_take_at) simp

lemma c_take_short: "length suf < n \<Longrightarrow> c_take n (at_pos pre suf) = Inl Short"
  by (simp add: c_take_def c_remaining_def)

lemma c_u8_at [cursor_simps]: "c_u8 (at_pos pre (b # suf)) = Inr (b, at_pos (pre @ [b]) suf)"
  using c_take_at [of "[b]" 1 pre suf] by (simp add: c_u8_def)

lemma c_u8_end [cursor_simps]: "c_u8 (at_pos pre []) = Inl Short"
  by (simp add: c_u8_def c_take_short)

locale wire_codec = wire_reader get for get :: "'a reader" +
  fixes put :: "'a \<Rightarrow> bytes" and ok :: "'a \<Rightarrow> bool"
  assumes get_put: "ok x \<Longrightarrow> get (at_pos pre (put x @ suf)) = Inr (x, at_pos (pre @ put x) suf)"
begin

lemma read_n_put:
  "list_all ok xs \<Longrightarrow>
   read_n get (length xs) (at_pos pre (concat (map put xs) @ suf)) =
     Inr (xs, at_pos (pre @ concat (map put xs)) suf)"
proof (induction xs arbitrary: pre)
  case Nil
  show ?case by simp
next
  case (Cons x xs)
  then show ?case by (simp add: get_put)
qed

end

section \<open>Canonical encodings\<close>

text \<open>
  A reader is exact when the bytes it consumed are the ones the writer produces for the value it
  returned: then decoding loses nothing, and two different messages never decode to one value.
\<close>

definition consumes :: "cursor \<Rightarrow> bytes \<Rightarrow> cursor \<Rightarrow> bool" where
  "consumes c xs c' \<longleftrightarrow>
     buf c' = buf c \<and> pos c' = pos c + length xs \<and> drop (pos c) (buf c) = xs @ drop (pos c') (buf c)"

lemma consumes_nil [simp]: "consumes c [] c"
  by (simp add: consumes_def)

lemma consumes_append:
  "consumes a xs b \<Longrightarrow> consumes b ys c \<Longrightarrow> consumes a (xs @ ys) c"
  by (auto simp: consumes_def)

lemma consumes_remaining:
  assumes "consumes c xs c'"
  shows "c_remaining c = length xs + c_remaining c'"
proof -
  from assms have "drop (pos c) (buf c) = xs @ drop (pos c') (buf c)" and b: "buf c' = buf c"
    by (simp_all add: consumes_def)
  from arg_cong [OF this(1), of length] show ?thesis by (simp add: c_remaining_def b)
qed

lemma consumes_advances:
  assumes "consumes c xs c'"
  shows "advances c c'"
  using consumes_remaining [OF assms] assms by (auto simp: consumes_def advances_def c_remaining_def)

lemma c_take_consumes: "c_take n c = Inr (x, c') \<Longrightarrow> consumes c x c'"
proof -
  assume "c_take n c = Inr (x, c')"
  then have n: "n \<le> length (buf c) - pos c" and x: "x = take n (drop (pos c) (buf c))"
    and c': "c' = c\<lparr>pos := pos c + n\<rparr>"
    by (auto simp: c_take_def c_remaining_def split: if_splits)
  have "drop (pos c) (buf c) = take n (drop (pos c) (buf c)) @ drop n (drop (pos c) (buf c))"
    by (rule append_take_drop_id [symmetric])
  then show ?thesis using n by (simp add: consumes_def x c' min_absorb2 add.commute)
qed

locale wire_exact = wire_codec +
  assumes get_exact: "get c = Inr (x, c') \<Longrightarrow> consumes c (put x) c'"
begin

lemma read_n_exact: "read_n get n c = Inr (xs, c') \<Longrightarrow> consumes c (concat (map put xs)) c'"
proof (induction n arbitrary: c xs)
  case 0
  then show ?case by simp
next
  case (Suc n)
  then obtain x d ys where "get c = Inr (x, d)" and "read_n get n d = Inr (ys, c')" and "xs = x # ys"
    by (auto simp: rbind_Inr)
  then show ?case using Suc.IH [of d ys] by (auto intro: consumes_append get_exact)
qed

end

section \<open>The cursor's own methods as codecs\<close>

lemma c_take_advances: "c_take n c = Inr (x, c') \<Longrightarrow> advances c c'"
  by (auto simp: c_take_def advances_def c_remaining_def split: if_splits)

lemma c_take_length: "c_take n c = Inr (x, c') \<Longrightarrow> length x = n"
  by (auto simp: c_take_def c_remaining_def split: if_splits)

lemma fixed_width_exact:
  assumes "\<And>c. get c = rbind (c_take n c) (\<lambda>(b, c). Inr (f b, c))"
    and "\<And>x. ok x \<Longrightarrow> length (put x) = n" and "\<And>x. ok x \<Longrightarrow> f (put x) = x"
    and "\<And>b. length b = n \<Longrightarrow> put (f b) = b"
  shows "wire_exact get put ok"
proof unfold_locales
  fix c x c'
  assume "get c = Inr (x, c')"
  then obtain b where "c_take n c = Inr (b, c')" and "x = f b"
    by (auto simp: assms(1) rbind_Inr)
  moreover from this have "put x = b"
    using assms(4) by (simp add: c_take_length)
  ultimately show "advances c c'" and "consumes c (put x) c'"
    by (auto dest: c_take_advances c_take_consumes)
next
  fix x pre suf
  assume "ok x"
  then show "get (at_pos pre (put x @ suf)) = Inr (x, at_pos (pre @ put x) suf)"
    using c_take_at [of "put x" n pre suf] by (simp add: assms)
qed

interpretation u8c: wire_exact c_u8 "\<lambda>b. [b]" "\<lambda>_. True"
  by (rule fixed_width_exact [where n = 1 and f = "\<lambda>b. b ! 0"])
    (auto simp: c_u8_def length_Suc_conv)

interpretation u16c: wire_exact c_u16 le16 "\<lambda>_. True"
  by (rule fixed_width_exact [where n = 2 and f = of_le]) (simp_all add: c_u16_def le_words_of_le)

interpretation u32c: wire_exact c_u32 le32 "\<lambda>_. True"
  by (rule fixed_width_exact [where n = 4 and f = of_le]) (simp_all add: c_u32_def le_words_of_le)

interpretation u64c: wire_exact c_u64 le64 "\<lambda>_. True"
  by (rule fixed_width_exact [where n = 8 and f = of_le]) (simp_all add: c_u64_def le_words_of_le)

interpretation arrc: wire_exact "c_array n" "\<lambda>b. b" "\<lambda>b. length b = n" for n
  by (rule fixed_width_exact [where n = n and f = "\<lambda>b. b"])
    (auto simp: c_array_def c_take_def split: if_splits)

lemma c_u8_Inr: "c_u8 c = Inr (b, c') \<Longrightarrow> consumes c [b] c'"
  by (rule u8c.get_exact)

lemmas word_reads [cursor_simps] =
  u16c.get_put [OF TrueI] u32c.get_put [OF TrueI] u64c.get_put [OF TrueI]

lemmas array_read = arrc.get_put

lemma array_list_advances: "read_n (c_array k) n c = Inr (x, c') \<Longrightarrow> advances c c'"
  by (rule arrc.read_n_advances)

lemma c_u8_remaining: "c_u8 c = Inr (b, c') \<Longrightarrow> c_remaining c' < c_remaining c"
  using consumes_remaining [OF u8c.get_exact, of c b c'] by simp

lemmas reads_advance = u8c.get_advances u16c.get_advances u32c.get_advances u64c.get_advances
  arrc.get_advances array_list_advances c_take_advances

text \<open>A NUL-terminated string that holds no NUL and fits the limit is read back whole.\<close>

lemma position_first:
  "\<forall>x \<in> set xs. \<not> P x \<Longrightarrow> P y \<Longrightarrow> length xs < n \<Longrightarrow> position P (take n (xs @ y # ys)) = Some (length xs)"
proof (induction xs arbitrary: n)
  case Nil
  then show ?case by (cases n) simp_all
next
  case (Cons x xs)
  then obtain m where "n = Suc m" by (cases n) auto
  with Cons show ?case by simp
qed

lemma position_less: "position P xs = Some i \<Longrightarrow> i < length xs \<and> P (xs ! i) \<and> (\<forall>j < i. \<not> P (xs ! j))"
proof (induction xs arbitrary: i)
  case Nil
  then show ?case by simp
next
  case (Cons x xs)
  then show ?case by (auto split: if_splits simp: less_Suc_eq_0_disj)
qed

lemma c_cstr_at:
  assumes "0 \<notin> set s" and "length s \<le> mx"
  shows "c_cstr mx (at_pos pre (s @ 0 # suf)) = Inr (s, at_pos (pre @ s @ [0]) suf)"
proof -
  have "position (\<lambda>b. b = 0) (take (mx + 1) (s @ 0 # suf)) = Some (length s)"
    using assms by (intro position_first) auto
  then show ?thesis by (simp add: c_cstr_def at_pos_def)
qed

lemma c_cstr_props:
  assumes "c_cstr mx c = Inr (s, c')"
  shows "0 \<notin> set s \<and> length s \<le> mx \<and> advances c c'"
proof -
  let ?rest = "drop (pos c) (buf c)"
  from assms obtain i where i: "position (\<lambda>b. b = 0) (take (mx + 1) ?rest) = Some i"
    and s: "s = take i ?rest" and c': "c' = c\<lparr>pos := pos c + (i + 1)\<rparr>"
    by (auto simp: c_cstr_def Let_def rbind_Inr ok_or_Inr)
  from position_less [OF i] have "i < length (take (mx + 1) ?rest)"
    and z: "\<forall>j < i. take (mx + 1) ?rest ! j \<noteq> 0" by auto
  then have "i \<le> mx" "i < length ?rest" by simp_all
  moreover have "0 \<notin> set s"
    using z \<open>i \<le> mx\<close> \<open>i < length ?rest\<close> by (auto simp: s in_set_conv_nth)
  ultimately show ?thesis using c' s by (auto simp: advances_def)
qed

end
