(* ===== verification/Coinbaser.thy ===== *)
theory Coinbaser
  imports Cursor
begin

text \<open>
  The coinbaser v2 list (\<open>wire/src/coinbaser.rs\<close>): the outputs the pool tells a gateway to pay.
  \<open>encode_v2\<close> writes at most 512 of them, \<open>decode_v2\<close> reads until the buffer is exhausted.  Shown:
  the list of a well-formed reply survives the round trip, and decoding is canonical, so a byte
  string that decodes is the encoding of what it decodes to.
\<close>

definition MAX_OUTPUTS :: nat where "MAX_OUTPUTS = 512"
definition MAX_SCRIPT :: nat where "MAX_SCRIPT = 64"
definition MIN_SCRIPT :: nat where "MIN_SCRIPT = 2"

record coin_output =
  o_sats :: u64
  o_script :: bytes

definition output_serialized_len :: "coin_output \<Rightarrow> nat" where
  "output_serialized_len out = 8 + 1 + length (o_script out)"

definition encode_output :: "coin_output \<Rightarrow> bytes" where
  "encode_output out = le64 (o_sats out) @ [of_nat (length (o_script out))] @ o_script out"

definition encode_v2 :: "u8 \<Rightarrow> coin_output list \<Rightarrow> bytes" where
  "encode_v2 cid outs = cid # concat (map encode_output (take MAX_OUTPUTS outs))"

text \<open>One round of the decoder's loop, and the loop with its accumulator \<open>out\<close>.\<close>

definition decode_output :: "coin_output reader" where
  "decode_output c =
     rbind (c_u64 c) (\<lambda>(sats, c).
     rbind (c_u8 c) (\<lambda>(n, c).
       if \<not> (MIN_SCRIPT \<le> unat n \<and> unat n \<le> MAX_SCRIPT) then Inl (Malformed ''coinbaser script length'')
       else rbind (c_take (unat n) c) (\<lambda>(s, c). Inr (\<lparr>o_sats = sats, o_script = s\<rparr>, c))))"

lemma decode_output_consumes:
  assumes "decode_output c = Inr (x, c')"
  shows "consumes c (encode_output x) c' \<and> MIN_SCRIPT \<le> length (o_script x) \<and> length (o_script x) \<le> MAX_SCRIPT"
proof -
  from assms obtain sats c1 n c2 s where
    1: "c_u64 c = Inr (sats, c1)" and 2: "c_u8 c1 = Inr (n, c2)" and
    b: "MIN_SCRIPT \<le> unat n" "unat n \<le> MAX_SCRIPT" and
    3: "c_take (unat n) c2 = Inr (s, c')" and x: "x = \<lparr>o_sats = sats, o_script = s\<rparr>"
    by (auto simp: decode_output_def rbind_Inr split: if_splits)
  have s: "length s = unat n" using 3 by (rule c_take_length)
  have "consumes c (le64 sats @ ([n] @ s)) c'"
    using 1 2 3 by (intro consumes_append [OF u64c.get_exact consumes_append [OF u8c.get_exact c_take_consumes]])
  then show ?thesis using b s by (simp add: x encode_output_def)
qed

lemma decode_output_progress:
  assumes "decode_output c = Inr (x, c')"
  shows "c_remaining c' < c_remaining c"
  using consumes_remaining [of c "encode_output x" c'] decode_output_consumes [OF assms]
  by (simp add: encode_output_def)

function decode_loop :: "coin_output list \<Rightarrow> cursor \<Rightarrow> wire_error + coin_output list" where
  "decode_loop out c =
     (if 0 < c_remaining c then
        rbind (decode_output c) (\<lambda>(x, c).
          (let out = out @ [x] in
           if MAX_OUTPUTS < length out then Inl (Malformed ''coinbaser output count'')
           else decode_loop out c))
      else Inr out)"
  by pat_completeness auto
termination
  by (relation "measure (\<lambda>(out, c). c_remaining c)") (auto dest: decode_output_progress)

declare decode_loop.simps [simp del]

definition decode_v2 :: "bytes \<Rightarrow> wire_error + (u8 \<times> coin_output list)" where
  "decode_v2 bs =
     rbind (c_u8 (cursor_new bs)) (\<lambda>(cid, c). rbind (decode_loop [] c) (\<lambda>out. Inr (cid, out)))"

section \<open>Round trip and canonicity\<close>

definition output_ok :: "coin_output \<Rightarrow> bool" where
  "output_ok out \<longleftrightarrow> MIN_SCRIPT \<le> length (o_script out) \<and> length (o_script out) \<le> MAX_SCRIPT"

interpretation outputc: wire_exact decode_output encode_output output_ok
proof unfold_locales
  fix c x c'
  assume "decode_output c = Inr (x, c')"
  then show "consumes c (encode_output x) c'" and "advances c c'"
    using decode_output_consumes by (blast intro: consumes_advances)+
next
  fix x pre suf
  assume "output_ok x"
  then have "unat (of_nat (length (o_script x)) :: u8) = length (o_script x)"
    and "MIN_SCRIPT \<le> length (o_script x)" "length (o_script x) \<le> MAX_SCRIPT"
    by (auto simp: output_ok_def MAX_SCRIPT_def intro: unat_of_nat_lt)
  then show "decode_output (at_pos pre (encode_output x @ suf)) =
      Inr (x, at_pos (pre @ encode_output x) suf)"
    by (simp add: decode_output_def encode_output_def cursor_simps c_take_at)
qed

lemma decode_loop_put:
  "list_all output_ok xs \<Longrightarrow> length out + length xs \<le> MAX_OUTPUTS \<Longrightarrow>
   decode_loop out (at_pos pre (concat (map encode_output xs))) = Inr (out @ xs)"
proof (induction xs arbitrary: out pre)
  case Nil
  show ?case by (simp add: decode_loop.simps c_remaining_at)
next
  case (Cons x xs)
  have "0 < length (encode_output x)" by (simp add: encode_output_def)
  with Cons show ?case
    by (subst decode_loop.simps) (simp add: c_remaining_at outputc.get_put)
qed

lemma decode_loop_Inr:
  "decode_loop out c = Inr r \<Longrightarrow> length out \<le> MAX_OUTPUTS \<Longrightarrow>
   \<exists>xs. r = out @ xs \<and> list_all output_ok xs \<and> length r \<le> MAX_OUTPUTS \<and>
        drop (pos c) (buf c) = concat (map encode_output xs)"
proof (induction out c rule: decode_loop.induct)
  case (1 out c)
  show ?case
  proof (cases "0 < c_remaining c")
    case False
    with "1.prems" show ?thesis by (simp add: decode_loop.simps [of out c] c_remaining_def)
  next
    case True
    with "1.prems" obtain x d where d: "decode_output c = Inr (x, d)"
      and n: "\<not> MAX_OUTPUTS < length (out @ [x])" and r: "decode_loop (out @ [x]) d = Inr r"
      by (auto simp: decode_loop.simps [of out c] rbind_Inr Let_def split: if_splits)
    from "1.IH" [OF True d refl refl n r] n obtain xs where
      "r = out @ [x] @ xs" "list_all output_ok xs" "length r \<le> MAX_OUTPUTS"
      "drop (pos d) (buf d) = concat (map encode_output xs)"
      by auto
    moreover have "consumes c (encode_output x) d" "output_ok x"
      using decode_output_consumes [OF d] by (auto simp: output_ok_def)
    ultimately show ?thesis
      by (intro exI [of _ "x # xs"]) (simp add: consumes_def)
  qed
qed

text \<open>
  A coinbaser reply reads back as the list that was issued.  For any identifier and any list
  of at most 512 outputs whose scripts are 2 to 64 bytes long, \<open>decode_v2\<close> of \<open>encode_v2\<close> is the
  identifier and the list.
\<close>

theorem coinbaser_round_trip:
  assumes "list_all output_ok outs" and "length outs \<le> MAX_OUTPUTS"
  shows "decode_v2 (encode_v2 cid outs) = Inr (cid, outs)"
  using assms decode_loop_put [of outs "[]" "[cid]"]
  by (simp add: decode_v2_def encode_v2_def cursor_new_at c_u8_at)

theorem coinbaser_round_trip_witness:
  "decode_v2 (encode_v2 7 [\<lparr>o_sats = 1000, o_script = [0, 20, 1, 2, 3]\<rparr>, \<lparr>o_sats = -1, o_script = [81, 1]\<rparr>]) =
     Inr (7, [\<lparr>o_sats = 1000, o_script = [0, 20, 1, 2, 3]\<rparr>, \<lparr>o_sats = -1, o_script = [81, 1]\<rparr>])"
  by (rule coinbaser_round_trip) (simp_all add: output_ok_def MIN_SCRIPT_def MAX_SCRIPT_def MAX_OUTPUTS_def)

text \<open>
  Decoding a coinbaser reply is canonical.  Whatever bytes \<open>decode_v2\<close> accepts are the
  encoding of its result, and the result is within the limits a gateway enforces.
\<close>

theorem coinbaser_decode_canonical:
  assumes "decode_v2 bs = Inr (cid, outs)"
  shows "bs = encode_v2 cid outs \<and> list_all output_ok outs \<and> length outs \<le> MAX_OUTPUTS"
proof -
  from assms obtain c where c: "c_u8 (cursor_new bs) = Inr (cid, c)" and l: "decode_loop [] c = Inr outs"
    by (auto simp: decode_v2_def rbind_Inr)
  have "consumes (cursor_new bs) [cid] c" by (rule u8c.get_exact [OF c])
  then have "bs = [cid] @ drop (pos c) (buf c)"
    unfolding consumes_def cursor_new_def by auto
  moreover from decode_loop_Inr [OF l] have "list_all output_ok outs" "length outs \<le> MAX_OUTPUTS"
    "drop (pos c) (buf c) = concat (map encode_output outs)"
    by auto
  ultimately show ?thesis by (simp add: encode_v2_def)
qed

theorem coinbaser_decode_canonical_witness:
  "[7, 5, 0, 0, 0, 0, 0, 0, 0, 2, 81, 1] = encode_v2 7 [\<lparr>o_sats = 5, o_script = [81, 1]\<rparr>]"
proof -
  have "decode_v2 [7, 5, 0, 0, 0, 0, 0, 0, 0, 2, 81, 1] = Inr (7, [\<lparr>o_sats = 5, o_script = [81, 1]\<rparr>])"
    by code_simp
  from coinbaser_decode_canonical [OF this] show ?thesis by simp
qed

end
