(* ===== verification/Pow.thy ===== *)
theory Pow
  imports Prelude
begin

text \<open>
  BLAKE2b header-v2 proof of work (\<open>wire/src/pow.rs\<close>): the staged commitment, the 80 bytes the
  hardware hashes, targets and their comparison, and the 164-byte header.  SHA-256 and BLAKE2b-256
  come from other crates: they are the arguments \<open>sha\<close> and \<open>blake\<close>.  A fixed byte array filled by
  slice copies is the concatenation of what is copied.  Shown: targets are what they stand for as
  numbers, \<open>meets_target\<close> is their order, the logged difficulty agrees with it, and folding the
  stratum branches gives the block's merkle root.
\<close>

unbundle bit_operations_syntax

section \<open>Hashing\<close>

type_synonym hash_fun = "bytes \<Rightarrow> bytes"

definition HEADER_V2_LEN :: nat where "HEADER_V2_LEN = 164"
definition V2_BIT :: u32 where "V2_BIT = 0x80000000"
definition FLAG_USE_TIME_OFFSET :: u8 where "FLAG_USE_TIME_OFFSET = 0x04"
definition FLAGS_RESERVED_HIGH :: u8 where "FLAGS_RESERVED_HIGH = 0xC0"
definition SIA_COINB1_LEN :: nat where "SIA_COINB1_LEN = 39"
definition WORK_LEN :: nat where "WORK_LEN = 80"

definition sha256d :: "hash_fun \<Rightarrow> bytes \<Rightarrow> bytes" where
  "sha256d sha bs = sha (sha bs)"

definition tagged_sha256 :: "hash_fun \<Rightarrow> string \<Rightarrow> bytes \<Rightarrow> bytes" where
  "tagged_sha256 sha tag bs = (let t = sha (str_bytes tag) in sha (t @ t @ bs))"

fun merkle_root :: "hash_fun \<Rightarrow> bytes \<Rightarrow> bytes list \<Rightarrow> bytes" where
  "merkle_root sha acc [] = acc"
| "merkle_root sha acc (b # bs) = merkle_root sha (sha256d sha (acc @ b)) bs"

text \<open>One level of the tree above the next: the coinbase path has no hash yet.\<close>

fun merkle_pairs :: "hash_fun \<Rightarrow> bytes option list \<Rightarrow> bytes option list" where
  "merkle_pairs sha (a # b # rest) =
     (case (a, b) of (Some x, Some y) \<Rightarrow> Some (sha256d sha (x @ y)) | _ \<Rightarrow> None) # merkle_pairs sha rest"
| "merkle_pairs sha _ = []"

lemma length_merkle_pairs [simp]: "length (merkle_pairs sha level) = length level div 2"
  by (induction sha level rule: merkle_pairs.induct) auto

function merkle_branches_level :: "hash_fun \<Rightarrow> bytes option list \<Rightarrow> bytes list option" where
  "merkle_branches_level sha level =
     (if 1 < length level then do {
        b \<leftarrow> level ! 1;
        bs \<leftarrow> merkle_branches_level sha
                (merkle_pairs sha (if odd (length level) then level @ [last level] else level));
        Some (b # bs)
      }
      else Some [])"
  by pat_completeness auto
termination
  by (relation "measure (\<lambda>(sha, level). length level)") (auto elim!: oddE)

declare merkle_branches_level.simps [simp del]

definition merkle_branches_for_coinbase :: "hash_fun \<Rightarrow> bytes list \<Rightarrow> bytes list option" where
  "merkle_branches_for_coinbase sha txids = merkle_branches_level sha (None # map Some txids)"

section \<open>The commitment\<close>

record commitment =
  c_version :: u32
  c_prev_hash :: bytes
  c_height :: u32
  c_merkle_root :: bytes
  c_time_on_wire :: u32
  c_nbits :: u32
  c_txcount :: u32
  c_flags :: u8
  c_xor_clear_bits :: u8
  c_xor_key :: bytes
  c_rhs :: bytes

definition xor_key_hash :: "hash_fun \<Rightarrow> bytes \<Rightarrow> bytes" where
  "xor_key_hash sha key = tagged_sha256 sha ''Bitcoin block hash PoW XOR key'' key"

definition h1_preimage :: "hash_fun \<Rightarrow> commitment \<Rightarrow> bytes" where
  "h1_preimage sha c =
     le32 (c_version c OR V2_BIT) @ rev (c_prev_hash c) @ le32 (c_height c) @ c_merkle_root c @
     le32 (c_time_on_wire c) @ [0] @ le32 (c_nbits c) @ le32 (c_txcount c) @
     [c_flags c, c_xor_clear_bits c] @ xor_key_hash sha (c_xor_key c)"

definition h2 :: "hash_fun \<Rightarrow> commitment \<Rightarrow> bytes" where
  "h2 sha c =
     (let h1 = tagged_sha256 sha ''Bitcoin block header 1'' (h1_preimage sha c) in
      tagged_sha256 sha ''Merge-mining hook'' (h1 @ replicate 32 0 @ c_rhs c))"

definition xor_mask :: "hash_fun \<Rightarrow> bytes \<Rightarrow> u8 \<Rightarrow> bytes" where
  "xor_mask sha key clear_bits =
     (if list_all (\<lambda>b. b = 0) key then replicate 32 0
      else
        let m = tagged_sha256 sha ''Bitcoin block hash PoW XOR mask'' key;
            n = unat (clear_bits div 8);
            r = unat (clear_bits mod 8);
            m = replicate n 0 @ drop n m
        in if n < 32 then m[n := (m ! n) AND drop_bit r 0xff] else m)"

definition sia_coinb1 :: "bytes \<Rightarrow> bytes" where
  "sia_coinb1 h = replicate 3 0 @ h @ replicate 4 0"

definition work_root :: "hash_fun \<Rightarrow> bytes \<Rightarrow> bytes \<Rightarrow> bytes" where
  "work_root blake h extranonce = blake ([0] @ sia_coinb1 h @ extranonce)"

definition sia_prevhash :: "hash_fun \<Rightarrow> bytes \<Rightarrow> bytes" where
  "sia_prevhash sha prev_internal =
     replicate 6 0 @ drop 6 (tagged_sha256 sha ''Bitcoin prevblock header, hashed'' (rev prev_internal))"

definition work_header :: "bytes \<Rightarrow> bytes \<Rightarrow> bytes \<Rightarrow> bytes \<Rightarrow> bytes" where
  "work_header sia_prev nonce8 ntime8 root = sia_prev @ nonce8 @ ntime8 @ root"

definition pow_hash_le :: "hash_fun \<Rightarrow> hash_fun \<Rightarrow> bytes \<Rightarrow> bytes \<Rightarrow> u8 \<Rightarrow> bytes" where
  "pow_hash_le sha blake work xor_key clear_bits =
     rev (map2 (XOR) (blake work) (xor_mask sha xor_key clear_bits))"

record job_work =
  jw_sia_prev :: bytes
  jw_root :: bytes
  jw_mask :: bytes

definition job_work_new :: "hash_fun \<Rightarrow> hash_fun \<Rightarrow> commitment \<Rightarrow> bytes \<Rightarrow> job_work" where
  "job_work_new sha blake c extranonce =
     \<lparr>jw_sia_prev = sia_prevhash sha (c_prev_hash c),
      jw_root = work_root blake (h2 sha c) extranonce,
      jw_mask = xor_mask sha (c_xor_key c) (c_xor_clear_bits c)\<rparr>"

definition job_work_hash :: "hash_fun \<Rightarrow> job_work \<Rightarrow> bytes \<Rightarrow> bytes \<Rightarrow> bytes" where
  "job_work_hash blake jw nonce8 ntime8 =
     rev (map2 (XOR) (blake (work_header (jw_sia_prev jw) nonce8 ntime8 (jw_root jw))) (jw_mask jw))"

section \<open>Targets\<close>

text \<open>The loop over \<open>0..31\<close> reads \<open>n[i + 1]\<close> before it is overwritten, so each byte is its own high
  bits and the low bits of its old neighbour.\<close>

fun shr_bits :: "nat \<Rightarrow> bytes \<Rightarrow> bytes" where
  "shr_bits r (a # b # bs) = (drop_bit r a OR push_bit (8 - r) b) # shr_bits r (b # bs)"
| "shr_bits r [a] = [drop_bit r a]"
| "shr_bits r [] = []"

definition shr_le :: "bytes \<Rightarrow> nat \<Rightarrow> bytes" where
  "shr_le n bits =
     (let k = bits div 8; r = bits mod 8;
          n = (if 0 < k then drop k n @ replicate k 0 else n)
      in if 0 < r then shr_bits r n else n)"

definition share_target_le :: "u8 \<Rightarrow> bytes option" where
  "share_target_le pot =
     (if 224 \<le> pot then None
      else Some (shr_le (replicate 28 0xff @ replicate 4 0) (unat pot)))"

fun place_bytes :: "bytes \<Rightarrow> nat \<Rightarrow> bytes \<Rightarrow> bytes option" where
  "place_bytes t i [] = Some t"
| "place_bytes t i (b # bs) =
     (if i < 32 then place_bytes (t[i := b]) (i + 1) bs
      else if b \<noteq> 0 then None else place_bytes t (i + 1) bs)"

definition nbits_to_target_le :: "u32 \<Rightarrow> bytes option" where
  "nbits_to_target_le nbits =
     (let ex = unat (drop_bit 24 nbits); mant = nbits AND 0x007fffff in
      if nbits AND 0x00800000 \<noteq> 0 \<or> mant = 0 then None
      else if ex \<le> 3 then Some (le32 (drop_bit (8 * (3 - ex)) mant) @ replicate 28 0)
      else if 32 < ex then None
      else place_bytes (replicate 32 0) (ex - 3) (take 3 (le32 mant)))"

text \<open>The comparison runs from the most significant byte down.\<close>

fun le_from_top :: "bytes \<Rightarrow> bytes \<Rightarrow> bool" where
  "le_from_top (a # as) (b # bs) = (if a \<noteq> b then a < b else le_from_top as bs)"
| "le_from_top _ _ = True"

definition meets_target :: "bytes \<Rightarrow> bytes \<Rightarrow> bool" where
  "meets_target hash_le target_le = le_from_top (rev hash_le) (rev target_le)"

definition leading_zeros8 :: "u8 \<Rightarrow> nat" where
  "leading_zeros8 b =
     (if b = 0 then 8 else if b < 2 then 7 else if b < 4 then 6 else if b < 8 then 5
      else if b < 16 then 4 else if b < 32 then 3 else if b < 64 then 2 else if b < 128 then 1 else 0)"

fun leading_zeros_from_top :: "bytes \<Rightarrow> nat" where
  "leading_zeros_from_top [] = 0"
| "leading_zeros_from_top (b # bs) =
     (if b = 0 then 8 + leading_zeros_from_top bs else leading_zeros8 b)"

definition hash_pot :: "bytes \<Rightarrow> nat" where
  "hash_pot hash_le = leading_zeros_from_top (rev hash_le) - 32"

definition share_ntime :: "u32 \<Rightarrow> bytes \<Rightarrow> u8 \<Rightarrow> u32" where
  "share_ntime time_on_wire ntime8 flags =
     (if flags AND FLAG_USE_TIME_OFFSET = 0 then time_on_wire
      else time_on_wire + of_le (take 4 ntime8))"

definition serialize_header_v2 :: "commitment \<Rightarrow> bytes \<Rightarrow> bytes \<Rightarrow> bytes \<Rightarrow> bytes" where
  "serialize_header_v2 c nonce8 ntime8 extranonce =
     le32 (c_version c OR V2_BIT) @ c_prev_hash c @ c_merkle_root c @ le32 (c_time_on_wire c) @
     le32 (c_nbits c) @ nonce8 @ take 4 (drop 4 ntime8) @ replicate 4 0 @ extranonce @ take 4 ntime8 @
     le16 (ucast (c_txcount c)) @ [c_flags c, c_xor_clear_bits c] @ c_xor_key c @
     le32 (c_height c) @ c_rhs c"

section \<open>Bytes as numbers\<close>

lemma le_nat_replicate_ff: "le_nat (replicate n 0xff) + 1 = 256 ^ n"
proof (induction n)
  case (Suc n)
  have "unat (0xff :: u8) = 255" by simp
  then show ?case using Suc by (simp only: replicate_Suc le_nat.simps) simp
qed simp

lemma le_nat_drop: "le_nat (drop k bs) = le_nat bs div 256 ^ k"
proof (cases "k \<le> length bs")
  case True
  have "le_nat bs = le_nat (take k bs) + 256 ^ k * le_nat (drop k bs)"
    using le_nat_app [of "take k bs" "drop k bs"] True by simp
  moreover have "le_nat (take k bs) < 256 ^ k" using le_nat_less [of "take k bs"] True by simp
  ultimately show ?thesis by simp
next
  case False
  then have "(256 :: nat) ^ length bs \<le> 256 ^ k" by (intro power_increasing) simp_all
  then have "le_nat bs < 256 ^ k" using le_nat_less [of bs] by (rule less_le_trans [rotated])
  then show ?thesis using False by simp
qed

lemma unat_drop_bit: "unat (drop_bit r a) = unat a div 2 ^ r"
  using unat_lt [of a] by (simp only: unsigned_drop_bit_eq) (simp add: drop_bit_eq_div take_bit_nat_eq_self)

lemma unat_or_push8:
  assumes "0 < r" "r < 8"
  shows "unat (drop_bit r a OR push_bit (8 - r) (b :: u8)) = unat a div 2 ^ r + (unat b mod 2 ^ r) * 2 ^ (8 - r)"
proof -
  have "drop_bit r a OR push_bit (8 - r) b = drop_bit r a + push_bit (8 - r) b"
    by (rule disjunctive_add_eq_or [symmetric], rule bit_eqI)
      (auto simp: bit_simps dest: bit_imp_le_length)
  moreover have d: "unat (drop_bit r a) = unat a div 2 ^ r"
    by (rule unat_drop_bit)
  moreover have p: "unat (push_bit (8 - r) b) = (unat b mod 2 ^ r) * 2 ^ (8 - r)"
  proof -
    have e: "8 = r + (8 - r)" using assms by simp
    have "unat (push_bit (8 - r) b) = take_bit 8 (push_bit (8 - r) (unat b))"
      by (simp add: unsigned_push_bit_eq)
    also have "\<dots> = push_bit (8 - r) (take_bit (8 - (8 - r)) (unat b))"
      by (simp add: take_bit_push_bit)
    also have "8 - (8 - r) = r" using assms by simp
    finally show ?thesis by (simp add: take_bit_eq_mod push_bit_eq_mult)
  qed
  moreover have "unat a div 2 ^ r + (unat b mod 2 ^ r) * 2 ^ (8 - r) < 2 ^ 8"
  proof -
    have e: "(2 :: nat) ^ 8 = 2 ^ r * 2 ^ (8 - r)" using assms by (simp flip: power_add)
    have "unat a < 2 ^ r * 2 ^ (8 - r)" using unat_lt [of a] e by simp
    then have "unat a div 2 ^ r < 2 ^ (8 - r)" by (simp add: less_mult_imp_div_less mult.commute)
    moreover have "(unat b mod 2 ^ r + 1) * 2 ^ (8 - r) \<le> 2 ^ r * 2 ^ (8 - r)"
      by (intro mult_le_mono1) (simp add: Suc_le_eq)
    ultimately show ?thesis using e by (simp add: algebra_simps)
  qed
  ultimately show ?thesis by (simp add: unat_word_ariths)
qed

lemma div_shift_carry:
  fixes a y :: nat
  assumes "r \<le> 8"
  shows "(a + 256 * y) div 2 ^ r = a div 2 ^ r + (y mod 2 ^ r) * 2 ^ (8 - r) + 256 * (y div 2 ^ r)"
proof -
  have e: "(256 :: nat) = 2 ^ r * 2 ^ (8 - r)" using assms by (simp flip: power_add)
  have p: "0 < (2 :: nat) ^ r" by simp
  have "a + 256 * y = a + 2 ^ r * (2 ^ (8 - r) * y)" by (simp only: e mult.assoc)
  then have "(a + 256 * y) div 2 ^ r = a div 2 ^ r + 2 ^ (8 - r) * y"
    by (simp only: div_mult_self2 [of "2 ^ r" a "2 ^ (8 - r) * y"]) simp
  also have "2 ^ (8 - r) * y = 2 ^ (8 - r) * (y mod 2 ^ r + 2 ^ r * (y div 2 ^ r))" by simp
  also have "\<dots> = (y mod 2 ^ r) * 2 ^ (8 - r) + 256 * (y div 2 ^ r)"
    by (simp only: e distrib_left) (simp only: mult.commute mult.left_commute)
  finally show ?thesis by simp
qed

lemma shr_bits_value:
  assumes "0 < r" "r < 8"
  shows "le_nat (shr_bits r bs) = le_nat bs div 2 ^ r"
  using assms
proof (induction r bs rule: shr_bits.induct)
  case (1 r a b bs)
  let ?y = "le_nat (b # bs)"
  have "(2 :: nat) ^ r dvd 256"
    using le_imp_power_dvd [of r 8 "2 :: nat"] "1.prems" by simp
  then have "?y mod 2 ^ r = unat b mod 2 ^ r" by (simp add: mod_add_right_eq [symmetric] mod_mult_left_eq
      dvd_imp_mod_0 flip: mod_mult_left_eq)
  then show ?case
    using 1 div_shift_carry [of r "unat a" ?y] unat_or_push8 [of r a b] by simp
next
  case (2 r a)
  show ?case by (simp add: unat_drop_bit)
qed simp

lemma length_shr_bits [simp]: "length (shr_bits r bs) = length bs"
  by (induction r bs rule: shr_bits.induct) simp_all

lemma shr_le_value:
  assumes "bits div 8 \<le> length n"
  shows "le_nat (shr_le n bits) = le_nat n div 2 ^ bits \<and> length (shr_le n bits) = length n"
proof -
  let ?k = "bits div 8" and ?r = "bits mod 8"
  define m where "m = (if 0 < ?k then drop ?k n @ replicate ?k 0 else n)"
  have m: "le_nat m = le_nat n div 256 ^ ?k" "length m = length n"
    using assms by (simp_all add: m_def le_nat_app le_nat_drop)
  have "bits = 8 * ?k + ?r" by simp
  then have "(2 :: nat) ^ bits = 2 ^ (8 * ?k + ?r)" by (rule arg_cong)
  also have "\<dots> = (2 ^ 8) ^ ?k * 2 ^ ?r" by (simp only: power_add power_mult)
  also have "(2 :: nat) ^ 8 = 256" by simp
  finally have b: "(2 :: nat) ^ bits = 256 ^ ?k * 2 ^ ?r" .
  have "shr_le n bits = (if 0 < ?r then shr_bits ?r m else m)"
    by (simp add: shr_le_def Let_def m_def)
  then show ?thesis using m by (simp add: b div_mult2_eq shr_bits_value)
qed

text \<open>The share target of a power-of-two difficulty as a number.\<close>

lemma share_target_value:
  assumes "share_target_le pot = Some t"
  shows "length t = 32 \<and> le_nat t = (2 ^ 224 - 1) div 2 ^ unat pot \<and> unat pot < 224"
proof -
  have p: "unat pot < 224" and t: "t = shr_le (replicate 28 0xff @ replicate 4 0) (unat pot)"
    using assms by (auto simp: share_target_le_def word_le_nat_alt split: if_splits)
  have "le_nat (replicate 28 0xff @ replicate 4 (0 :: u8)) = 2 ^ 224 - 1"
    using le_nat_replicate_ff [of 28] by (simp only: le_nat_app le_nat_replicate_0) simp
  then show ?thesis
    using p shr_le_value [of "unat pot" "replicate 28 0xff @ replicate 4 0"] by (simp add: t)
qed

lemma share_target_some: "share_target_le pot \<noteq> None \<longleftrightarrow> unat pot < 224"
  by (auto simp: share_target_le_def word_le_nat_alt)

section \<open>Comparison\<close>

fun be_nat :: "bytes \<Rightarrow> nat" where
  "be_nat [] = 0"
| "be_nat (b # bs) = unat b * 256 ^ length bs + be_nat bs"

lemma be_nat_append: "be_nat (xs @ ys) = be_nat xs * 256 ^ length ys + be_nat ys"
  by (induction xs) (simp_all add: algebra_simps power_add)

lemma be_nat_rev: "be_nat (rev bs) = le_nat bs"
  by (induction bs) (simp_all add: be_nat_append)

lemma be_nat_less: "be_nat bs < 256 ^ length bs"
  using le_nat_less [of "rev bs"] be_nat_rev [of "rev bs"] by simp

lemma le_from_top_iff:
  "length as = length bs \<Longrightarrow> le_from_top as bs \<longleftrightarrow> be_nat as \<le> be_nat bs"
proof (induction as bs rule: le_from_top.induct)
  case (1 a as' b bs')
  let ?n = "256 ^ length bs' :: nat"
  have l: "length as' = length bs'" and x: "be_nat as' < ?n" and y: "be_nat bs' < ?n"
    using "1.prems" be_nat_less [of as'] be_nat_less [of bs'] by simp_all
  show ?case
  proof (cases "a = b")
    case True
    then show ?thesis using 1 l by simp
  next
    case False
    have lt: "be_nat (a' # as') < be_nat (b' # bs')" if "unat a' < unat b'" "length as' = length bs'"
      "be_nat as' < 256 ^ length bs'" for a' b' :: u8 and as' bs'
    proof -
      have "(unat a' + 1) * 256 ^ length bs' \<le> unat b' * 256 ^ length bs'"
        using that(1) by (intro mult_le_mono1) simp
      then show ?thesis using that by simp
    qed
    have "unat a \<noteq> unat b" using False by (simp add: word_unat_eq_iff)
    then consider "unat a < unat b" | "unat b < unat a" by linarith
    then show ?thesis
      using False lt [of a b as' bs'] lt [of b a bs' as'] l x y
      by cases (auto simp: word_less_nat_alt)
  qed
qed simp_all

lemma meets_target_iff:
  "length h = length t \<Longrightarrow> meets_target h t \<longleftrightarrow> le_nat h \<le> le_nat t"
  by (simp add: meets_target_def le_from_top_iff be_nat_rev)

section \<open>Leading zeros\<close>

lemma leading_zeros8_iff:
  assumes "b \<noteq> 0"
  shows "k \<le> leading_zeros8 b \<longleftrightarrow> k \<le> 7 \<and> unat b < 2 ^ (8 - k)"
proof -
  have b: "0 < unat b" "unat b < 256" using assms unat_lt [of b] by (simp_all add: unat_gt_0)
  have lz: "leading_zeros8 b = (if unat b < 2 then 7 else if unat b < 4 then 6 else if unat b < 8 then 5
      else if unat b < 16 then 4 else if unat b < 32 then 3 else if unat b < 64 then 2 else if unat b < 128 then 1 else 0)"
    using assms by (simp add: leading_zeros8_def word_less_nat_alt)
  consider "7 < k" | "k = 0" | "k = 1" | "k = 2" | "k = 3" | "k = 4" | "k = 5" | "k = 6" | "k = 7"
    by linarith
  then show ?thesis using b by cases (auto simp: lz)
qed

lemma leading_zeros_iff:
  "k \<le> 8 * length bs \<Longrightarrow> k \<le> leading_zeros_from_top bs \<longleftrightarrow> be_nat bs < 2 ^ (8 * length bs - k)"
proof (induction bs arbitrary: k)
  case Nil
  then show ?case by simp
next
  case (Cons b bs)
  let ?n = "256 ^ length bs :: nat"
  have n: "?n = 2 ^ (8 * length bs)" by (simp add: power_mult)
  have r: "be_nat bs < ?n" by (rule be_nat_less)
  show ?case
  proof (cases "b = 0")
    case True
    show ?thesis
    proof (cases "k \<le> 8")
      case True
      have "(2 :: nat) ^ (8 * length bs) \<le> 2 ^ (8 * length (b # bs) - k)"
        using True by (intro power_increasing) simp_all
      with r n have "be_nat bs < 2 ^ (8 * length (b # bs) - k)" by linarith
      then show ?thesis using True \<open>b = 0\<close> by simp
    next
      case False
      with Cons.IH [of "k - 8"] Cons.prems \<open>b = 0\<close> show ?thesis by (simp add: le_diff_conv add.commute)
    qed
  next
    case False
    then have b: "0 < unat b" by (simp add: unat_gt_0)
    show ?thesis
    proof (cases "k \<le> 8")
      case True
      have e: "(2 :: nat) ^ (8 * length (b # bs) - k) = 2 ^ (8 - k) * ?n"
        using True by (simp add: n flip: power_add)
      have "be_nat (b # bs) < 2 ^ (8 - k) * ?n \<longleftrightarrow> unat b < 2 ^ (8 - k)"
      proof
        assume "be_nat (b # bs) < 2 ^ (8 - k) * ?n"
        then have "unat b * ?n < 2 ^ (8 - k) * ?n" unfolding be_nat.simps by linarith
        then show "unat b < 2 ^ (8 - k)" by simp
      next
        assume "unat b < 2 ^ (8 - k)"
        then have "(unat b + 1) * ?n \<le> 2 ^ (8 - k) * ?n" by (intro mult_le_mono1) simp
        then show "be_nat (b # bs) < 2 ^ (8 - k) * ?n" using r by simp
      qed
      moreover have "k \<le> leading_zeros_from_top (b # bs) \<longleftrightarrow> unat b < 2 ^ (8 - k)"
        using False True b leading_zeros8_iff [OF False, of k] by (cases "k = 8") simp_all
      ultimately show ?thesis by (simp only: e)
    next
      case False
      then have "(2 :: nat) ^ (8 * length (b # bs) - k) \<le> ?n" by (simp add: n)
      also have "\<dots> \<le> unat b * ?n" using b by simp
      finally have "\<not> be_nat (b # bs) < 2 ^ (8 * length (b # bs) - k)" by simp
      then show ?thesis using False \<open>b \<noteq> 0\<close> leading_zeros8_iff [OF \<open>b \<noteq> 0\<close>, of k] by simp
    qed
  qed
qed

lemma hash_pot_iff:
  assumes "length h = 32" and "0 < pot" and "pot < 224"
  shows "pot \<le> hash_pot h \<longleftrightarrow> le_nat h < 2 ^ (224 - pot)"
proof -
  have "pot \<le> hash_pot h \<longleftrightarrow> pot + 32 \<le> leading_zeros_from_top (rev h)"
    using assms(2) by (auto simp: hash_pot_def)
  also have "\<dots> \<longleftrightarrow> le_nat h < 2 ^ (256 - (pot + 32))"
    using leading_zeros_iff [of "pot + 32" "rev h"] assms by (simp add: be_nat_rev)
  also have "256 - (pot + 32) = 224 - pot" by simp
  finally show ?thesis .
qed

lemma pow_pred_div: "k \<le> n \<Longrightarrow> (2 ^ n - 1) div 2 ^ k = (2 ^ (n - k) - 1 :: nat)"
proof -
  assume k: "k \<le> n"
  have "(2 :: nat) ^ n = 2 ^ k * 2 ^ (n - k)" using k by (simp flip: power_add)
  moreover have "(2 :: nat) ^ k * 2 ^ (n - k) - 1 = (2 ^ k - 1) + 2 ^ k * (2 ^ (n - k) - 1)"
    by (simp add: algebra_simps)
  moreover have "((2 ^ k - 1) + 2 ^ k * (2 ^ (n - k) - 1)) div 2 ^ k = (2 ^ (n - k) - 1 :: nat)"
    by (subst div_mult_self2) simp_all
  ultimately show ?thesis by simp
qed

section \<open>Properties of targets\<close>

text \<open>
  C38: A share meets its target exactly when its hash, read as a number, is small enough.  For every
  difficulty \<open>pot\<close> below 224 there is a target, it is \<open>(2^224 - 1) >> pot\<close>, and a 32-byte hash meets it
  exactly when it is below \<open>2^(224 - pot)\<close>; from 224 on there is none.
\<close>

theorem share_target_meaning:
  assumes "length h = 32"
  shows "case share_target_le pot of
     None \<Rightarrow> 224 \<le> unat pot
   | Some t \<Rightarrow> unat pot < 224 \<and> length t = 32 \<and> le_nat t = (2 ^ 224 - 1) div 2 ^ unat pot \<and>
       (meets_target h t \<longleftrightarrow> le_nat h < 2 ^ (224 - unat pot))"
proof (cases "share_target_le pot")
  case None
  then show ?thesis using share_target_some [of pot] by simp
next
  case (Some t)
  note v = share_target_value [OF Some]
  have "le_nat t = 2 ^ (224 - unat pot) - 1" using v pow_pred_div [of "unat pot" 224] by simp
  moreover have "0 < (2 :: nat) ^ (224 - unat pot)" by simp
  ultimately have "le_nat h \<le> le_nat t \<longleftrightarrow> le_nat h < 2 ^ (224 - unat pot)" by linarith
  then show ?thesis using Some v assms by (simp add: meets_target_iff)
qed

theorem share_target_meaning_witness:
  "case share_target_le 3 of None \<Rightarrow> False
   | Some t \<Rightarrow> meets_target (replicate 32 0) t \<and> \<not> meets_target (replicate 32 0xff) t"
proof -
  have "le_nat (replicate 32 0xff) + 1 = 256 ^ 32" by (rule le_nat_replicate_ff)
  then show ?thesis
    using share_target_meaning [of "replicate 32 0" 3] share_target_meaning [of "replicate 32 0xff" 3]
    by (auto split: option.splits)
qed

text \<open>
  The difficulty in the log is the difficulty that was met.  For a 32-byte hash and a
  difficulty of at least 1, the hash meets the share target exactly when \<open>hash_pot\<close> reports at
  least that difficulty.
\<close>

theorem hash_pot_meets:
  assumes "length h = 32" and "share_target_le pot = Some t" and "pot \<noteq> 0"
  shows "meets_target h t \<longleftrightarrow> unat pot \<le> hash_pot h"
proof -
  note v = share_target_value [OF assms(2)]
  have p: "0 < unat pot" using assms(3) by (simp add: unat_gt_0)
  have "le_nat t = 2 ^ (224 - unat pot) - 1" using v pow_pred_div [of "unat pot" 224] by simp
  moreover have "0 < (2 :: nat) ^ (224 - unat pot)" by simp
  ultimately have "le_nat h \<le> le_nat t \<longleftrightarrow> le_nat h < 2 ^ (224 - unat pot)" by linarith
  then show ?thesis
    using hash_pot_iff [of h "unat pot"] p v assms(1) by (simp add: meets_target_iff)
qed

theorem hash_pot_meets_witness:
  "\<exists>t. share_target_le 5 = Some t \<and> (meets_target (replicate 32 0) t \<longleftrightarrow> 5 \<le> hash_pot (replicate 32 0))"
proof -
  obtain t where t: "share_target_le 5 = Some t" using share_target_some [of 5] by auto
  from hash_pot_meets [of "replicate 32 0", OF _ t] t show ?thesis by simp
qed

lemma place_bytes_inside:
  "length pre + m \<le> 32 \<Longrightarrow> length bs \<le> m \<Longrightarrow>
   place_bytes (pre @ replicate m 0) (length pre) bs = Some (pre @ bs @ replicate (m - length bs) 0)"
proof (induction bs arbitrary: pre m)
  case (Cons b bs)
  then obtain m' where m: "m = Suc m'" by (cases m) simp_all
  have "place_bytes (pre @ replicate m 0) (length pre) (b # bs) =
      place_bytes ((pre @ [b]) @ replicate m' 0) (length (pre @ [b])) bs"
    using Cons.prems by (simp add: m list_update_append)
  also have "\<dots> = Some ((pre @ [b]) @ bs @ replicate (m' - length bs) 0)"
    using Cons.prems m by (intro Cons.IH) simp_all
  finally show ?case by (simp add: m)
qed simp

lemma le_nat_take_le32:
  assumes "unat w < 256 ^ 3"
  shows "le_nat (take 3 (le32 w)) = unat w"
proof -
  have "le_nat (le32 w) = unat w" by (rule le_nat_words)
  moreover have "le_nat (le32 w) = le_nat (take 3 (le32 w)) + 256 ^ 3 * le_nat (drop 3 (le32 w))"
    using le_nat_app [of "take 3 (le32 w)" "drop 3 (le32 w)"] by simp
  moreover from calculation assms have "le_nat (drop 3 (le32 w)) = 0" by (cases "le_nat (drop 3 (le32 w))") auto
  ultimately show ?thesis by simp
qed

definition compact_mant :: "u32 \<Rightarrow> nat" where "compact_mant nbits = unat (nbits AND 0x007fffff)"
definition compact_exp :: "u32 \<Rightarrow> nat" where "compact_exp nbits = unat nbits div 2 ^ 24"

text \<open>
  A compact target decodes to the number it abbreviates.  \<open>nbits_to_target_le\<close> refuses exactly
  the negative, the zero and the too large encodings, and otherwise the 32-byte target is the
  23-bit mantissa shifted by the exponent, truncated below exponent 3.
\<close>

theorem nbits_target_meaning:
  "case nbits_to_target_le nbits of
     None \<Rightarrow> bit nbits 23 \<or> compact_mant nbits = 0 \<or> 32 < compact_exp nbits
   | Some t \<Rightarrow> length t = 32 \<and>
       le_nat t = compact_mant nbits * 256 ^ compact_exp nbits div 256 ^ 3 \<and>
       \<not> bit nbits 23 \<and> compact_mant nbits \<noteq> 0 \<and> compact_exp nbits \<le> 32"
proof -
  let ?m = "nbits AND 0x007fffff" and ?e = "unat (drop_bit 24 nbits)"
  have e: "?e = compact_exp nbits" by (simp add: unat_drop_bit compact_exp_def)
  have "?m = take_bit 23 nbits" by (simp add: take_bit_eq_mask mask_eq_exp_minus_1)
  then have m: "unat ?m < 2 ^ 23" using take_bit_nat_less_exp [of 23 "unat nbits"] by (simp add: unsigned_take_bit_eq)
  have low: "le_nat (le32 (drop_bit (8 * (3 - ?e)) ?m) @ replicate 28 0) = unat ?m * 256 ^ ?e div 256 ^ 3" if "?e \<le> 3"
  proof -
    have c: "(256 :: nat) ^ 3 = 256 ^ (3 - ?e) * 256 ^ ?e" using that by (simp flip: power_add)
    have "unat ?m * 256 ^ ?e div 256 ^ 3 = unat ?m * 256 ^ ?e div (256 ^ (3 - ?e) * 256 ^ ?e)"
      by (simp only: c)
    also have "\<dots> = unat ?m div 256 ^ (3 - ?e)" by simp
    also have "(256 :: nat) ^ (3 - ?e) = 2 ^ (8 * (3 - ?e))" by (simp add: power_mult)
    finally show ?thesis
      by (simp only: mult_0_right add_0_right le_nat_app le_nat_words le_nat_replicate_0 unat_drop_bit)
  qed
  have high: "place_bytes (replicate 32 0) (?e - 3) (take 3 (le32 ?m)) =
      Some (replicate (?e - 3) 0 @ take 3 (le32 ?m) @ replicate (32 - ?e) 0) \<and>
      le_nat (replicate (?e - 3) 0 @ take 3 (le32 ?m) @ replicate (32 - ?e) 0) = unat ?m * 256 ^ ?e div 256 ^ 3"
    if "3 < ?e" "?e \<le> 32"
  proof -
    have "replicate 32 (0 :: u8) = replicate (?e - 3) 0 @ replicate (35 - ?e) 0"
      using that by (simp flip: replicate_add)
    moreover have "(256 :: nat) ^ ?e = 256 ^ (?e - 3) * 256 ^ 3"
    proof -
      have "?e = (?e - 3) + 3" using that by simp
      then have "(256 :: nat) ^ ?e = 256 ^ ((?e - 3) + 3)" by (rule arg_cong)
      then show ?thesis by (simp only: power_add)
    qed
    moreover have "le_nat (take 3 (le32 ?m)) = unat ?m" using m by (intro le_nat_take_le32) simp
    ultimately show ?thesis
      using that place_bytes_inside [of "replicate (?e - 3) 0" "35 - ?e" "take 3 (le32 ?m)"]
      by (simp add: le_nat_app)
  qed
  have sign: "nbits AND 0x00800000 = 0 \<longleftrightarrow> \<not> bit nbits 23"
    using and_exp_eq_0_iff_not_bit [of nbits 23] by simp
  show ?thesis
    unfolding nbits_to_target_le_def Let_def compact_mant_def e [symmetric]
    using low high m by (auto simp: unat_eq_0 sign)
qed

section \<open>Merkle branches\<close>

text \<open>The block's own merkle tree over all transaction ids, the coinbase first.\<close>

fun txid_pairs :: "hash_fun \<Rightarrow> bytes list \<Rightarrow> bytes list" where
  "txid_pairs sha (a # b # rest) = sha256d sha (a @ b) # txid_pairs sha rest"
| "txid_pairs sha _ = []"

lemma length_txid_pairs [simp]: "length (txid_pairs sha level) = length level div 2"
  by (induction sha level rule: txid_pairs.induct) auto

function block_merkle_root :: "hash_fun \<Rightarrow> bytes list \<Rightarrow> bytes" where
  "block_merkle_root sha level =
     (if 1 < length level
      then block_merkle_root sha (txid_pairs sha (if odd (length level) then level @ [last level] else level))
      else hd level)"
  by pat_completeness auto
termination
  by (relation "measure (\<lambda>(sha, level). length level)") (auto elim!: oddE)

declare block_merkle_root.simps [simp del]

lemma merkle_pairs_Some: "merkle_pairs sha (map Some xs) = map Some (txid_pairs sha xs)"
  by (induction sha xs rule: txid_pairs.induct) auto

text \<open>Pairing up the level with the coinbase path left open agrees with pairing it up for any value
  of that path, which then is hashed with its sibling.\<close>

lemma merkle_level_root:
  "\<exists>bs. merkle_branches_level sha (None # map Some rest) = Some bs \<and>
     (\<forall>acc. merkle_root sha acc bs = block_merkle_root sha (acc # rest))"
proof (induction "length rest" arbitrary: rest rule: less_induct)
  case less
  show ?case
  proof (cases rest)
    case Nil
    then show ?thesis by (simp add: merkle_branches_level.simps block_merkle_root.simps)
  next
    case (Cons b r)
    define up where "up = (if odd (length (b # rest)) then r @ [last rest] else r)"
    have lev: "(if odd (length (None # map Some rest)) then (None # map Some rest) @ [last (None # map Some rest)]
        else None # map Some rest) = None # Some b # map Some up"
      by (cases "r = []") (simp_all add: Cons up_def last_map)
    have p: "merkle_pairs sha (if odd (length (None # map Some rest))
          then (None # map Some rest) @ [last (None # map Some rest)] else None # map Some rest) =
        None # map Some (txid_pairs sha up)"
      unfolding lev by (simp add: merkle_pairs_Some)
    have q: "txid_pairs sha (if odd (length (acc # rest)) then (acc # rest) @ [last (acc # rest)] else acc # rest) =
        sha256d sha (acc @ b) # txid_pairs sha up" for acc
      by (simp add: Cons up_def)
    have "length (txid_pairs sha up) < length rest"
      by (auto simp: Cons up_def less_Suc_eq_le elim!: oddE)
    from less [OF this] obtain bs where bs: "merkle_branches_level sha (None # map Some (txid_pairs sha up)) = Some bs"
      and root: "\<And>acc. merkle_root sha acc bs = block_merkle_root sha (acc # txid_pairs sha up)" by blast
    have "merkle_branches_level sha (None # map Some rest) = Some (b # bs)"
      by (subst merkle_branches_level.simps) (simp only: p bs, simp add: Cons)
    moreover have "merkle_root sha acc (b # bs) = block_merkle_root sha (acc # rest)" for acc
      by (subst block_merkle_root.simps) (simp only: q, simp add: Cons root)
    ultimately show ?thesis by blast
  qed
qed

text \<open>
  Folding the stratum branches over the coinbase id gives the block's merkle root.  For any
  transaction list the branch computation finds its sibling at every level (the \<open>expect\<close> never
  fires), and for whatever coinbase id a share later has, \<open>merkle_root\<close> over the branches is the
  root of the tree over the coinbase and the transactions, odd levels duplicated as Bitcoin does.
\<close>

theorem merkle_branches_root:
  "\<exists>bs. merkle_branches_for_coinbase sha txids = Some bs \<and>
     (\<forall>txid. merkle_root sha txid bs = block_merkle_root sha (txid # txids))"
  unfolding merkle_branches_for_coinbase_def by (rule merkle_level_root)

section \<open>The header\<close>

definition commitment_ok :: "commitment \<Rightarrow> bool" where
  "commitment_ok c \<longleftrightarrow> length (c_prev_hash c) = 32 \<and> length (c_merkle_root c) = 32 \<and>
     length (c_xor_key c) = 16 \<and> length (c_rhs c) = 32"

text \<open>What the 164 bytes keep of a commitment: the version with its v2 bit, the transaction count at
  16 bits.\<close>

definition committed :: "commitment \<Rightarrow> commitment" where
  "committed c = c\<lparr>c_version := c_version c OR V2_BIT, c_txcount := ucast (ucast (c_txcount c) :: u16)\<rparr>"

lemma ucast16_32_inject: "(ucast (a :: u16) :: u32) = ucast b \<longleftrightarrow> a = b"
proof
  assume "(ucast a :: u32) = ucast b"
  then have "unat (ucast a :: u32) = unat (ucast b :: u32)" by simp
  then show "a = b" by (simp add: unat_ucast_up word_unat_eq_iff)
qed simp

lemma ntime_halves:
  assumes "length n = 8" "length m = 8"
  shows "take 4 (drop 4 n) = take 4 (drop 4 m) \<and> take 4 n = take 4 m \<longleftrightarrow> n = m"
proof
  assume "take 4 (drop 4 n) = take 4 (drop 4 m) \<and> take 4 n = take 4 m"
  moreover have "n = take 4 n @ take 4 (drop 4 n)" "m = take 4 m @ take 4 (drop 4 m)" using assms by simp_all
  ultimately show "n = m" by metis
qed simp

text \<open>
  The serialized header is 164 bytes and loses nothing the node needs.  For well-formed
  commitments and grinding fields, two headers are the same bytes exactly when the committed
  fields, the nonce, the time bytes and the extranonce are all the same.
\<close>

theorem header_v2_faithful:
  assumes "commitment_ok c" "commitment_ok c'"
    and "length n = 8" "length n' = 8" "length t = 8" "length t' = 8" "length e = 12" "length e' = 12"
  shows "length (serialize_header_v2 c n t e) = HEADER_V2_LEN \<and>
    (serialize_header_v2 c n t e = serialize_header_v2 c' n' t' e' \<longleftrightarrow>
      committed c = committed c' \<and> n = n' \<and> t = t' \<and> e = e')"
proof -
  have len: "length (serialize_header_v2 c n t e) = HEADER_V2_LEN"
    using assms by (simp add: serialize_header_v2_def HEADER_V2_LEN_def commitment_ok_def)
  have "serialize_header_v2 c n t e = serialize_header_v2 c' n' t' e' \<longleftrightarrow>
      committed c = committed c' \<and> n = n' \<and> e = e' \<and>
        take 4 (drop 4 t) = take 4 (drop 4 t') \<and> take 4 t = take 4 t'"
    using assms unfolding serialize_header_v2_def commitment_ok_def
    by (cases c; cases c') (auto simp: committed_def ucast16_32_inject)
  then show ?thesis using len ntime_halves [OF assms(5,6)] by blast
qed

theorem header_v2_faithful_witness:
  "length (serialize_header_v2
     \<lparr>c_version = 1, c_prev_hash = replicate 32 7, c_height = 5, c_merkle_root = replicate 32 8, c_time_on_wire = 9,
      c_nbits = 10, c_txcount = 11, c_flags = 4, c_xor_clear_bits = 0, c_xor_key = replicate 16 0,
      c_rhs = replicate 32 0\<rparr> (replicate 8 1) (replicate 8 2) (replicate 12 3)) = 164"
proof -
  let ?c = "\<lparr>c_version = 1, c_prev_hash = replicate 32 7, c_height = 5, c_merkle_root = replicate 32 8, c_time_on_wire = 9,
      c_nbits = 10, c_txcount = 11, c_flags = 4, c_xor_clear_bits = 0, c_xor_key = replicate 16 0,
      c_rhs = replicate 32 0\<rparr>"
  have "commitment_ok ?c" by (simp add: commitment_ok_def)
  from header_v2_faithful [OF this this, of "replicate 8 1" "replicate 8 1" "replicate 8 2" "replicate 8 2"
      "replicate 12 3" "replicate 12 3"]
  show ?thesis by (simp add: HEADER_V2_LEN_def)
qed

section \<open>The precomputed job\<close>

lemma job_work_hash_eq:
  "job_work_hash blake (job_work_new sha blake c en) nonce8 ntime8 =
     pow_hash_le sha blake
       (work_header (sia_prevhash sha (c_prev_hash c)) nonce8 ntime8 (work_root blake (h2 sha c) en))
       (c_xor_key c) (c_xor_clear_bits c)"
  by (simp add: job_work_hash_def job_work_new_def pow_hash_le_def)

lemma pow_hash_zero_key:
  "length (blake work) = 32 \<Longrightarrow> pow_hash_le sha blake work (replicate 16 0) b = rev (blake work)"
proof -
  assume l: "length (blake work) = 32"
  have z: "map2 (XOR) xs (replicate (length xs) (0 :: u8)) = xs" for xs by (induction xs) simp_all
  have "xor_mask sha (replicate 16 0) b = replicate 32 0" by (simp add: xor_mask_def list_all_iff)
  then show ?thesis using z [of "blake work"] l by (simp add: pow_hash_le_def)
qed

end
