(* ===== verification/Utf8.thy ===== *)
theory Utf8
  imports Prelude
begin

text \<open>
  \<open>String::from_utf8_lossy\<close> of the standard library, which every decoder applies to a text field:
  each maximal invalid prefix becomes one replacement character.  Shown: the result is always
  well-formed UTF-8, a well-formed string is left alone, and ASCII is well-formed.
\<close>

section \<open>Scanning one sequence\<close>

fun utf8_at :: "nat \<Rightarrow> bytes \<Rightarrow> u8" where
  "utf8_at i [] = 0"
| "utf8_at 0 (b # bs) = b"
| "utf8_at (Suc i) (b # bs) = utf8_at i bs"

definition utf8_cont :: "u8 \<Rightarrow> bool" where
  "utf8_cont b \<longleftrightarrow> 0x80 \<le> b \<and> b \<le> 0xBF"

text \<open>Which second bytes may follow a first byte, with the overlong and surrogate exclusions.\<close>

definition utf8_second :: "u8 \<Rightarrow> u8 \<Rightarrow> bool" where
  "utf8_second a b \<longleftrightarrow>
     utf8_cont b \<and> (a = 0xE0 \<longrightarrow> 0xA0 \<le> b) \<and> (a = 0xED \<longrightarrow> b \<le> 0x9F) \<and>
     (a = 0xF0 \<longrightarrow> 0x90 \<le> b) \<and> (a = 0xF4 \<longrightarrow> b \<le> 0x8F)"

definition utf8_width :: "u8 \<Rightarrow> nat" where
  "utf8_width a =
     (if a < 0x80 then 1 else if 0xC2 \<le> a \<and> a \<le> 0xDF then 2
      else if 0xE0 \<le> a \<and> a \<le> 0xEF then 3 else if 0xF0 \<le> a \<and> a \<le> 0xF4 then 4 else 0)"

text \<open>Whether the sequence at the front is well-formed, and how many bytes it takes.\<close>

definition utf8_scan :: "bytes \<Rightarrow> bool \<times> nat" where
  "utf8_scan bs =
     (let a = utf8_at 0 bs; w = utf8_width a in
      if w = 1 then (True, 1)
      else if w = 0 then (False, 1)
      else if \<not> utf8_second a (utf8_at 1 bs) then (False, 1)
      else if w = 2 then (True, 2)
      else if \<not> utf8_cont (utf8_at 2 bs) then (False, 2)
      else if w = 3 then (True, 3)
      else if \<not> utf8_cont (utf8_at 3 bs) then (False, 3)
      else (True, 4))"

lemma utf8_scan_pos: "utf8_scan bs = (ok, n) \<Longrightarrow> 1 \<le> n \<and> n \<le> 4"
  by (auto simp: utf8_scan_def Let_def split: if_splits)

definition REPLACEMENT :: bytes where "REPLACEMENT = [0xEF, 0xBF, 0xBD]"

function from_utf8_lossy :: "bytes \<Rightarrow> bytes" where
  "from_utf8_lossy bs =
     (if bs = [] then []
      else case utf8_scan bs of (ok, n) \<Rightarrow>
        (if ok then take n bs else REPLACEMENT) @ from_utf8_lossy (drop n bs))"
  by pat_completeness auto
termination
  by (relation "measure length") (auto dest!: utf8_scan_pos [OF sym])

function is_utf8 :: "bytes \<Rightarrow> bool" where
  "is_utf8 bs =
     (if bs = [] then True
      else case utf8_scan bs of (ok, n) \<Rightarrow> ok \<and> is_utf8 (drop n bs))"
  by pat_completeness auto
termination
  by (relation "measure length") (auto dest!: utf8_scan_pos [OF sym])

declare from_utf8_lossy.simps [simp del] is_utf8.simps [simp del]

section \<open>Well-formedness\<close>

lemma utf8_at_not_cont: "length bs \<le> i \<Longrightarrow> utf8_at i bs = 0"
  by (induction i bs rule: utf8_at.induct) auto

lemma utf8_cont_at: "utf8_cont (utf8_at i bs) \<Longrightarrow> i < length bs"
  by (rule ccontr) (simp add: utf8_at_not_cont utf8_cont_def)

lemma utf8_at_append: "i < length xs \<Longrightarrow> utf8_at i (xs @ ys) = utf8_at i xs"
  by (induction i xs rule: utf8_at.induct) auto

lemma utf8_at_take: "i < n \<Longrightarrow> utf8_at i (take n xs) = utf8_at i xs"
  by (induction i xs arbitrary: n rule: utf8_at.induct) (auto simp: take_Cons split: nat.splits)

text \<open>A well-formed sequence lies inside the buffer, and only its own bytes decide that it is one.\<close>

lemma utf8_scan_ok:
  assumes "utf8_scan bs = (True, n)" and "bs \<noteq> []"
  shows "n \<le> length bs \<and> utf8_scan (take n bs @ ys) = (True, n)"
proof -
  have l: "1 \<le> length bs" using assms(2) by (cases bs) simp_all
  have c1: "utf8_second a (utf8_at 1 bs) \<Longrightarrow> 2 \<le> length bs" for a
    using utf8_cont_at [of 1 bs] by (simp add: utf8_second_def)
  have n: "n \<le> length bs"
    using assms(1) l utf8_cont_at [of 2 bs] utf8_cont_at [of 3 bs] c1
    by (auto simp: utf8_scan_def Let_def split: if_splits)
  have eq: "i < n \<Longrightarrow> utf8_at i (take n bs @ ys) = utf8_at i bs" for i
    using n by (simp add: utf8_at_append utf8_at_take)
  have "1 \<le> n" using utf8_scan_pos [OF assms(1)] by simp
  then have z: "utf8_at 0 (take n bs @ ys) = utf8_at 0 bs" by (simp add: eq)
  consider "n = 1" | "n = 2" | "n = 3" | "n = 4" using utf8_scan_pos [OF assms(1)] by linarith
  then show ?thesis
    using n assms(1) z eq [of 1] eq [of 2] eq [of 3]
    by cases (auto simp: utf8_scan_def Let_def split: if_splits)
qed

lemma is_utf8_append:
  "is_utf8 xs \<Longrightarrow> is_utf8 ys \<Longrightarrow> is_utf8 (xs @ ys)"
proof (induction xs rule: is_utf8.induct)
  case (1 xs)
  show ?case
  proof (cases "xs = []")
    case False
    obtain ok n where s: "utf8_scan xs = (ok, n)" by fastforce
    have ok: "ok" and r: "is_utf8 (drop n xs)"
      using "1.prems"(1) False s by (simp_all add: is_utf8.simps [of xs])
    have s': "utf8_scan xs = (True, n)" using s ok by simp
    have n: "n \<le> length xs" and sc: "utf8_scan (take n xs @ drop n xs @ ys) = (True, n)"
      using utf8_scan_ok [OF s' False, of "drop n xs @ ys"] by auto
    from sc have "utf8_scan (xs @ ys) = (True, n)" by (simp flip: append_assoc)
    moreover have "is_utf8 (drop n xs @ ys)" using "1.IH" [OF False s [symmetric] r "1.prems"(2)] ok by blast
    ultimately show ?thesis using False n by (simp add: is_utf8.simps [of "xs @ ys"])
  qed (use "1.prems" in simp)
qed

lemma is_utf8_nil [simp]: "is_utf8 []"
  by (simp add: is_utf8.simps)

lemma is_utf8_chunk:
  assumes "utf8_scan bs = (True, n)" and "bs \<noteq> []"
  shows "is_utf8 (take n bs)"
proof -
  have "utf8_scan (take n bs) = (True, n)" using utf8_scan_ok [OF assms, of "[]"] by simp
  then show ?thesis by (simp add: is_utf8.simps [of "take n bs"])
qed

lemma is_utf8_replacement: "is_utf8 REPLACEMENT"
proof -
  have "utf8_scan REPLACEMENT = (True, 3)"
    by code_simp
  then show ?thesis by (simp add: is_utf8.simps [of REPLACEMENT]) (simp add: REPLACEMENT_def)
qed

lemma from_utf8_lossy_valid: "is_utf8 (from_utf8_lossy bs)"
proof (induction bs rule: from_utf8_lossy.induct)
  case (1 bs)
  show ?case
  proof (cases "bs = []")
    case False
    obtain ok n where s: "utf8_scan bs = (ok, n)" by fastforce
    have r: "is_utf8 (from_utf8_lossy (drop n bs))" by (rule "1.IH" [OF False s [symmetric]])
    have "is_utf8 (if ok then take n bs else REPLACEMENT)"
      using is_utf8_chunk s False is_utf8_replacement by auto
    then have "is_utf8 ((if ok then take n bs else REPLACEMENT) @ from_utf8_lossy (drop n bs))"
      using r by (rule is_utf8_append)
    then show ?thesis using False s by (simp add: from_utf8_lossy.simps [of bs])
  qed (simp add: from_utf8_lossy.simps)
qed

lemma from_utf8_lossy_id: "is_utf8 bs \<Longrightarrow> from_utf8_lossy bs = bs"
proof (induction bs rule: from_utf8_lossy.induct)
  case (1 bs)
  show ?case
  proof (cases "bs = []")
    case False
    obtain ok n where s: "utf8_scan bs = (ok, n)" by fastforce
    with "1.prems" False have "ok" "is_utf8 (drop n bs)" by (simp_all add: is_utf8.simps [of bs])
    with "1.IH" [OF False s [symmetric]] False s show ?thesis
      by (simp add: from_utf8_lossy.simps [of bs])
  qed (simp add: from_utf8_lossy.simps)
qed

lemma ascii_is_utf8: "list_all (\<lambda>b. b < 0x80) bs \<Longrightarrow> is_utf8 bs"
proof (induction bs)
  case (Cons b bs)
  then have "utf8_scan (b # bs) = (True, 1)" by (simp add: utf8_scan_def utf8_width_def)
  with Cons show ?case by (simp add: is_utf8.simps [of "b # bs"])
qed simp

end
