(* ===== verification/Mining.thy ===== *)
theory Mining
  imports Cursor Coinbaser Utf8
begin

text \<open>
  Command 5, the mining sub-commands (\<open>wire/src/mining.rs\<close>): the share submission with its
  optional sections, the job-validation reply, the coinbaser request, and the messages the pool
  sends.  Shown: a submission survives the round trip with any padding behind its terminator, what
  is decoded has the array sizes its types promise, and the pool's messages can be told apart.
\<close>

unbundle bit_operations_syntax

section \<open>Numbers of the protocol\<close>

definition SUB_COINBASER_REQUEST :: u8 where "SUB_COINBASER_REQUEST = 0x10"
definition SUB_COINBASER_REPLY :: u8 where "SUB_COINBASER_REPLY = 0x11"
definition SUB_POW :: u8 where "SUB_POW = 0x27"
definition SUB_JOB_VALIDATION :: u8 where "SUB_JOB_VALIDATION = 0x50"
definition SUB_SHARE_RECEIPT :: u8 where "SUB_SHARE_RECEIPT = 0x8F"
definition SUB_CONFIGURE :: u8 where "SUB_CONFIGURE = 0x99"
definition SUB_BLOCK_NOTIFY :: u8 where "SUB_BLOCK_NOTIFY = 0xF9"
definition END :: u8 where "END = 0xFE"
definition MAX_USERNAME :: nat where "MAX_USERNAME = 384"
definition EXTRANONCE_LEN :: nat where "EXTRANONCE_LEN = 12"
definition MAX_JOB_SLOTS :: nat where "MAX_JOB_SLOTS = 256"
definition FLAG_BLOCK :: u8 where "FLAG_BLOCK = 0x01"
definition FLAG_SUBSIDY_ONLY :: u8 where "FLAG_SUBSIDY_ONLY = 0x02"
definition FLAG_QUICKDIFF :: u8 where "FLAG_QUICKDIFF = 0x04"
definition FLAG_BLAKE2B :: u8 where "FLAG_BLAKE2B = 0x08"
definition RESERVED_USE_TIME_OFFSET :: u8 where "RESERVED_USE_TIME_OFFSET = 0x01"
definition POW_ALGO_BLAKE2B :: u8 where "POW_ALGO_BLAKE2B = 1"
definition ACCEPTED :: u8 where "ACCEPTED = 0x50"
definition ACCEPTED_TENTATIVELY :: u8 where "ACCEPTED_TENTATIVELY = 0x55"
definition REJECTED :: u8 where "REJECTED = 0x66"
definition REJECT_BAD_JOB_ID :: u16 where "REJECT_BAD_JOB_ID = 10"
definition REJECT_BAD_COINBASE_ID :: u16 where "REJECT_BAD_COINBASE_ID = 11"
definition REJECT_BAD_EXTRANONCE_SIZE :: u16 where "REJECT_BAD_EXTRANONCE_SIZE = 12"
definition REJECT_BAD_TARGET :: u16 where "REJECT_BAD_TARGET = 13"
definition REJECT_BAD_USERNAME :: u16 where "REJECT_BAD_USERNAME = 14"
definition REJECT_BAD_COINBASER_ID :: u16 where "REJECT_BAD_COINBASER_ID = 15"
definition REJECT_BAD_MERKLE_COUNT :: u16 where "REJECT_BAD_MERKLE_COUNT = 16"
definition REJECT_COINBASE_TOO_LARGE :: u16 where "REJECT_COINBASE_TOO_LARGE = 17"
definition REJECT_COINBASE_MISSING :: u16 where "REJECT_COINBASE_MISSING = 18"
definition REJECT_TARGET_MISMATCH :: u16 where "REJECT_TARGET_MISMATCH = 19"
definition REJECT_H_NOT_ZERO :: u16 where "REJECT_H_NOT_ZERO = 20"
definition REJECT_HIGH_HASH :: u16 where "REJECT_HIGH_HASH = 21"
definition REJECT_COINBASE_ID_MISMATCH :: u16 where "REJECT_COINBASE_ID_MISMATCH = 22"
definition REJECT_BAD_NTIME :: u16 where "REJECT_BAD_NTIME = 23"
definition REJECT_BAD_VERSION :: u16 where "REJECT_BAD_VERSION = 24"
definition REJECT_STALE_BLOCK :: u16 where "REJECT_STALE_BLOCK = 25"
definition REJECT_BAD_COINBASE :: u16 where "REJECT_BAD_COINBASE = 26"
definition REJECT_BAD_COINBASE_OUTPUTS :: u16 where "REJECT_BAD_COINBASE_OUTPUTS = 27"
definition REJECT_MISSING_POOL_TAG :: u16 where "REJECT_MISSING_POOL_TAG = 28"
definition REJECT_DUPLICATE_WORK :: u16 where "REJECT_DUPLICATE_WORK = 29"
definition REJECT_OTHER :: u16 where "REJECT_OTHER = 30"
definition CONFIG_FLAG_ABW_DISABLED :: u8 where "CONFIG_FLAG_ABW_DISABLED = 0x01"
definition RESUME_TOKEN_LEN :: nat where "RESUME_TOKEN_LEN = 40"
definition MAX_CONFIG_POOL_SCRIPT :: nat where "MAX_CONFIG_POOL_SCRIPT = 83"
definition MAX_CONFIG_TAG :: nat where "MAX_CONFIG_TAG = 81"

definition reject_name :: "u16 \<Rightarrow> string" where
  "reject_name code =
     (if code = REJECT_BAD_JOB_ID then ''bad-job-id''
      else if code = REJECT_BAD_COINBASE_ID then ''bad-coinbase-id''
      else if code = REJECT_BAD_EXTRANONCE_SIZE then ''bad-extranonce-size''
      else if code = REJECT_BAD_TARGET then ''bad-target''
      else if code = REJECT_BAD_USERNAME then ''bad-username''
      else if code = REJECT_BAD_COINBASER_ID then ''bad-coinbaser-id''
      else if code = REJECT_BAD_MERKLE_COUNT then ''bad-merkle-count''
      else if code = REJECT_COINBASE_TOO_LARGE then ''coinbase-too-large''
      else if code = REJECT_COINBASE_MISSING then ''coinbase-missing''
      else if code = REJECT_TARGET_MISMATCH then ''target-mismatch''
      else if code = REJECT_H_NOT_ZERO then ''h-not-zero''
      else if code = REJECT_HIGH_HASH then ''high-hash''
      else if code = REJECT_COINBASE_ID_MISMATCH then ''coinbase-id-mismatch''
      else if code = REJECT_BAD_NTIME then ''bad-ntime''
      else if code = REJECT_BAD_VERSION then ''bad-version''
      else if code = REJECT_STALE_BLOCK then ''stale''
      else if code = REJECT_BAD_COINBASE then ''bad-coinbase''
      else if code = REJECT_BAD_COINBASE_OUTPUTS then ''bad-coinbase-outputs''
      else if code = REJECT_MISSING_POOL_TAG then ''missing-pool-tag''
      else if code = REJECT_DUPLICATE_WORK then ''duplicate''
      else ''other'')"

section \<open>Client to server\<close>

record coinbaser_request =
  cr_value :: u64
  cr_prev_hash :: bytes

record job_section =
  j_prev_hash :: bytes
  j_target_byte_index :: u16
  j_nbits :: bytes
  j_coinbaser_id :: u8
  j_height :: u32
  j_coinbase_value :: u64
  j_txn_count :: u32
  j_txn_total_weight :: u32
  j_txn_total_size :: u32
  j_txn_total_sigops :: u32
  j_merkle_branches :: "bytes list"

definition nbits_u32 :: "job_section \<Rightarrow> u32" where
  "nbits_u32 j = of_le (j_nbits j)"

record coinbase_section =
  cs_coinbase_id :: u8
  cs_coinb1 :: bytes
  cs_coinb2 :: bytes

record blake2b_section =
  b_ntime :: bytes
  b_nonce :: bytes

record pow_submit =
  p_job_id :: u8
  p_coinbase_id :: u8
  p_flags :: u8
  p_target_pot :: u8
  p_ntime32 :: u32
  p_nonce32 :: u32
  p_version :: u32
  p_extranonce :: bytes
  p_username :: string
  p_reserved :: bytes
  p_blake2b :: "blake2b_section option"
  p_time_on_wire :: "u32 option"
  p_job :: "job_section option"
  p_coinbase :: "coinbase_section option"

definition is_block :: "pow_submit \<Rightarrow> bool" where
  "is_block s \<longleftrightarrow> p_flags s AND FLAG_BLOCK \<noteq> 0"

definition subsidy_only :: "pow_submit \<Rightarrow> bool" where
  "subsidy_only s \<longleftrightarrow> p_flags s AND FLAG_SUBSIDY_ONLY \<noteq> 0"

definition quickdiff :: "pow_submit \<Rightarrow> bool" where
  "quickdiff s \<longleftrightarrow> p_flags s AND FLAG_QUICKDIFF \<noteq> 0"

definition is_blake2b :: "pow_submit \<Rightarrow> bool" where
  "is_blake2b s \<longleftrightarrow> p_flags s AND FLAG_BLAKE2B \<noteq> 0 \<or> p_blake2b s \<noteq> None"

definition use_time_offset :: "pow_submit \<Rightarrow> bool" where
  "use_time_offset s \<longleftrightarrow> p_reserved s ! 0 AND RESERVED_USE_TIME_OFFSET \<noteq> 0"

definition claimed_work :: "pow_submit \<Rightarrow> u64" where
  "claimed_work s = (if 64 \<le> p_target_pot s then - 1 else push_bit (unat (p_target_pot s)) 1)"

subsection \<open>Writing a submission\<close>

definition write_blake2b :: "blake2b_section \<Rightarrow> bytes" where
  "write_blake2b b = POW_ALGO_BLAKE2B # b_ntime b @ b_nonce b"

definition write_job :: "job_section \<Rightarrow> bytes" where
  "write_job j =
     j_prev_hash j @ le16 (j_target_byte_index j) @ j_nbits j @ [j_coinbaser_id j] @
     le32 (j_height j) @ le64 (j_coinbase_value j) @ le32 (j_txn_count j) @
     le32 (j_txn_total_weight j) @ le32 (j_txn_total_size j) @ le32 (j_txn_total_sigops j) @
     [of_nat (length (j_merkle_branches j))] @ concat (j_merkle_branches j)"

definition write_coinbase :: "coinbase_section \<Rightarrow> bytes" where
  "write_coinbase c =
     [cs_coinbase_id c] @ le16 (of_nat (length (cs_coinb1 c))) @ le16 (of_nat (length (cs_coinb2 c))) @
     cs_coinb1 c @ cs_coinb2 c"

definition pow_encode :: "pow_submit \<Rightarrow> bytes" where
  "pow_encode s =
     [SUB_POW, p_job_id s, p_coinbase_id s, p_flags s, p_target_pot s] @
     le32 (p_ntime32 s) @ le32 (p_nonce32 s) @ le32 (p_version s) @
     [of_nat EXTRANONCE_LEN] @ p_extranonce s @
     take MAX_USERNAME (str_bytes (p_username s)) @ [0] @ p_reserved s @
     (case p_blake2b s of
        None \<Rightarrow> []
      | Some b \<Rightarrow> 0x03 # write_blake2b b @
          (case p_time_on_wire s of None \<Rightarrow> [] | Some t \<Rightarrow> 0x04 # le32 t)) @
     (case p_job s of None \<Rightarrow> [] | Some j \<Rightarrow> 0x01 # write_job j) @
     (case p_coinbase s of None \<Rightarrow> [] | Some c \<Rightarrow> 0x02 # write_coinbase c) @
     [END]"

subsection \<open>Reading a submission\<close>

definition read_blake2b :: "blake2b_section reader" where
  "read_blake2b c =
     rbind (c_u8 c) (\<lambda>(a, c).
       if a \<noteq> POW_ALGO_BLAKE2B then Inl (Malformed ''pow algorithm'')
       else
     rbind (c_array 8 c) (\<lambda>(ntime, c).
     rbind (c_array 8 c) (\<lambda>(nonce, c).
       Inr (\<lparr>b_ntime = ntime, b_nonce = nonce\<rparr>, c))))"

definition read_job :: "job_section reader" where
  "read_job c =
     rbind (c_array 32 c) (\<lambda>(prev_hash, c).
     rbind (c_u16 c) (\<lambda>(target_byte_index, c).
     rbind (c_array 4 c) (\<lambda>(nbits, c).
     rbind (c_u8 c) (\<lambda>(coinbaser_id, c).
     rbind (c_u32 c) (\<lambda>(height, c).
     rbind (c_u64 c) (\<lambda>(coinbase_value, c).
     rbind (c_u32 c) (\<lambda>(txn_count, c).
     rbind (c_u32 c) (\<lambda>(txn_total_weight, c).
     rbind (c_u32 c) (\<lambda>(txn_total_size, c).
     rbind (c_u32 c) (\<lambda>(txn_total_sigops, c).
     rbind (c_u8 c) (\<lambda>(n, c).
     rbind (read_n (c_array 32) (unat n) c) (\<lambda>(merkle_branches, c).
       Inr (\<lparr>j_prev_hash = prev_hash, j_target_byte_index = target_byte_index, j_nbits = nbits,
            j_coinbaser_id = coinbaser_id, j_height = height, j_coinbase_value = coinbase_value,
            j_txn_count = txn_count, j_txn_total_weight = txn_total_weight,
            j_txn_total_size = txn_total_size, j_txn_total_sigops = txn_total_sigops,
            j_merkle_branches = merkle_branches\<rparr>, c)))))))))))))"

definition read_coinbase :: "coinbase_section reader" where
  "read_coinbase c =
     rbind (c_u8 c) (\<lambda>(id, c).
     rbind (c_u16 c) (\<lambda>(l1, c).
     rbind (c_u16 c) (\<lambda>(l2, c).
     rbind (c_take (unat l1) c) (\<lambda>(coinb1, c).
     rbind (c_take (unat l2) c) (\<lambda>(coinb2, c).
       Inr (\<lparr>cs_coinbase_id = id, cs_coinb1 = coinb1, cs_coinb2 = coinb2\<rparr>, c))))))"

text \<open>One round of the section loop behind its tag byte.\<close>

definition pow_section :: "u8 \<Rightarrow> pow_submit \<Rightarrow> pow_submit reader" where
  "pow_section tag s c =
     (if tag = 0x03 then rbind (read_blake2b c) (\<lambda>(b, c). Inr (s\<lparr>p_blake2b := Some b\<rparr>, c))
      else if tag = 0x04 then rbind (c_u32 c) (\<lambda>(t, c). Inr (s\<lparr>p_time_on_wire := Some t\<rparr>, c))
      else if tag = 0x01 then rbind (read_job c) (\<lambda>(j, c). Inr (s\<lparr>p_job := Some j\<rparr>, c))
      else if tag = 0x02 then rbind (read_coinbase c) (\<lambda>(b, c). Inr (s\<lparr>p_coinbase := Some b\<rparr>, c))
      else Inl (Malformed ''pow section''))"

lemma read_blake2b_advances: "read_blake2b c = Inr (x, c') \<Longrightarrow> advances c c'"
  by (auto simp: read_blake2b_def rbind_Inr split: if_splits
      dest!: u8c.get_advances arrc.get_advances intro: advances_trans)

lemma read_job_advances: "read_job c = Inr (x, c') \<Longrightarrow> advances c c'"
  unfolding read_job_def by (auto elim!: rbind_InrE dest!: reads_advance simp: advances_def)

lemma read_coinbase_advances: "read_coinbase c = Inr (x, c') \<Longrightarrow> advances c c'"
  unfolding read_coinbase_def by (auto elim!: rbind_InrE dest!: reads_advance simp: advances_def)

lemma pow_section_advances: "pow_section tag s c = Inr (s', c') \<Longrightarrow> advances c c'"
  by (auto simp: pow_section_def rbind_Inr split: if_splits
      dest: read_blake2b_advances read_job_advances read_coinbase_advances u32c.get_advances)

function pow_sections :: "pow_submit \<Rightarrow> cursor \<Rightarrow> wire_error + pow_submit" where
  "pow_sections s c =
     rbind (c_u8 c) (\<lambda>(tag, c).
       if tag = END then Inr s
       else rbind (pow_section tag s c) (\<lambda>(s, c). pow_sections s c))"
  by pat_completeness auto
termination
  by (relation "measure (\<lambda>(s, c). c_remaining c)")
    (auto dest!: c_u8_remaining pow_section_advances advances_remaining)

declare pow_sections.simps [simp del]

definition pow_decode :: "bytes \<Rightarrow> wire_error + pow_submit" where
  "pow_decode body =
     rbind (c_u8 (cursor_new body)) (\<lambda>(job_id, c).
     rbind (c_u8 c) (\<lambda>(coinbase_id, c).
     rbind (c_u8 c) (\<lambda>(flags, c).
     rbind (c_u8 c) (\<lambda>(target_pot, c).
     rbind (c_u32 c) (\<lambda>(ntime32, c).
     rbind (c_u32 c) (\<lambda>(nonce32, c).
     rbind (c_u32 c) (\<lambda>(version, c).
     rbind (c_u8 c) (\<lambda>(n, c).
       if unat n \<noteq> EXTRANONCE_LEN then Inl (Malformed ''extranonce size'') else
     rbind (c_array EXTRANONCE_LEN c) (\<lambda>(extranonce, c).
     rbind (c_cstr MAX_USERNAME c) (\<lambda>(u, c).
       let username = bytes_str (from_utf8_lossy u) in
     rbind (c_array 4 c) (\<lambda>(reserved, c).
       pow_sections
         \<lparr>p_job_id = job_id, p_coinbase_id = coinbase_id, p_flags = flags, p_target_pot = target_pot,
          p_ntime32 = ntime32, p_nonce32 = nonce32, p_version = version, p_extranonce = extranonce,
          p_username = username, p_reserved = reserved, p_blake2b = None, p_time_on_wire = None,
          p_job = None, p_coinbase = None\<rparr> c)))))))))))"

section \<open>Round trip of a submission\<close>

definition blake2b_ok :: "blake2b_section \<Rightarrow> bool" where
  "blake2b_ok b \<longleftrightarrow> length (b_ntime b) = 8 \<and> length (b_nonce b) = 8"

definition job_ok :: "job_section \<Rightarrow> bool" where
  "job_ok j \<longleftrightarrow> length (j_prev_hash j) = 32 \<and> length (j_nbits j) = 4 \<and>
     length (j_merkle_branches j) < 256 \<and> list_all (\<lambda>b. length b = 32) (j_merkle_branches j)"

definition coinbase_ok :: "coinbase_section \<Rightarrow> bool" where
  "coinbase_ok c \<longleftrightarrow> length (cs_coinb1 c) < 65536 \<and> length (cs_coinb2 c) < 65536"

lemma rbind_assoc_reader:
  "rbind (rbind m f) g = rbind m (\<lambda>x. rbind (f x) g)"
  by (cases m) simp_all

lemma array_put: "length b = n \<Longrightarrow> c_array n (at_pos pre (b @ suf)) = Inr (b, at_pos (pre @ b) suf)"
  by (rule arrc.get_put)

lemma arrays_put:
  "list_all (\<lambda>b. length b = n) bs \<Longrightarrow>
   read_n (c_array n) (length bs) (at_pos pre (concat bs @ suf)) = Inr (bs, at_pos (pre @ concat bs) suf)"
  using arrc.read_n_put [of n bs pre suf] by simp

interpretation blake2bc: wire_exact read_blake2b write_blake2b blake2b_ok
proof unfold_locales
  fix x pre suf
  assume "blake2b_ok x"
  then show "read_blake2b (at_pos pre (write_blake2b x @ suf)) = Inr (x, at_pos (pre @ write_blake2b x) suf)"
    by (simp add: read_blake2b_def write_blake2b_def blake2b_ok_def cursor_simps array_put)
next
  fix c x c'
  assume r: "read_blake2b c = Inr (x, c')"
  then show "advances c c'" by (rule read_blake2b_advances)
  from r show "consumes c (write_blake2b x) c'"
    using consumes_append [OF u8c.get_exact consumes_append [OF arrc.get_exact arrc.get_exact]]
    by (fastforce simp: read_blake2b_def write_blake2b_def split: if_splits elim!: rbind_InrE)
qed

interpretation sectionc: wire_exact read_coinbase write_coinbase coinbase_ok
proof unfold_locales
  fix x pre suf
  assume "coinbase_ok x"
  then have "unat (of_nat (length (cs_coinb1 x)) :: u16) = length (cs_coinb1 x)"
    "unat (of_nat (length (cs_coinb2 x)) :: u16) = length (cs_coinb2 x)"
    by (simp_all add: coinbase_ok_def unat_of_nat_lt)
  then show "read_coinbase (at_pos pre (write_coinbase x @ suf)) = Inr (x, at_pos (pre @ write_coinbase x) suf)"
    by (simp add: read_coinbase_def write_coinbase_def cursor_simps c_take_at)
next
  fix c x c'
  assume r: "read_coinbase c = Inr (x, c')"
  then show "advances c c'" by (rule read_coinbase_advances)
  from r obtain i c1 l1 c2 l2 c3 b1 c4 b2 where
    1: "c_u8 c = Inr (i, c1)" "c_u16 c1 = Inr (l1, c2)" "c_u16 c2 = Inr (l2, c3)"
    and 2: "c_take (unat l1) c3 = Inr (b1, c4)" "c_take (unat l2) c4 = Inr (b2, c')"
    and x: "x = \<lparr>cs_coinbase_id = i, cs_coinb1 = b1, cs_coinb2 = b2\<rparr>"
    by (auto simp: read_coinbase_def elim!: rbind_InrE)
  have l: "le16 l1 = le16 (of_nat (length b1))" "le16 l2 = le16 (of_nat (length b2))"
    using 2 by (simp_all add: c_take_length)
  have "consumes c ([i] @ le16 l1 @ le16 l2 @ b1 @ b2) c'"
    by (intro consumes_append [OF u8c.get_exact [OF 1(1)]] consumes_append [OF u16c.get_exact [OF 1(2)]]
        consumes_append [OF u16c.get_exact [OF 1(3)]] consumes_append [OF c_take_consumes [OF 2(1)]]
        c_take_consumes [OF 2(2)])
  then show "consumes c (write_coinbase x) c'"
    by (simp only: l) (simp add: x write_coinbase_def)
qed

lemma read_job_put:
  assumes "job_ok x"
  shows "read_job (at_pos pre (write_job x @ suf)) = Inr (x, at_pos (pre @ write_job x) suf)"
proof -
  have "unat (of_nat (length (j_merkle_branches x)) :: u8) = length (j_merkle_branches x)"
    using assms by (simp add: job_ok_def unat_of_nat_lt)
  then show ?thesis
    using assms by (simp add: read_job_def write_job_def job_ok_def cursor_simps array_put arrays_put)
qed

interpretation jobc: wire_codec read_job write_job job_ok
  by unfold_locales (simp_all add: read_job_advances read_job_put)

definition pow_ok :: "pow_submit \<Rightarrow> bool" where
  "pow_ok s \<longleftrightarrow>
     length (p_extranonce s) = EXTRANONCE_LEN \<and> length (p_reserved s) = 4 \<and>
     is_utf8 (str_bytes (p_username s)) \<and>
     pred_option blake2b_ok (p_blake2b s) \<and> pred_option job_ok (p_job s) \<and>
     pred_option coinbase_ok (p_coinbase s)"

text \<open>What the wire can carry beyond that: a NUL-free name of bounded length, and a time only next
  to the section it belongs to.\<close>

definition pow_sendable :: "pow_submit \<Rightarrow> bool" where
  "pow_sendable s \<longleftrightarrow> pow_ok s \<and> length (p_username s) \<le> MAX_USERNAME \<and> 0 \<notin> set (str_bytes (p_username s)) \<and>
     (p_blake2b s = None \<longrightarrow> p_time_on_wire s = None)"

lemma pow_sections_end: "pow_sections s (at_pos pre (END # suf)) = Inr s"
  by (simp add: pow_sections.simps cursor_simps)

lemma pow_sections_step:
  assumes "\<And>pre. pow_section tag s (at_pos pre (b @ suf)) = Inr (s', at_pos (pre @ b) suf)" and "tag \<noteq> END"
  shows "pow_sections s (at_pos pre (tag # b @ suf)) = pow_sections s' (at_pos (pre @ tag # b) suf)"
  using assms by (subst pow_sections.simps) (simp add: cursor_simps)

lemma tags_not_END: "(0x01 :: u8) \<noteq> END" "(0x02 :: u8) \<noteq> END" "(0x03 :: u8) \<noteq> END" "(0x04 :: u8) \<noteq> END"
  by (simp_all add: END_def)

lemma pow_sections_coinbase:
  assumes "pred_option coinbase_ok x"
  shows "pow_sections s (at_pos pre ((case x of None \<Rightarrow> [] | Some c \<Rightarrow> 0x02 # write_coinbase c) @ END # suf)) =
    Inr (case x of None \<Rightarrow> s | Some c \<Rightarrow> s\<lparr>p_coinbase := Some c\<rparr>)"
proof (cases x)
  case (Some c)
  then have "coinbase_ok c" using assms by simp
  then have "pow_section 0x02 s (at_pos p (write_coinbase c @ END # suf)) =
      Inr (s\<lparr>p_coinbase := Some c\<rparr>, at_pos (p @ write_coinbase c) (END # suf))" for p
    by (simp add: pow_section_def sectionc.get_put)
  then show ?thesis by (simp add: Some pow_sections_step pow_sections_end tags_not_END)
qed (simp add: pow_sections_end)

lemma pow_sections_job:
  assumes "pred_option job_ok x"
  shows "\<exists>pre'. pow_sections s (at_pos pre ((case x of None \<Rightarrow> [] | Some j \<Rightarrow> 0x01 # write_job j) @ suf)) =
    pow_sections (case x of None \<Rightarrow> s | Some j \<Rightarrow> s\<lparr>p_job := Some j\<rparr>) (at_pos pre' suf)"
proof (cases x)
  case (Some j)
  then have "job_ok j" using assms by simp
  then have "pow_section 0x01 s (at_pos p (write_job j @ suf)) =
      Inr (s\<lparr>p_job := Some j\<rparr>, at_pos (p @ write_job j) suf)" for p
    by (simp add: pow_section_def jobc.get_put)
  then have "pow_sections s (at_pos pre ((case x of None \<Rightarrow> [] | Some j \<Rightarrow> 0x01 # write_job j) @ suf)) =
      pow_sections (case x of None \<Rightarrow> s | Some j \<Rightarrow> s\<lparr>p_job := Some j\<rparr>) (at_pos (pre @ 0x01 # write_job j) suf)"
    by (simp add: Some pow_sections_step tags_not_END)
  then show ?thesis ..
qed auto

lemma pow_sections_time:
  "\<exists>pre'. pow_sections s (at_pos pre ((case x of None \<Rightarrow> [] | Some t \<Rightarrow> 0x04 # le32 t) @ suf)) =
    pow_sections (case x of None \<Rightarrow> s | Some t \<Rightarrow> s\<lparr>p_time_on_wire := Some t\<rparr>) (at_pos pre' suf)"
proof (cases x)
  case (Some t)
  have "pow_section 0x04 s (at_pos p (le32 t @ suf)) =
      Inr (s\<lparr>p_time_on_wire := Some t\<rparr>, at_pos (p @ le32 t) suf)" for p
    by (simp add: pow_section_def cursor_simps)
  then have "pow_sections s (at_pos pre ((case x of None \<Rightarrow> [] | Some t \<Rightarrow> 0x04 # le32 t) @ suf)) =
      pow_sections (case x of None \<Rightarrow> s | Some t \<Rightarrow> s\<lparr>p_time_on_wire := Some t\<rparr>) (at_pos (pre @ 0x04 # le32 t) suf)"
    by (simp add: Some pow_sections_step tags_not_END)
  then show ?thesis ..
qed auto

lemma pow_sections_blake2b:
  assumes "blake2b_ok b"
  shows "\<exists>pre'. pow_sections s (at_pos pre (0x03 # write_blake2b b @ suf)) =
    pow_sections (s\<lparr>p_blake2b := Some b\<rparr>) (at_pos pre' suf)"
proof -
  have "pow_section 0x03 s (at_pos p (write_blake2b b @ suf)) =
      Inr (s\<lparr>p_blake2b := Some b\<rparr>, at_pos (p @ write_blake2b b) suf)" for p
    using assms by (simp add: pow_section_def blake2bc.get_put)
  then have "pow_sections s (at_pos pre (0x03 # write_blake2b b @ suf)) =
      pow_sections (s\<lparr>p_blake2b := Some b\<rparr>) (at_pos (pre @ 0x03 # write_blake2b b) suf)"
    by (simp add: pow_sections_step tags_not_END)
  then show ?thesis ..
qed

text \<open>All sections of a submission at once, in the order \<open>encode\<close> writes them.\<close>

lemma pow_sections_all:
  assumes "pred_option blake2b_ok bl" "pred_option job_ok jb" "pred_option coinbase_ok cb"
    and "bl = None \<longrightarrow> tm = None"
    and "p_blake2b s = None" "p_time_on_wire s = None" "p_job s = None" "p_coinbase s = None"
  shows "pow_sections s (at_pos pre
      ((case bl of None \<Rightarrow> [] | Some b \<Rightarrow> 0x03 # write_blake2b b @
          (case tm of None \<Rightarrow> [] | Some t \<Rightarrow> 0x04 # le32 t)) @
       (case jb of None \<Rightarrow> [] | Some j \<Rightarrow> 0x01 # write_job j) @
       (case cb of None \<Rightarrow> [] | Some c \<Rightarrow> 0x02 # write_coinbase c) @ END # suf)) =
    Inr (s\<lparr>p_blake2b := bl, p_time_on_wire := tm, p_job := jb, p_coinbase := cb\<rparr>)"
proof -
  let ?C = "(case cb of None \<Rightarrow> [] | Some c \<Rightarrow> 0x02 # write_coinbase c) @ END # suf"
  let ?J = "(case jb of None \<Rightarrow> [] | Some j \<Rightarrow> 0x01 # write_job j) @ ?C"
  have jc: "pow_sections r (at_pos p ?J) = Inr (r\<lparr>p_job := jb, p_coinbase := cb\<rparr>)"
    if "p_job r = None" "p_coinbase r = None" for r p
  proof -
    obtain p' where "pow_sections r (at_pos p ?J) =
        pow_sections (case jb of None \<Rightarrow> r | Some j \<Rightarrow> r\<lparr>p_job := Some j\<rparr>) (at_pos p' ?C)"
      using pow_sections_job [OF assms(2), of r p ?C] by blast
    also have "\<dots> = Inr (r\<lparr>p_job := jb, p_coinbase := cb\<rparr>)"
      using that by (cases r) (auto simp: pow_sections_coinbase [OF assms(3)] split: option.split)
    finally show ?thesis .
  qed
  show ?thesis
  proof (cases bl)
    case None
    then show ?thesis using jc [of s pre] assms(4-8) by (cases s) simp
  next
    case (Some b)
    let ?T = "(case tm of None \<Rightarrow> [] | Some t \<Rightarrow> 0x04 # le32 t) @ ?J"
    obtain p1 where "pow_sections s (at_pos pre (0x03 # write_blake2b b @ ?T)) =
        pow_sections (s\<lparr>p_blake2b := Some b\<rparr>) (at_pos p1 ?T)"
      using pow_sections_blake2b [of b s pre ?T] assms(1) Some by auto
    moreover obtain p2 where "pow_sections (s\<lparr>p_blake2b := Some b\<rparr>) (at_pos p1 ?T) =
        pow_sections (case tm of None \<Rightarrow> s\<lparr>p_blake2b := Some b\<rparr> | Some t \<Rightarrow> s\<lparr>p_blake2b := Some b, p_time_on_wire := Some t\<rparr>)
          (at_pos p2 ?J)"
      using pow_sections_time [of "s\<lparr>p_blake2b := Some b\<rparr>" p1 tm ?J] by auto
    ultimately show ?thesis
      using jc assms(5-8) Some by (cases s; cases tm) simp_all
  qed
qed

text \<open>
  A share submission survives the wire.  For every submission a gateway can send and any bytes
  of padding behind its terminator, \<open>decode\<close> of what follows the sub-command byte of \<open>encode\<close> is the
  submission: the optional sections in any combination, every merkle branch and the user name
  included.
\<close>

theorem pow_decode_encode:
  assumes "pow_sendable s"
  shows "pow_encode s = SUB_POW # tl (pow_encode s) \<and> pow_decode (tl (pow_encode s) @ pad) = Inr s"
proof -
  let ?u = "str_bytes (p_username s)"
  define sections where "sections =
      (case p_blake2b s of None \<Rightarrow> [] | Some b \<Rightarrow> 0x03 # write_blake2b b @
          (case p_time_on_wire s of None \<Rightarrow> [] | Some t \<Rightarrow> 0x04 # le32 t)) @
       (case p_job s of None \<Rightarrow> [] | Some j \<Rightarrow> 0x01 # write_job j) @
       (case p_coinbase s of None \<Rightarrow> [] | Some c \<Rightarrow> 0x02 # write_coinbase c) @ END # pad"
  let ?s0 = "s\<lparr>p_blake2b := None, p_time_on_wire := None, p_job := None, p_coinbase := None\<rparr>"
  have u: "length (p_username s) \<le> MAX_USERNAME" "0 \<notin> set ?u" "from_utf8_lossy ?u = ?u"
    and l: "length (p_extranonce s) = EXTRANONCE_LEN" "length (p_reserved s) = 4"
    using assms by (simp_all add: pow_sendable_def pow_ok_def from_utf8_lossy_id)
  have body: "tl (pow_encode s) @ pad = [p_job_id s, p_coinbase_id s, p_flags s, p_target_pot s] @
      le32 (p_ntime32 s) @ le32 (p_nonce32 s) @ le32 (p_version s) @
      [of_nat EXTRANONCE_LEN] @ p_extranonce s @ ?u @ 0 # p_reserved s @ sections"
    using u(1) by (simp add: pow_encode_def sections_def)
  have n: "unat (of_nat EXTRANONCE_LEN :: u8) = EXTRANONCE_LEN"
    by (simp add: EXTRANONCE_LEN_def)
  have tail: "pow_sections ?s0 (at_pos pre sections) = Inr s" for pre
    using assms pow_sections_all [of "p_blake2b s" "p_job s" "p_coinbase s" "p_time_on_wire s" ?s0 pre pad]
    by (simp add: sections_def pow_sendable_def pow_ok_def)
  have s0: "?s0 = \<lparr>p_job_id = p_job_id s, p_coinbase_id = p_coinbase_id s, p_flags = p_flags s,
      p_target_pot = p_target_pot s, p_ntime32 = p_ntime32 s, p_nonce32 = p_nonce32 s, p_version = p_version s,
      p_extranonce = p_extranonce s, p_username = p_username s, p_reserved = p_reserved s, p_blake2b = None,
      p_time_on_wire = None, p_job = None, p_coinbase = None\<rparr>"
    by simp
  have "pow_decode (tl (pow_encode s) @ pad) = Inr s"
    unfolding body pow_decode_def cursor_new_at
    by (simp add: cursor_simps n array_put l c_cstr_at u tail [unfolded s0])
  then show ?thesis by (simp add: pow_encode_def)
qed

theorem pow_decode_encode_witness:
  "pow_decode (tl (pow_encode
     \<lparr>p_job_id = 3, p_coinbase_id = 4, p_flags = 12, p_target_pot = 13, p_ntime32 = 1, p_nonce32 = 2,
      p_version = 3, p_extranonce = replicate 12 0xa0, p_username = ''bc1qexample.rig1'',
      p_reserved = [1, 0, 0, 0], p_blake2b = Some \<lparr>b_ntime = replicate 8 1, b_nonce = replicate 8 2\<rparr>,
      p_time_on_wire = Some 99, p_job = None,
      p_coinbase = Some \<lparr>cs_coinbase_id = 4, cs_coinb1 = [1, 2], cs_coinb2 = []\<rparr>\<rparr>) @ [0x55]) =
   Inr \<lparr>p_job_id = 3, p_coinbase_id = 4, p_flags = 12, p_target_pot = 13, p_ntime32 = 1, p_nonce32 = 2,
      p_version = 3, p_extranonce = replicate 12 0xa0, p_username = ''bc1qexample.rig1'',
      p_reserved = [1, 0, 0, 0], p_blake2b = Some \<lparr>b_ntime = replicate 8 1, b_nonce = replicate 8 2\<rparr>,
      p_time_on_wire = Some 99, p_job = None,
      p_coinbase = Some \<lparr>cs_coinbase_id = 4, cs_coinb1 = [1, 2], cs_coinb2 = []\<rparr>\<rparr>"
proof -
  have "is_utf8 (str_bytes ''bc1qexample.rig1'')" "0 \<notin> set (str_bytes ''bc1qexample.rig1'')"
    by (rule ascii_is_utf8) (simp_all add: str_bytes_def of_char_def)
  then have "pow_sendable
     \<lparr>p_job_id = 3, p_coinbase_id = 4, p_flags = 12, p_target_pot = 13, p_ntime32 = 1, p_nonce32 = 2,
      p_version = 3, p_extranonce = replicate 12 0xa0, p_username = ''bc1qexample.rig1'',
      p_reserved = [1, 0, 0, 0], p_blake2b = Some \<lparr>b_ntime = replicate 8 1, b_nonce = replicate 8 2\<rparr>,
      p_time_on_wire = Some 99, p_job = None,
      p_coinbase = Some \<lparr>cs_coinbase_id = 4, cs_coinb1 = [1, 2], cs_coinb2 = []\<rparr>\<rparr>"
    by (simp add: pow_sendable_def pow_ok_def blake2b_ok_def coinbase_ok_def EXTRANONCE_LEN_def MAX_USERNAME_def)
  from pow_decode_encode [OF this, of "[0x55]"] show ?thesis by simp
qed

section \<open>What a decoded submission satisfies\<close>

lemma read_blake2b_ok: "read_blake2b c = Inr (x, c') \<Longrightarrow> blake2b_ok x"
  by (auto simp: read_blake2b_def blake2b_ok_def c_array_def split: if_splits
      elim!: rbind_InrE dest!: c_take_length)

lemma read_arrays_ok: "read_n (c_array k) n c = Inr (xs, c') \<Longrightarrow> list_all (\<lambda>b. length b = k) xs"
  by (induction n arbitrary: c xs) (auto simp: c_array_def elim!: rbind_InrE dest: c_take_length)

lemma read_job_ok: "read_job c = Inr (x, c') \<Longrightarrow> job_ok x"
proof -
  assume "read_job c = Inr (x, c')"
  then obtain n c1 c2 d d' where n: "read_n (c_array 32) (unat (n :: u8)) c1 = Inr (j_merkle_branches x, c2)"
    and h: "length (j_prev_hash x) = 32" "length (j_nbits x) = 4"
    by (auto simp: read_job_def c_array_def elim!: rbind_InrE dest!: c_take_length)
  have "unat n < 256" using unat_lt [of n] by simp
  then show ?thesis using h read_arrays_ok [OF n] arrc.read_n_length [OF n] by (simp add: job_ok_def)
qed

lemma read_coinbase_ok: "read_coinbase c = Inr (x, c') \<Longrightarrow> coinbase_ok x"
proof -
  assume "read_coinbase c = Inr (x, c')"
  then obtain l1 l2 :: u16 where "length (cs_coinb1 x) = unat l1" "length (cs_coinb2 x) = unat l2"
    by (auto simp: read_coinbase_def elim!: rbind_InrE dest!: c_take_length)
  then show ?thesis using unat_lt [of l1] unat_lt [of l2] by (simp add: coinbase_ok_def)
qed

lemma pow_section_ok: "pow_section tag s c = Inr (s', c') \<Longrightarrow> pow_ok s \<Longrightarrow> pow_ok s'"
  by (auto simp: pow_section_def pow_ok_def split: if_splits elim!: rbind_InrE
      dest: read_blake2b_ok read_job_ok read_coinbase_ok)

lemma pow_sections_ok: "pow_sections s c = Inr s' \<Longrightarrow> pow_ok s \<Longrightarrow> pow_ok s'"
proof (induction s c rule: pow_sections.induct)
  case (1 s c)
  from "1.prems"(1) obtain tag d where t: "c_u8 c = Inr (tag, d)"
    and r: "(if tag = END then Inr s else rbind (pow_section tag s d) (\<lambda>(s, c). pow_sections s c)) = Inr s'"
    by (subst (asm) pow_sections.simps) (auto elim!: rbind_InrE)
  show ?case
  proof (cases "tag = END")
    case False
    with r obtain s1 d1 where "pow_section tag s d = Inr (s1, d1)" "pow_sections s1 d1 = Inr s'"
      by (auto elim!: rbind_InrE)
    then show ?thesis using "1.IH" t False "1.prems"(2) pow_section_ok by (metis prod.inject)
  qed (use r "1.prems" in simp)
qed

text \<open>
  Whatever bytes a gateway sends, a submission that \<open>decode\<close> accepts has the shape its Rust
  type promises: every fixed array has its length, there are at most 255 merkle branches of 32
  bytes, the coinbase halves stay below 64 KiB, and the user name is well-formed UTF-8.
\<close>

theorem pow_decode_shape:
  assumes "pow_decode bs = Inr s"
  shows "pow_ok s"
  using assms unfolding pow_decode_def Let_def
  by (auto split: if_splits elim!: rbind_InrE dest!: c_take_length pow_sections_ok
      simp: pow_ok_def c_array_def from_utf8_lossy_valid)

theorem pow_decode_shape_witness:
  "\<exists>s. pow_decode ([1, 2, 8, 13] @ le32 7 @ le32 8 @ le32 9 @ [12] @ replicate 12 0xa0 @ [97, 98] @ 0 #
      [0, 0, 0, 0] @ 0x02 # write_coinbase \<lparr>cs_coinbase_id = 4, cs_coinb1 = [9], cs_coinb2 = []\<rparr> @ [END]) = Inr s \<and>
    p_username s = ''ab'' \<and> pow_ok s"
proof -
  let ?cb = "\<lparr>cs_coinbase_id = 4, cs_coinb1 = [9], cs_coinb2 = []\<rparr>"
  have u: "from_utf8_lossy [97, 98] = [97, 98]" by (rule from_utf8_lossy_id, rule ascii_is_utf8) simp
  have sections: "pow_sections s (at_pos pre (0x02 # write_coinbase ?cb @ [END])) = Inr (s\<lparr>p_coinbase := Some ?cb\<rparr>)"
    for s pre
    using pow_sections_coinbase [of "Some ?cb" s pre "[]"] by (simp add: coinbase_ok_def)
  have name: "bytes_str [97, 98] = ''ab''"
    using bytes_str_bytes [of "''ab''"] by (simp add: str_bytes_def of_char_def)
  have "\<exists>s. pow_decode ([1, 2, 8, 13] @ le32 7 @ le32 8 @ le32 9 @ [12] @ replicate 12 0xa0 @ [97, 98] @ 0 #
      [0, 0, 0, 0] @ 0x02 # write_coinbase ?cb @ [END]) = Inr s \<and> p_username s = ''ab''"
    unfolding pow_decode_def cursor_new_at
    using array_put [of "replicate 12 (0xa0 :: u8)" 12] array_put [of "[0, 0, 0, 0 :: u8]" 4]
      c_cstr_at [of "[97, 98]" 384]
    by (simp add: cursor_simps EXTRANONCE_LEN_def MAX_USERNAME_def u sections name)
  then show ?thesis using pow_decode_shape by blast
qed

section \<open>Job validation\<close>

datatype validation_status = VOk | VError u8

datatype job_validation =
    ShortIds u8 validation_status "u64 list" "bytes option"
  | Transactions u8 validation_status "bytes list"
  | FullBlock u8 validation_status "bytes list"

definition read_status :: "validation_status reader" where
  "read_status c = rbind (c_u8 c) (\<lambda>(e, c). Inr (if e = 0x01 then VOk else VError e, c))"

definition read_txn :: "bytes reader" where
  "read_txn c =
     rbind (c_u16 c) (\<lambda>(lo, c).
     rbind (c_u8 c) (\<lambda>(hi, c).
       c_take (unat (ucast lo OR push_bit 16 (ucast hi) :: u64)) c))"

definition read_txn_list :: "bytes list reader" where
  "read_txn_list c = rbind (c_u16 c) (\<lambda>(n, c). read_n read_txn (unat n) c)"

definition read_short_id :: "u64 reader" where
  "read_short_id c =
     rbind (c_u32 c) (\<lambda>(lo, c).
     rbind (c_u16 c) (\<lambda>(hi, c). Inr (ucast lo OR push_bit 32 (ucast hi), c)))"

definition job_validation_decode :: "bytes \<Rightarrow> wire_error + job_validation" where
  "job_validation_decode body =
     rbind (c_u8 (cursor_new body)) (\<lambda>(kind, c).
     rbind (c_u8 c) (\<lambda>(job, c).
     rbind (read_status c) (\<lambda>(status, c).
       if kind = 0x90 then
         (if status \<noteq> VOk then Inr (ShortIds job status [] None)
          else
            rbind (c_u16 c) (\<lambda>(n, c).
            rbind (read_n read_short_id (unat n) c) (\<lambda>(ids, c).
              if 0 < unat n
              then rbind (c_array 32 c) (\<lambda>(x, c). Inr (ShortIds job status ids (Some x)))
              else Inr (ShortIds job status ids None))))
       else if kind = 0x91 then
         (if status = VOk then rbind (read_txn_list c) (\<lambda>(txns, c). Inr (Transactions job status txns))
          else Inr (Transactions job status []))
       else if kind = 0x92 then
         (if status = VOk then rbind (read_txn_list c) (\<lambda>(txns, c). Inr (FullBlock job status txns))
          else Inr (FullBlock job status []))
       else Inl (Malformed ''job validation kind''))))"

fun job_validation_job :: "job_validation \<Rightarrow> u8" where
  "job_validation_job (ShortIds job _ _ _) = job"
| "job_validation_job (Transactions job _ _) = job"
| "job_validation_job (FullBlock job _ _) = job"

section \<open>Dispatch\<close>

datatype client_msg =
    CoinbaserRequest coinbaser_request
  | Pow pow_submit
  | JobValidation job_validation
  | Unknown u8

definition parse_client :: "bytes \<Rightarrow> wire_error + client_msg" where
  "parse_client payload =
     (case payload of
        [] \<Rightarrow> Inl Short
      | sub # body \<Rightarrow>
          if sub = SUB_COINBASER_REQUEST then
            rbind (c_u64 (cursor_new body)) (\<lambda>(value, c).
            rbind (c_array 32 c) (\<lambda>(prev_hash, c).
            rbind (c_u8 c) (\<lambda>(e, c).
              if e \<noteq> END then Inl (Malformed ''coinbaser request'')
              else Inr (CoinbaserRequest \<lparr>cr_value = value, cr_prev_hash = prev_hash\<rparr>))))
          else if sub = SUB_POW then rbind (pow_decode body) (\<lambda>s. Inr (Pow s))
          else if sub = SUB_JOB_VALIDATION then
            rbind (job_validation_decode body) (\<lambda>r. Inr (JobValidation r))
          else Inr (Unknown sub))"

section \<open>Server to client\<close>

definition configure_v1 :: "bytes \<Rightarrow> u32 \<Rightarrow> string \<Rightarrow> u64 \<Rightarrow> bytes" where
  "configure_v1 pool_script prime_id tag vardiff_min =
     [SUB_CONFIGURE, 1, of_nat (length pool_script)] @ pool_script @ le32 prime_id @
     [of_nat (length tag)] @ str_bytes tag @ le64 vardiff_min @ [0, END]"

definition configure_v3 :: "bytes \<Rightarrow> u64 \<Rightarrow> bytes \<Rightarrow> string \<Rightarrow> u64 \<Rightarrow> bytes" where
  "configure_v3 pool_script prime_id resume_token tag vardiff_min =
     [SUB_CONFIGURE, 3, of_nat (length pool_script)] @ pool_script @ le64 prime_id @ resume_token @
     [of_nat (length tag)] @ str_bytes tag @ le64 vardiff_min @ [CONFIG_FLAG_ABW_DISABLED, END]"

definition coinbaser_reply :: "u64 \<Rightarrow> bytes \<Rightarrow> bytes" where
  "coinbaser_reply value coinbaser_v2 =
     [SUB_COINBASER_REPLY] @ le64 value @ le32 (of_nat (length coinbaser_v2)) @ coinbaser_v2"

definition share_receipt :: "u8 \<Rightarrow> u16 \<Rightarrow> u32 \<Rightarrow> u8 \<Rightarrow> u8 \<Rightarrow> bytes" where
  "share_receipt status reason nonce32 target_pot job_id =
     [SUB_SHARE_RECEIPT, status] @ le16 reason @ le32 nonce32 @ [target_pot, job_id]"

definition request_short_ids :: "u8 \<Rightarrow> bytes" where
  "request_short_ids job = [SUB_JOB_VALIDATION, 0x10, job]"

definition request_transactions :: "u8 \<Rightarrow> u16 list \<Rightarrow> bytes" where
  "request_transactions job indexes =
     [SUB_JOB_VALIDATION, 0x11, job] @ le16 (of_nat (length indexes)) @ concat (map le16 indexes)"

definition request_full_block :: "u8 \<Rightarrow> bytes" where
  "request_full_block job = [SUB_JOB_VALIDATION, 0x12, job]"

definition block_notify :: bytes where
  "block_notify = [SUB_BLOCK_NOTIFY]"

section \<open>Transaction lists\<close>

text \<open>The gateway's side of a transaction: a 3-byte little-endian length and the raw bytes.\<close>

definition put_txn :: "bytes \<Rightarrow> bytes" where
  "put_txn t = le16 (of_nat (length t)) @ [of_nat (length t div 65536)] @ t"

definition txn_ok :: "bytes \<Rightarrow> bool" where
  "txn_ok t \<longleftrightarrow> length t < 2 ^ 24"

lemma or_shift_add:
  assumes "unat (lo :: u64) < 2 ^ n" and "unat hi * 2 ^ n < 2 ^ 64"
  shows "unat (lo OR push_bit n hi) = unat lo + unat hi * 2 ^ n"
proof -
  have "lo OR push_bit n hi = lo + push_bit n hi"
  proof (rule disjunctive_add_eq_or [symmetric])
    have "take_bit n lo = lo"
      using assms(1) by (simp add: word_unat_eq_iff unsigned_take_bit_eq take_bit_nat_eq_self_iff)
    then have "lo AND push_bit n hi = take_bit n lo AND push_bit n hi" by simp
    also have "\<dots> = 0" by (rule bit_eqI) (auto simp: bit_simps)
    finally show "lo AND push_bit n hi = 0" .
  qed
  moreover have p: "unat (push_bit n hi) = unat hi * 2 ^ n"
  proof -
    have "unat (push_bit n hi) = take_bit 64 (push_bit n (unat hi))"
      by (simp add: unsigned_push_bit_eq)
    then show ?thesis using assms(2) by (simp add: push_bit_eq_mult take_bit_nat_eq_self)
  qed
  moreover have "unat lo + unat hi * 2 ^ n < 2 ^ 64"
  proof (cases "n < 64")
    case True
    have "(2 :: nat) ^ 64 = 2 ^ (64 - n) * 2 ^ n" using True by (simp flip: power_add)
    moreover have "unat hi * 2 ^ n < 2 ^ (64 - n) * 2 ^ n" using assms(2) calculation by (simp only:)
    then have "unat hi < 2 ^ (64 - n)" by simp
    then have "(unat hi + 1) * 2 ^ n \<le> 2 ^ (64 - n) * 2 ^ n" by (intro mult_le_mono1) simp
    ultimately show ?thesis using assms(1) by (simp add: algebra_simps)
  next
    case False
    then have "(2 :: nat) ^ 64 \<le> 2 ^ n" by (intro power_increasing) simp_all
    then have "unat hi = 0" using assms(2) by (cases "unat hi") auto
    then show ?thesis using unat_lt [of lo] by simp
  qed
  ultimately show ?thesis by (simp add: unat_word_ariths)
qed

lemma txn_length_word:
  "unat (ucast (lo :: u16) OR push_bit 16 (ucast (hi :: u8)) :: u64) = unat lo + unat hi * 65536"
proof -
  have "unat (ucast lo :: u64) = unat lo" "unat (ucast hi :: u64) = unat hi"
    by (simp_all add: unat_ucast_up)
  moreover have "unat lo < 2 ^ 16" "unat hi < 2 ^ 8" using unat_lt [of lo] unat_lt [of hi] by simp_all
  ultimately show ?thesis using or_shift_add [of "ucast lo" 16 "ucast hi"] by simp
qed

interpretation txnc: wire_exact read_txn put_txn txn_ok
proof unfold_locales
  fix t pre suf
  assume "txn_ok t"
  then have "length t div 65536 < 256" by (simp add: txn_ok_def)
  then have "unat (of_nat (length t) :: u16) + unat (of_nat (length t div 65536) :: u8) * 65536 = length t"
    by (simp add: unat_of_nat unat_of_nat_lt)
  then show "read_txn (at_pos pre (put_txn t @ suf)) = Inr (t, at_pos (pre @ put_txn t) suf)"
    by (simp add: read_txn_def put_txn_def cursor_simps txn_length_word c_take_exact)
next
  fix c t c'
  assume r: "read_txn c = Inr (t, c')"
  then obtain lo c1 hi c2 where 1: "c_u16 c = Inr (lo, c1)" "c_u8 c1 = Inr (hi, c2)"
    and 2: "c_take (unat lo + unat hi * 65536) c2 = Inr (t, c')"
    by (auto simp: read_txn_def txn_length_word elim!: rbind_InrE)
  have n: "length t = unat lo + unat hi * 65536" by (rule c_take_length [OF 2])
  have "unat lo < 65536" using unat_lt [of lo] by simp
  then have "length t div 65536 = unat hi" "length t mod 65536 = unat lo" by (simp_all add: n)
  then have w: "of_nat (length t div 65536) = hi" "of_nat (length t) = lo"
    by (simp_all add: word_unat_eq_iff unat_of_nat)
  have "consumes c (le16 lo @ [hi] @ t) c'"
    by (intro consumes_append [OF u16c.get_exact [OF 1(1)]] consumes_append [OF u8c.get_exact [OF 1(2)]]
        c_take_consumes [OF 2])
  then show "consumes c (put_txn t) c'" and "advances c c'"
    by (simp_all add: put_txn_def w consumes_advances)
qed

text \<open>
  A full-block reply delivers every transaction.  For up to 65535 transactions of less than
  16 MiB each, and any padding, the reply a gateway writes decodes to exactly that list, in order.
\<close>

theorem full_block_round_trip:
  assumes "list_all txn_ok txns" and "length txns < 65536"
  shows "parse_client ([SUB_JOB_VALIDATION, 0x92, job, 0x01] @ le16 (of_nat (length txns)) @
      concat (map put_txn txns) @ pad) = Inr (JobValidation (FullBlock job VOk txns))"
proof -
  have n: "unat (of_nat (length txns) :: u16) = length txns" using assms(2) by (simp add: unat_of_nat_lt)
  have "job_validation_decode ([0x92, job, 0x01] @ le16 (of_nat (length txns)) @ concat (map put_txn txns) @ pad) =
      Inr (FullBlock job VOk txns)"
    using assms(1)
    by (simp add: job_validation_decode_def cursor_new_at cursor_simps read_status_def read_txn_list_def n
        txnc.read_n_put)
  then show ?thesis
    by (simp add: parse_client_def SUB_JOB_VALIDATION_def SUB_COINBASER_REQUEST_def SUB_POW_def)
qed

theorem full_block_round_trip_witness:
  "parse_client ([0x50, 0x92, 5, 1] @ le16 2 @ le16 3 @ [0, 0xaa, 0xbb, 0xcc] @ le16 1 @ [0, 0xdd, 0xfe]) =
     Inr (JobValidation (FullBlock 5 VOk [[0xaa, 0xbb, 0xcc], [0xdd]]))"
  using full_block_round_trip [of "[[0xaa, 0xbb, 0xcc], [0xdd]]" 5 "[0xfe]"]
  by (simp add: txn_ok_def put_txn_def SUB_JOB_VALIDATION_def)

section \<open>What the pool sends\<close>

lemma same_length_append:
  "length xs = length ys \<Longrightarrow> xs @ us = ys @ vs \<longleftrightarrow> xs = ys \<and> us = vs"
  by simp

lemma short_name_inject:
  assumes "length (a :: bytes) < 256" "length b < 256"
  shows "(of_nat (length a) :: u8) # a @ x = of_nat (length b) # b @ y \<longleftrightarrow> a = b \<and> x = y"
proof
  assume e: "(of_nat (length a) :: u8) # a @ x = of_nat (length b) # b @ y"
  then have "unat (of_nat (length a) :: u8) = unat (of_nat (length b) :: u8)" by simp
  then have "length a = length b" using assms by (simp add: unat_of_nat_lt)
  with e show "a = b \<and> x = y" by simp
qed simp

lemma str_bytes_inject [simp]: "str_bytes a = str_bytes b \<longleftrightarrow> a = b"
  by (metis bytes_str_bytes)

text \<open>
  A gateway cannot mistake one client configuration for another.  Two version-1 or two
  version-3 configurations inside the documented limits are the same bytes only when every field
  is the same, and the two versions never coincide.
\<close>

theorem configure_unambiguous:
  assumes "length s < 256" "length s' < 256" "length t < 256" "length t' < 256" "length k = length k'"
  shows "(configure_v1 s p t v = configure_v1 s' p' t' v' \<longleftrightarrow> s = s' \<and> p = p' \<and> t = t' \<and> v = v') \<and>
    (configure_v3 s q k t v = configure_v3 s' q' k' t' v' \<longleftrightarrow>
      s = s' \<and> q = q' \<and> k = k' \<and> t = t' \<and> v = v') \<and>
    configure_v1 s p t v \<noteq> configure_v3 s' q' k' t' v'"
proof (intro conjI)
  note inj = short_name_inject [of s s'] short_name_inject [of "str_bytes t" "str_bytes t'", simplified]
  show "configure_v1 s p t v = configure_v1 s' p' t' v' \<longleftrightarrow> s = s' \<and> p = p' \<and> t = t' \<and> v = v'"
    using assms inj by (simp add: configure_v1_def same_length_append) blast
  show "configure_v3 s q k t v = configure_v3 s' q' k' t' v' \<longleftrightarrow>
      s = s' \<and> q = q' \<and> k = k' \<and> t = t' \<and> v = v'"
    using assms inj by (simp add: configure_v3_def same_length_append) blast
  show "configure_v1 s p t v \<noteq> configure_v3 s' q' k' t' v'"
    by (simp add: configure_v1_def configure_v3_def)
qed

theorem configure_unambiguous_witness:
  "configure_v1 [0, 20] 1 ''a'' 1024 \<noteq> configure_v1 [0, 20] 1 ''b'' 1024 \<and>
   configure_v1 [0, 20] 1 ''a'' 1024 \<noteq> configure_v3 [0, 20] 1 (replicate 40 0) ''b'' 1024"
  using configure_unambiguous [of "[0, 20]" "[0, 20]" "''a''" "''b''" "replicate 40 0" "replicate 40 0" 1 1024 1 1024 1 1]
  by simp

lemma concat_length_bound:
  "list_all (\<lambda>x. length (f x) \<le> n) xs \<Longrightarrow> length (concat (map f xs)) \<le> n * length xs"
  by (induction xs) (auto simp: algebra_simps)

text \<open>
  A coinbaser reply fits a frame and carries its list.  For any list within the limits, the
  reply is below the 22-bit frame limit, its length field is the length of the list that follows,
  and decoding what follows gives the identifier and the list.
\<close>

theorem coinbaser_reply_carries:
  assumes "list_all output_ok outs" "length outs \<le> MAX_OUTPUTS"
  shows "length (coinbaser_reply v (encode_v2 cid outs)) \<le> 37390 \<and>
    le_nat (take 4 (drop 9 (coinbaser_reply v (encode_v2 cid outs)))) = length (encode_v2 cid outs) \<and>
    decode_v2 (drop 13 (coinbaser_reply v (encode_v2 cid outs))) = Inr (cid, outs)"
proof -
  have "list_all (\<lambda>x. length (encode_output x) \<le> 73) outs"
    using assms(1) by (rule list.pred_mono_strong) (simp add: output_ok_def encode_output_def MAX_SCRIPT_def)
  from concat_length_bound [OF this] have "length (concat (map encode_output outs)) \<le> 73 * 512"
    using assms(2) by (simp add: MAX_OUTPUTS_def)
  then have l: "length (encode_v2 cid outs) \<le> 37377"
    using assms(2) by (simp add: encode_v2_def)
  define e where "e = encode_v2 cid outs"
  have "le_nat (le32 (of_nat (length e))) = length e"
    using l by (simp add: le32_def le_nat_le_bytes unat_of_nat_lt e_def)
  moreover have "decode_v2 e = Inr (cid, outs)"
    using decode_loop_put [of outs "[]" "[cid]"] assms
    by (simp add: e_def decode_v2_def encode_v2_def cursor_new_at c_u8_at)
  moreover have "drop 9 (coinbaser_reply v e) = le32 (of_nat (length e)) @ e"
    by (simp add: coinbaser_reply_def)
  moreover have "drop 13 (coinbaser_reply v e) = e"
    by (simp add: coinbaser_reply_def)
  ultimately show ?thesis using l by (simp add: coinbaser_reply_def flip: e_def)
qed

theorem coinbaser_reply_carries_witness:
  "decode_v2 (drop 13 (coinbaser_reply 99 (encode_v2 3 [\<lparr>o_sats = 7, o_script = [81, 1]\<rparr>]))) =
     Inr (3, [\<lparr>o_sats = 7, o_script = [81, 1]\<rparr>])"
  using coinbaser_reply_carries [of "[\<lparr>o_sats = 7, o_script = [81, 1]\<rparr>]" 99 3]
  by (simp add: output_ok_def MIN_SCRIPT_def MAX_SCRIPT_def MAX_OUTPUTS_def)

lemma read_short_id_48: "read_short_id c = Inr (i, c') \<Longrightarrow> unat i < 2 ^ 48"
proof -
  assume "read_short_id c = Inr (i, c')"
  then obtain lo :: u32 and hi :: u16 where i: "i = ucast lo OR push_bit 32 (ucast hi)"
    by (auto simp: read_short_id_def elim!: rbind_InrE)
  have b: "unat lo < 2 ^ 32" "unat hi < 2 ^ 16" using unat_lt [of lo] unat_lt [of hi] by simp_all
  have "unat i = unat lo + unat hi * 2 ^ 32"
    using b or_shift_add [of "ucast lo" 32 "ucast hi"] by (simp add: i unat_ucast_up)
  then show ?thesis using b by simp
qed

lemma read_short_ids_48:
  "read_n read_short_id n c = Inr (ids, c') \<Longrightarrow> list_all (\<lambda>i. unat i < 2 ^ 48) ids \<and> length ids = n"
  by (induction n arbitrary: c ids) (auto elim!: rbind_InrE dest: read_short_id_48)

text \<open>
  A short-id reply never carries ids without the value to check them against.  Whatever bytes
  arrive, an accepted reply has 48-bit ids, at most 65535 of them, a 32-byte cross-check exactly
  when there are ids, and no ids at all when the gateway reported an error.
\<close>

theorem short_ids_shape:
  assumes "job_validation_decode bs = Inr (ShortIds job st ids x)"
  shows "list_all (\<lambda>i. unat i < 2 ^ 48) ids \<and> length ids < 65536 \<and>
    (ids = [] \<longleftrightarrow> x = None) \<and> pred_option (\<lambda>b. length b = 32) x \<and> (st \<noteq> VOk \<longrightarrow> ids = [])"
proof -
  have u: "unat (n :: u16) < 65536" for n using unat_lt [of n] by simp
  show ?thesis
    using assms unfolding job_validation_decode_def
    by (auto split: if_splits elim!: rbind_InrE dest!: read_short_ids_48 c_take_length
        simp: c_array_def u)
qed

theorem short_ids_shape_witness:
  "job_validation_decode [0x90, 3, 0xF3] = Inr (ShortIds 3 (VError 0xF3) [] None) \<and>
   pred_option (\<lambda>b. length (b :: bytes) = 32) None"
proof -
  have d: "job_validation_decode [0x90, 3, 0xF3] = Inr (ShortIds 3 (VError 0xF3) [] None)"
    by (simp add: job_validation_decode_def cursor_new_at cursor_simps read_status_def)
  from short_ids_shape [OF d] d show ?thesis by simp
qed

end
