(* ===== verification/Coinbase.thy ===== *)
theory Coinbase
  imports Cursor
begin

text \<open>
  The coinbase transaction as a gateway ships it (\<open>wire/src/coinbase.rs\<close>): the two halves around
  the zeroed extranonce slot and the target byte (\<open>assemble\<close>), the legacy serialization
  (\<open>parse\<close>, \<open>build\<close>), Bitcoin's compact sizes, and the witness splice for a full block.  Shown:
  compact sizes and whole coinbases survive the round trip, what \<open>parse\<close> accepts is within the
  code's limits and splices without a panic, and the target byte changes neither the outputs nor
  the height.
\<close>

unbundle bit_operations_syntax

section \<open>Data\<close>

definition EXTRANONCE_SLOT :: nat where "EXTRANONCE_SLOT = 12"

definition COINBASE_WITNESS :: bytes where
  "COINBASE_WITNESS = (replicate 34 0)[0 := 0x01, 1 := 0x20]"

record txout =
  t_value :: u64
  t_script :: bytes

definition is_op_return :: "txout \<Rightarrow> bool" where
  "is_op_return t \<longleftrightarrow> (case t_script t of [] \<Rightarrow> False | b # _ \<Rightarrow> b = 0x6a)"

record coinbase =
  cb_version :: u32
  cb_script_sig :: bytes
  cb_sequence :: u32
  cb_outputs :: "txout list"
  cb_lock_time :: u32
  cb_height :: "u32 option"
  cb_outputs_at :: nat
  cb_lock_time_at :: nat

definition total_output_value :: "coinbase \<Rightarrow> u64" where
  "total_output_value cb = foldl (\<lambda>a o1. sat_add a (t_value o1)) 0 (cb_outputs cb)"

definition paid_to :: "coinbase \<Rightarrow> bytes \<Rightarrow> u64" where
  "paid_to cb script =
     foldl (\<lambda>a o1. sat_add a (t_value o1)) 0 (filter (\<lambda>o1. t_script o1 = script) (cb_outputs cb))"

section \<open>Assembling the halves\<close>

definition assemble :: "bytes \<Rightarrow> bytes \<Rightarrow> nat \<Rightarrow> u8 \<Rightarrow> bytes" where
  "assemble coinb1 coinb2 target_byte_index target_pot =
     (if coinb2 = [] \<and> target_byte_index = 0 then coinb1
      else let v = coinb1 @ replicate EXTRANONCE_SLOT 0 @ coinb2 in
           if target_byte_index < length v then v[target_byte_index := target_pot] else v)"

section \<open>Compact sizes\<close>

definition read_varint :: "u64 reader" where
  "read_varint c =
     rbind (c_u8 c) (\<lambda>(n, c).
       if n = 0xfd then rbind (c_u16 c) (\<lambda>(v, c). Inr (ucast v, c))
       else if n = 0xfe then rbind (c_u32 c) (\<lambda>(v, c). Inr (ucast v, c))
       else if n = 0xff then c_u64 c
       else Inr (ucast n, c))"

definition write_varint :: "u64 \<Rightarrow> bytes" where
  "write_varint n =
     (if n < 0xfd then [ucast n]
      else if n \<le> 0xffff then 0xfd # le16 (ucast n)
      else if n \<le> 0xffffffff then 0xfe # le32 (ucast n)
      else 0xff # le64 n)"

section \<open>Parsing\<close>

definition bip34_height :: "bytes \<Rightarrow> u32 option" where
  "bip34_height script_sig =
     (case script_sig of
        [] \<Rightarrow> None
      | n # rest \<Rightarrow>
          if 0x51 \<le> n \<and> n \<le> 0x60 then Some (ucast (n - 0x50))
          else if 1 \<le> n \<and> n \<le> 4 then
            if length rest < unat n then None
            else Some (foldl (\<lambda>v (i, x). v OR push_bit (8 * i) (ucast x)) 0
                         (enumerate 0 (take (unat n) rest)))
          else None)"

definition parse_txout :: "txout reader" where
  "parse_txout c =
     rbind (c_u64 c) (\<lambda>(value, c).
     rbind (read_varint c) (\<lambda>(sl, c).
       if 10000 < unat sl then Inl (Malformed ''coinbase output script length'')
       else rbind (c_take (unat sl) c) (\<lambda>(s, c). Inr (\<lparr>t_value = value, t_script = s\<rparr>, c))))"

definition parse :: "bytes \<Rightarrow> wire_error + coinbase" where
  "parse bs =
     rbind (c_u32 (cursor_new bs)) (\<lambda>(version, c).
     rbind (read_varint c) (\<lambda>(nin, c).
       if nin \<noteq> 1 then Inl (Malformed ''coinbase input count'') else
     rbind (c_take 36 c) (\<lambda>(prevout, c).
       if take 32 prevout \<noteq> replicate 32 0 \<or> drop 32 prevout \<noteq> replicate 4 0xff
       then Inl (Malformed ''coinbase outpoint'') else
     rbind (read_varint c) (\<lambda>(n, c).
       if \<not> (2 \<le> unat n \<and> unat n \<le> 100) then Inl (Malformed ''coinbase scriptSig length'') else
     rbind (c_take (unat n) c) (\<lambda>(script_sig, c).
     rbind (c_u32 c) (\<lambda>(sequence, c).
       let outputs_at = pos c in
     rbind (read_varint c) (\<lambda>(nout, c).
       if unat nout = 0 \<or> 10000 < unat nout then Inl (Malformed ''coinbase output count'') else
     rbind (read_n parse_txout (unat nout) c) (\<lambda>(outputs, c).
       let lock_time_at = pos c in
     rbind (c_u32 c) (\<lambda>(lock_time, c).
       if c_remaining c \<noteq> 0 then Inl (Malformed ''coinbase trailing bytes'') else
       Inr \<lparr>cb_version = version, cb_script_sig = script_sig, cb_sequence = sequence,
            cb_outputs = outputs, cb_lock_time = lock_time, cb_height = bip34_height script_sig,
            cb_outputs_at = outputs_at, cb_lock_time_at = lock_time_at\<rparr>)))))))))"

section \<open>Writing\<close>

definition with_witness :: "bytes \<Rightarrow> coinbase \<Rightarrow> bytes option" where
  "with_witness legacy parsed = do {
     a \<leftarrow> slice_range 0 4 legacy;
     b \<leftarrow> slice_range 4 (cb_lock_time_at parsed) legacy;
     z \<leftarrow> slice_range (cb_lock_time_at parsed) (length legacy) legacy;
     Some (a @ [0x00, 0x01] @ b @ COINBASE_WITNESS @ z)
   }"

definition write_txout :: "txout \<Rightarrow> bytes" where
  "write_txout out = le64 (t_value out) @ write_varint (of_nat (length (t_script out))) @ t_script out"

definition build_sig :: "u32 \<Rightarrow> bytes \<Rightarrow> bytes \<times> nat" where
  "build_sig height tag =
     (let hb = le32 height;
          n = 4 - length (takeWhile (\<lambda>b. b = 0) (rev hb));
          n = max n 1;
          push_len = length tag + 1 + EXTRANONCE_SLOT;
          sig = [of_nat n] @ take n hb @ [of_nat push_len] @ tag
      in (sig @ [0xff] @ replicate EXTRANONCE_SLOT 0, length sig))"

definition build :: "u32 \<Rightarrow> bytes \<Rightarrow> txout list \<Rightarrow> u32 \<Rightarrow> bytes \<times> nat" where
  "build height tag outputs lock_time =
     (let (sig, target_in_sig) = build_sig height tag;
          v = le32 1 @ [1] @ replicate 32 0 @ replicate 4 0xff @ write_varint (of_nat (length sig));
          sig_at = length v
      in (v @ sig @ le32 0xffffffff @ write_varint (of_nat (length outputs)) @
            concat (map write_txout outputs) @ le32 lock_time,
          sig_at + target_in_sig))"

section \<open>Sums\<close>

lemma total_output_value_sum: "total_output_value cb = sat_sum (map t_value (cb_outputs cb))"
  by (simp add: total_output_value_def sat_sum_def foldl_map)

lemma paid_to_sum:
  "paid_to cb s = sat_sum (map t_value (filter (\<lambda>o1. t_script o1 = s) (cb_outputs cb)))"
  by (simp add: paid_to_def sat_sum_def foldl_map)

section \<open>Compact sizes round trip\<close>

lemma varint_get_put: "read_varint (at_pos pre (write_varint n @ suf)) = Inr (n, at_pos (pre @ write_varint n) suf)"
proof -
  have small: "(ucast (ucast n :: u8) :: u64) = n" "unat (ucast n :: u8) = unat n" if "n < 0xfd"
    using that by (simp_all add: word_unat_eq_iff unat_ucast_up unat_ucast_down word_less_nat_alt)
  have "(ucast n :: u8) \<noteq> 0xfd" "(ucast n :: u8) \<noteq> 0xfe" "(ucast n :: u8) \<noteq> 0xff" if "n < 0xfd"
    using small [OF that] that by (auto simp: word_less_nat_alt)
  moreover have "(ucast (ucast n :: u16) :: u64) = n" if "n \<le> 0xffff"
    using that by (simp add: word_unat_eq_iff unat_ucast_up unat_ucast_down word_le_nat_alt)
  moreover have "(ucast (ucast n :: u32) :: u64) = n" if "n \<le> 0xffffffff"
    using that by (simp add: word_unat_eq_iff unat_ucast_up unat_ucast_down word_le_nat_alt)
  ultimately show ?thesis
    using small by (simp add: read_varint_def write_varint_def cursor_simps)
qed

lemma read_varint_advances: "read_varint c = Inr (n, c') \<Longrightarrow> advances c c'"
  by (auto simp: read_varint_def rbind_Inr split: if_splits
      dest!: u8c.get_advances u16c.get_advances u32c.get_advances u64c.get_advances
      intro: advances_trans)

interpretation varintc: wire_codec read_varint write_varint "\<lambda>_. True"
  by unfold_locales (simp_all add: read_varint_advances varint_get_put)

lemma parse_txout_advances: "parse_txout c = Inr (x, c') \<Longrightarrow> advances c c'"
  by (auto simp: parse_txout_def rbind_Inr split: if_splits
      dest!: u64c.get_advances varintc.get_advances c_take_advances intro: advances_trans)

lemma parse_txout_limit: "parse_txout c = Inr (x, c') \<Longrightarrow> length (t_script x) \<le> 10000"
  by (auto simp: parse_txout_def rbind_Inr split: if_splits dest!: c_take_length)

definition txout_ok :: "txout \<Rightarrow> bool" where
  "txout_ok t \<longleftrightarrow> length (t_script t) \<le> 10000"

lemma parse_txout_put:
  assumes "txout_ok x"
  shows "parse_txout (at_pos pre (write_txout x @ suf)) = Inr (x, at_pos (pre @ write_txout x) suf)"
proof -
  have "unat (of_nat (length (t_script x)) :: u64) = length (t_script x)"
    using assms by (intro unat_of_nat_lt) (simp add: txout_ok_def)
  then show ?thesis using assms
    by (simp add: parse_txout_def write_txout_def cursor_simps varintc.get_put c_take_at txout_ok_def)
qed

interpretation txoutc: wire_codec parse_txout write_txout txout_ok
  by unfold_locales (simp_all add: parse_txout_advances parse_txout_put)

section \<open>What parsing accepts\<close>

lemma u32_consumes_end:
  assumes "c_u32 c = Inr (w, c')" and "c_remaining c' = 0" and "pos c \<le> length (buf c)"
  shows "pos c + 4 = length (buf c) \<and> buf c' = buf c"
proof -
  have "consumes c (le32 w) c'" by (rule u32c.get_exact [OF assms(1)])
  from consumes_remaining [OF this] this show ?thesis
    using assms(2,3) by (simp add: c_remaining_def consumes_def)
qed

lemma read_n_txout_limit:
  "read_n parse_txout n c = Inr (xs, c') \<Longrightarrow> list_all txout_ok xs"
  by (induction n arbitrary: c xs) (auto simp: rbind_Inr txout_ok_def dest: parse_txout_limit)

lemma parse_props:
  assumes "parse bs = Inr cb"
  shows "list_all txout_ok (cb_outputs cb) \<and> 0 < length (cb_outputs cb) \<and> length (cb_outputs cb) \<le> 10000 \<and>
     2 \<le> length (cb_script_sig cb) \<and> length (cb_script_sig cb) \<le> 100 \<and>
     cb_height cb = bip34_height (cb_script_sig cb) \<and>
     41 \<le> cb_outputs_at cb \<and> cb_outputs_at cb \<le> cb_lock_time_at cb \<and> cb_lock_time_at cb + 4 = length bs"
proof -
  from assms obtain version c1 nin c2 prevout c3 n c4 sig c5 sq c6 nout c7 outs c8 lt c9 where
    1: "c_u32 (cursor_new bs) = Inr (version, c1)" and 2: "read_varint c1 = Inr (nin, c2)" and
    3: "c_take 36 c2 = Inr (prevout, c3)" and 4: "read_varint c3 = Inr (n, c4)" and
    n: "2 \<le> unat n" "unat n \<le> 100" and 5: "c_take (unat n) c4 = Inr (sig, c5)" and
    6: "c_u32 c5 = Inr (sq, c6)" and 7: "read_varint c6 = Inr (nout, c7)" and
    nout: "unat nout \<noteq> 0" "unat nout \<le> 10000" and
    8: "read_n parse_txout (unat nout) c7 = Inr (outs, c8)" and
    9: "c_u32 c8 = Inr (lt, c9)" and e: "c_remaining c9 = 0" and
    cb: "cb = \<lparr>cb_version = version, cb_script_sig = sig, cb_sequence = sq, cb_outputs = outs,
      cb_lock_time = lt, cb_height = bip34_height sig, cb_outputs_at = pos c6, cb_lock_time_at = pos c8\<rparr>"
    by (auto simp: parse_def rbind_Inr Let_def split: if_splits)
  have p1: "pos c1 = 4" "buf c1 = bs"
    using u32c.get_exact [OF 1] by (auto simp: consumes_def cursor_new_def)
  have a2: "advances c1 c2" by (rule varintc.get_advances [OF 2])
  have a3: "pos c3 = pos c2 + 36" "buf c3 = buf c2" using c_take_consumes [OF 3] c_take_length [OF 3]
    by (auto simp: consumes_def)
  have a4: "advances c3 c4" by (rule varintc.get_advances [OF 4])
  have a5: "pos c5 = pos c4 + unat n" "buf c5 = buf c4" using c_take_consumes [OF 5] c_take_length [OF 5]
    by (auto simp: consumes_def)
  have a6: "pos c6 = pos c5 + 4" using u32c.get_exact [OF 6] by (auto simp: consumes_def)
  have m: "41 \<le> pos c6" using p1 a2 a3 a4 a5 a6 n unfolding advances_def by arith
  have all: "advances (cursor_new bs) c8"
    using u32c.get_advances [OF 1] a2 c_take_advances [OF 3] a4 c_take_advances [OF 5]
      u32c.get_advances [OF 6] varintc.get_advances [OF 7] txoutc.read_n_advances [OF 8]
    by (blast intro: advances_trans)
  then have b8: "buf c8 = bs" "pos c8 \<le> length bs" by (simp_all add: advances_def cursor_new_def)
  with u32_consumes_end [OF 9 e] have "pos c8 + 4 = length bs" by simp
  moreover have "advances c6 c8"
    using varintc.get_advances [OF 7] txoutc.read_n_advances [OF 8] by (rule advances_trans)
  then have "pos c6 \<le> pos c8" by (simp add: advances_def)
  ultimately show ?thesis
    using m n nout c_take_length [OF 5] txoutc.read_n_length [OF 8] read_n_txout_limit [OF 8]
    by (simp add: cb)
qed

section \<open>Build and parse\<close>

lemma or_push_bit_add:
  fixes v :: u32
  assumes "unat v < 2 ^ n"
  shows "v OR push_bit n x = v + push_bit n x"
proof (rule disjunctive_add_eq_or [symmetric])
  have "take_bit n v = v"
    using assms by (simp add: word_unat_eq_iff unsigned_take_bit_eq take_bit_nat_eq_self_iff)
  then have "v AND push_bit n x = take_bit n v AND push_bit n x" by simp
  also have "\<dots> = 0" by (rule bit_eqI) (auto simp: bit_simps)
  finally show "v AND push_bit n x = 0" .
qed

lemma bip34_fold:
  fixes v :: u32
  assumes "i + length bs \<le> 4" and "unat v < 256 ^ i"
  shows "unat (foldl (\<lambda>v (i, x). v OR push_bit (8 * i) (ucast x)) v (enumerate i bs)) =
    unat v + 256 ^ i * le_nat bs"
  using assms
proof (induction bs arbitrary: i v)
  case Nil
  then show ?case by simp
next
  case (Cons b bs)
  let ?v = "v OR push_bit (8 * i) (ucast b)"
  have p: "(256 :: nat) ^ i = 2 ^ (8 * i)" by (simp add: power_mult)
  have i: "i \<le> 3" using Cons.prems by simp
  have b: "unat b < 256" using unat_lt [of b] by simp
  have bound: "unat v + 256 ^ i * unat b < 256 ^ Suc i"
  proof -
    have "256 ^ i * unat b \<le> (256 :: nat) ^ i * 255" using b by (intro mult_le_mono2) simp
    moreover have "(256 :: nat) ^ Suc i = 256 ^ i + 256 ^ i * 255" by simp
    ultimately show ?thesis using Cons.prems(2) by linarith
  qed
  moreover have "(256 :: nat) ^ Suc i \<le> 256 ^ 4" using i by (intro power_increasing) simp_all
  ultimately have lim: "unat v + 256 ^ i * unat b < 2 ^ 32" by simp
  have pb: "unat (push_bit (8 * i) (ucast b) :: u32) = 256 ^ i * unat b"
  proof -
    have "unat (push_bit (8 * i) (ucast b) :: u32) = take_bit 32 (push_bit (8 * i) (unat b))"
      by (simp add: unsigned_push_bit_eq unat_ucast_up)
    also have "push_bit (8 * i) (unat b) = 256 ^ i * unat b"
      by (simp add: push_bit_eq_mult p)
    finally have "unat (push_bit (8 * i) (ucast b) :: u32) = take_bit 32 (256 ^ i * unat b)" .
    then show ?thesis using lim by (simp add: take_bit_nat_eq_self_iff)
  qed
  have "?v = v + push_bit (8 * i) (ucast b)"
    using Cons.prems(2) by (intro or_push_bit_add) (simp add: p)
  then have v: "unat ?v = unat v + 256 ^ i * unat b"
    using lim by (simp add: unat_word_ariths pb)
  have "unat ?v < 256 ^ Suc i" using bound v by simp
  then have "unat (foldl (\<lambda>v (i, x). v OR push_bit (8 * i) (ucast x)) ?v (enumerate (Suc i) bs)) =
    unat ?v + 256 ^ Suc i * le_nat bs"
    using Cons.prems(1) by (intro Cons.IH) simp_all
  then show ?case using v by (simp add: algebra_simps)
qed

lemma bip34_height_push:
  assumes "unat n = length bs" and "1 \<le> length bs" and "length bs \<le> 4"
  shows "bip34_height (n # bs @ rest) = Some (of_le bs)"
proof -
  have n: "\<not> 0x51 \<le> n" "1 \<le> n" "n \<le> 4" using assms by (simp_all add: word_le_nat_alt)
  let ?f = "foldl (\<lambda>v (i, x). v OR push_bit (8 * i) (ucast x)) (0 :: u32) (enumerate 0 bs)"
  have "unat ?f = le_nat bs" using bip34_fold [of 0 bs 0] assms by simp
  moreover have "le_nat bs < 2 ^ 32"
    using le_nat_less [of bs] assms(3) power_increasing [of "length bs" 4 "256 :: nat"] by simp
  ultimately have "?f = of_le bs" by (simp add: of_le_def word_unat_eq_iff unat_of_nat_lt)
  then show ?thesis using n assms by (simp add: bip34_height_def)
qed

text \<open>Dropping the most significant zero bytes, but not the last one, keeps the value.\<close>

lemma le_nat_drop_zeros:
  fixes bs :: bytes
  defines "k \<equiv> length (takeWhile (\<lambda>b. b = 0) (rev bs))"
  assumes "length bs - k \<le> n"
  shows "le_nat (take n bs) = le_nat bs"
proof -
  have k: "k \<le> length bs" unfolding k_def using length_takeWhile_le [of "\<lambda>b. b = 0" "rev bs"] by simp
  have "takeWhile (\<lambda>b. b = 0) (rev bs) = replicate k 0"
    unfolding k_def by (rule replicate_length_same [symmetric]) (auto dest: set_takeWhileD)
  then have "rev bs = replicate k 0 @ dropWhile (\<lambda>b. b = 0) (rev bs)"
    using takeWhile_dropWhile_id [of "\<lambda>b. b = 0" "rev bs"] by metis
  then have "bs = rev (dropWhile (\<lambda>b. b = 0) (rev bs)) @ replicate k 0"
    by (metis rev_append rev_replicate rev_rev_ident)
  then obtain ys where ys: "bs = ys @ replicate k 0" by metis
  then have "length ys \<le> n" using assms(2) by simp
  then have "take n bs = ys @ replicate (min (n - length ys) k) 0" by (simp add: ys take_replicate)
  then show ?thesis by (simp add: ys le_nat_app le_nat_replicate_0)
qed

text \<open>The target byte lies behind the height push, so overwriting it keeps the height.\<close>

lemma build_sig_height:
  assumes "build_sig height tag = (sig, t)"
  shows "bip34_height sig = Some height \<and> bip34_height (sig[t := x]) = Some height"
proof -
  define hb where "hb = le32 height"
  define n where "n = max (4 - length (takeWhile (\<lambda>b. b = 0) (rev hb))) 1"
  have hb: "length hb = 4" by (simp add: hb_def)
  have n: "1 \<le> n" "n \<le> 4" by (simp_all add: n_def)
  define rest where "rest = (\<lambda>b. [of_nat (length tag + 1 + EXTRANONCE_SLOT)] @ tag @ [b] @ replicate EXTRANONCE_SLOT (0 :: u8))"
  have sig: "sig = of_nat n # take n hb @ rest 0xff"
    and t: "t = length (of_nat n # take n hb @ [of_nat (length tag + 1 + EXTRANONCE_SLOT)] @ tag)"
    using assms unfolding build_sig_def Let_def hb_def n_def rest_def by auto
  have upd: "sig[t := x] = of_nat n # take n hb @ rest x"
    using n hb by (simp add: sig t rest_def list_update_append min_absorb2)
  have "le_nat (take n hb) = le_nat hb"
    by (rule le_nat_drop_zeros) (simp add: hb n_def)
  then have v: "(of_le (take n hb) :: u32) = height" by (simp add: of_le_def) (simp add: hb_def flip: of_le_def)
  have "unat (of_nat n :: u8) = n" using n by (intro unat_of_nat_lt) simp
  then have "bip34_height (of_nat n # take n hb @ rest b) = Some height" for b
    using n bip34_height_push [of "of_nat n" "take n hb" "rest b"] by (simp add: hb v)
  then show ?thesis by (simp only: upd) (simp add: sig)
qed

lemma build_sig_length:
  assumes "build_sig height tag = (sig, t)"
  shows "t + 13 = length sig \<and> drop t sig = 0xff # replicate 12 0 \<and>
         15 + length tag \<le> length sig \<and> length sig \<le> 19 + length tag"
  using assms by (auto simp: build_sig_def Let_def EXTRANONCE_SLOT_def)

lemma c_read_end: "c_u32 (at_pos pre (le32 w)) = Inr (w, at_pos (pre @ le32 w) [])"
  using u32c.get_put [OF TrueI, of pre w "[]"] by simp

text \<open>Where the fields of a legacy serialization stand, for any scriptSig within the limits.\<close>

lemma parse_serialized:
  fixes version sq lt :: u32
  assumes sig: "2 \<le> length sig" "length sig \<le> 100"
    and outs: "outs \<noteq> []" "length outs \<le> 10000" "list_all txout_ok outs"
  defines "pre \<equiv> le32 version @ [1] @ replicate 32 0 @ replicate 4 0xff @ write_varint (of_nat (length sig))"
  shows "parse (pre @ sig @ le32 sq @ write_varint (of_nat (length outs)) @
      concat (map write_txout outs) @ le32 lt) =
    Inr \<lparr>cb_version = version, cb_script_sig = sig, cb_sequence = sq, cb_outputs = outs, cb_lock_time = lt,
      cb_height = bip34_height sig, cb_outputs_at = length pre + length sig + 4,
      cb_lock_time_at = length pre + length sig + 4 + length (write_varint (of_nat (length outs))) +
        length (concat (map write_txout outs))\<rparr>"
proof -
  define P :: bytes where "P = replicate 32 0 @ replicate 4 0xff"
  have P: "length P = 36" "take 32 P = replicate 32 0" "drop 32 P = replicate 4 0xff"
    by (simp_all add: P_def)
  have one: "[1] = write_varint 1" by (simp add: write_varint_def)
  have n: "unat (of_nat (length sig) :: u64) = length sig" "unat (of_nat (length outs) :: u64) = length outs"
    using sig outs by (simp_all add: unat_of_nat_lt)
  have pre: "pre = le32 version @ write_varint 1 @ P @ write_varint (of_nat (length sig))"
    by (simp add: pre_def P_def one [symmetric])
  have take36: "c_take 36 (at_pos p (P @ s)) = Inr (P, at_pos (p @ P) s)" for p s
    by (rule c_take_at) (rule P)
  show ?thesis
    unfolding parse_def cursor_new_at pre append_assoc
    using sig outs
    by (simp add: word_reads varintc.get_put n txoutc.read_n_put c_take_exact take36 P
        c_read_end c_remaining_at)
qed

lemma build_parts:
  assumes "build height tag outs lt = (full, tidx)"
  obtains sig t pre where "build_sig height tag = (sig, t)"
    and "pre = le32 1 @ [1] @ replicate 32 0 @ replicate 4 0xff @ write_varint (of_nat (length sig))"
    and "full = pre @ sig @ le32 0xffffffff @ write_varint (of_nat (length outs)) @
      concat (map write_txout outs) @ le32 lt"
    and "tidx = length pre + t"
  using assms by (cases "build_sig height tag") (simp add: build_def Let_def)

text \<open>
  Parsing a built coinbase gives back what it was built from.  For a tag of at most 81 bytes
  and between 1 and 10000 outputs with scripts of at most 10000 bytes, \<open>parse\<close> accepts the output of
  \<open>build\<close> and returns its outputs, its lock time and its BIP34 height, whatever the height.
\<close>

theorem coinbase_parse_build:
  assumes "build height tag outs lt = (full, tidx)" and "length tag \<le> 81"
    and "outs \<noteq> []" "length outs \<le> 10000" "list_all txout_ok outs"
  shows "\<exists>cb. parse full = Inr cb \<and> cb_outputs cb = outs \<and> cb_height cb = Some height \<and>
    cb_lock_time cb = lt \<and> cb_version cb = 1 \<and> tidx < cb_outputs_at cb \<and> full ! tidx = 0xff"
proof -
  from assms(1) obtain sig t pre where b: "build_sig height tag = (sig, t)"
    and pre: "pre = le32 1 @ [1] @ replicate 32 0 @ replicate 4 0xff @ write_varint (of_nat (length sig))"
    and full: "full = pre @ sig @ le32 0xffffffff @ write_varint (of_nat (length outs)) @
      concat (map write_txout outs) @ le32 lt"
    and tidx: "tidx = length pre + t" by (rule build_parts)
  have s: "t + 13 = length sig" "drop t sig = 0xff # replicate 12 0" "2 \<le> length sig" "length sig \<le> 100"
    using build_sig_length [OF b] assms(2) by auto
  have "full ! tidx = sig ! t" using s(1) by (simp add: full tidx nth_append)
  also have "\<dots> = 0xff" using s(1,2) by (simp add: Cons_nth_drop_Suc [symmetric])
  finally have "full ! tidx = 0xff" .
  then show ?thesis
    using parse_serialized [OF s(3,4) assms(3-5), of 1 "0xffffffff" lt] build_sig_height [OF b] s(1)
    by (simp add: full pre tidx)
qed

theorem coinbase_parse_build_witness:
  "\<exists>cb. parse (fst (build 966267 [76, 97] [\<lparr>t_value = 5, t_script = [81]\<rparr>] 0)) = Inr cb \<and>
     cb_height cb = Some 966267"
  using coinbase_parse_build [of 966267 "[76, 97]" "[\<lparr>t_value = 5, t_script = [81]\<rparr>]" 0
      "fst (build 966267 [76, 97] [\<lparr>t_value = 5, t_script = [81]\<rparr>] 0)"
      "snd (build 966267 [76, 97] [\<lparr>t_value = 5, t_script = [81]\<rparr>] 0)"]
  by (auto simp: txout_ok_def)

text \<open>
  A share's coinbase, split by a gateway at the extranonce slot and put back together with its
  target byte, commits to the coinbase that was built: whatever the byte, \<open>assemble\<close> of the halves
  parses, and neither the outputs nor the BIP34 height nor the lock time depend on it.
\<close>

theorem assemble_keeps_outputs:
  assumes "build height tag outs lt = (full, tidx)" and "length tag \<le> 81"
    and "outs \<noteq> []" "length outs \<le> 10000" "list_all txout_ok outs"
  shows "\<exists>cb. assemble (take (tidx + 1) full) (drop (tidx + 1 + EXTRANONCE_SLOT) full) tidx pot = full[tidx := pot] \<and>
    parse (full[tidx := pot]) = Inr cb \<and> cb_outputs cb = outs \<and> cb_height cb = Some height \<and> cb_lock_time cb = lt"
proof -
  from assms(1) obtain sig t pre where b: "build_sig height tag = (sig, t)"
    and pre: "pre = le32 1 @ [1] @ replicate 32 0 @ replicate 4 0xff @ write_varint (of_nat (length sig))"
    and full: "full = pre @ sig @ le32 0xffffffff @ write_varint (of_nat (length outs)) @
      concat (map write_txout outs) @ le32 lt"
    and tidx: "tidx = length pre + t" by (rule build_parts)
  define rest where "rest = le32 0xffffffff @ write_varint (of_nat (length outs)) @ concat (map write_txout outs) @ le32 lt"
  have s: "t + 13 = length sig" "drop t sig = 0xff # replicate 12 0" "2 \<le> length sig" "length sig \<le> 100"
    using build_sig_length [OF b] assms(2) by auto
  have sig: "sig = take t sig @ [0xff] @ replicate 12 0"
    using append_take_drop_id [of t sig] s(2) by simp
  have len: "length (take t sig) = t" using s(1) by simp
  have full': "full = (pre @ take t sig @ [0xff]) @ replicate 12 0 @ rest"
    by (subst full, subst sig) (simp add: rest_def)
  have parts: "take (tidx + 1) full = pre @ take t sig @ [0xff]" "drop (tidx + 1 + EXTRANONCE_SLOT) full = rest"
    unfolding full' using len by (simp_all add: tidx EXTRANONCE_SLOT_def)
  moreover have "rest \<noteq> []"
  proof -
    have "0 < length rest" by (simp add: rest_def)
    then show ?thesis by (cases rest) simp_all
  qed
  ultimately have asm: "assemble (take (tidx + 1) full) (drop (tidx + 1 + EXTRANONCE_SLOT) full) tidx pot = full[tidx := pot]"
    unfolding assemble_def parts Let_def using len by (simp add: full' tidx EXTRANONCE_SLOT_def)
  have upd: "full[tidx := pot] = pre @ sig[t := pot] @ rest"
    using s(1) by (simp add: full tidx list_update_append rest_def)
  have "2 \<le> length (sig[t := pot])" "length (sig[t := pot]) \<le> 100" using s(3,4) by simp_all
  from parse_serialized [OF this assms(3-5), of 1 "0xffffffff" lt] show ?thesis
    using build_sig_height [OF b, of pot] unfolding asm unfolding upd by (simp add: pre rest_def)
qed

theorem assemble_keeps_outputs_witness:
  "\<exists>cb. parse ((fst (build 7 [76] [\<lparr>t_value = 5, t_script = [81]\<rparr>] 0))
        [snd (build 7 [76] [\<lparr>t_value = 5, t_script = [81]\<rparr>] 0) := 9]) = Inr cb \<and>
     cb_outputs cb = [\<lparr>t_value = 5, t_script = [81]\<rparr>]"
  using assemble_keeps_outputs [of 7 "[76]" "[\<lparr>t_value = 5, t_script = [81]\<rparr>]" 0
      "fst (build 7 [76] [\<lparr>t_value = 5, t_script = [81]\<rparr>] 0)"
      "snd (build 7 [76] [\<lparr>t_value = 5, t_script = [81]\<rparr>] 0)" 9]
  by (auto simp: txout_ok_def)

text \<open>
  A coinbase that parses can be spliced into a block.  Whatever bytes \<open>parse\<close> accepts,
  \<open>with_witness\<close> does not panic, grows them by exactly the 2-byte marker and flag and the 34-byte
  witness, and removing those gives the legacy bytes back.
\<close>

theorem with_witness_total:
  assumes "parse bs = Inr cb"
  shows "\<exists>v. with_witness bs cb = Some v \<and> length v = length bs + 36 \<and>
    take 4 v @ drop 6 (take (cb_lock_time_at cb + 2) v) @ drop (length v - 4) v = bs \<and>
    take 2 (drop 4 v) = [0, 1] \<and> take 34 (drop (cb_lock_time_at cb + 2) v) = COINBASE_WITNESS"
proof -
  let ?l = "cb_lock_time_at cb"
  have l: "41 \<le> ?l" "?l + 4 = length bs" using parse_props [OF assms] by simp_all
  obtain a b z where abz: "bs = a @ b @ z" "length a = 4" "length b = ?l - 4" "length z = 4"
  proof (rule that)
    have "4 \<le> ?l" using l by simp
    then have "drop ?l bs = drop (?l - 4) (drop 4 bs)" by (simp only: drop_drop le_add_diff_inverse2)
    then show "bs = take 4 bs @ take (?l - 4) (drop 4 bs) @ drop ?l bs"
      by (metis append_take_drop_id)
  qed (use l in simp_all)
  have w: "length COINBASE_WITNESS = 34" by (simp add: COINBASE_WITNESS_def)
  obtain h :: bytes where h: "h = [0, 1]" "length h = 2" by simp
  have v: "with_witness bs cb = Some (a @ h @ b @ COINBASE_WITNESS @ z)"
    using l abz by (simp add: with_witness_def slice_range_def h(1))
  have lb: "?l = length b + 4" using l abz by simp
  show ?thesis unfolding v lb h(1) [symmetric] using abz(1,2,4) w h(2) by simp
qed

theorem with_witness_total_witness:
  "\<exists>bs cb v. parse bs = Inr cb \<and> cb_outputs cb = [\<lparr>t_value = 5, t_script = [81]\<rparr>] \<and>
     with_witness bs cb = Some v \<and> length v = length bs + 36"
proof -
  have ok: "2 \<le> length [1, 7 :: u8]" "length [1, 7 :: u8] \<le> 100" "[\<lparr>t_value = 5, t_script = [81]\<rparr>] \<noteq> []"
    "length [\<lparr>t_value = 5, t_script = [81]\<rparr>] \<le> 10000" "list_all txout_ok [\<lparr>t_value = 5, t_script = [81]\<rparr>]"
    by (simp_all add: txout_ok_def)
  note p = parse_serialized [OF ok, of 1 0 0]
  from with_witness_total [OF p] p show ?thesis by (fastforce simp del: length_append)
qed

end
