(* ===== verification/Verify.thy ===== *)
theory Verify
  imports Pow Mining Coinbase "HOL-Library.AList"
begin

text \<open>
  Pool-side share verification (\<open>wire/src/verify.rs\<close>): the job slot with its caches, the
  classification of a coinbase against the outputs the pool issued, and the rebuild of the header
  a miner hashed.  A \<open>HashMap\<close> is an association list with distinct keys.  Shown: what a session
  can make a slot hold is bounded, the caches never change an answer for one template time and one
  set of flags, an accepted share really carries the work and the coinbase that is reported, and
  what the classification promises about who is paid.
\<close>

unbundle bit_operations_syntax

section \<open>Limits\<close>

definition MAX_TIME_AHEAD :: u32 where "MAX_TIME_AHEAD = 7200"
definition MAX_TIME_BEHIND :: u32 where "MAX_TIME_BEHIND = 3600"
definition MAX_COINBASE_SECTION_BYTES :: nat where "MAX_COINBASE_SECTION_BYTES = 20000"
definition MAX_COINBASES_PER_SLOT :: nat where "MAX_COINBASES_PER_SLOT = 8"
definition MAX_CB_CACHE :: nat where "MAX_CB_CACHE = 32"
definition MAX_H2_CACHE :: nat where "MAX_H2_CACHE = 64"

section \<open>The job slot\<close>

record absorbed =
  ab_job_changed :: bool
  ab_coinbase_added :: "u8 option"

record job_slot =
  js_job :: "job_section option"
  js_coinbases :: "(u8 \<times> coinbase_section) list"
  js_h2_cache :: "((u8 \<times> u8 \<times> u32 \<times> u32) \<times> bytes) list"
  js_cb_cache :: "((u8 \<times> u8) \<times> (bytes \<times> coinbase)) list"
  js_txcount_includes_coinbase :: "bool option"

definition slot_default :: job_slot where
  "slot_default = \<lparr>js_job = None, js_coinbases = [], js_h2_cache = [], js_cb_cache = [],
     js_txcount_includes_coinbase = None\<rparr>"

definition section_bytes :: "coinbase_section \<Rightarrow> nat" where
  "section_bytes c = length (cs_coinb1 c) + length (cs_coinb2 c)"

text \<open>Dropping what the caches derived from one coinbase id.\<close>

definition retain_others :: "u8 \<Rightarrow> job_slot \<Rightarrow> job_slot" where
  "retain_others cid slot =
     slot\<lparr>js_h2_cache := filter (\<lambda>(k, _). fst k \<noteq> cid) (js_h2_cache slot),
          js_cb_cache := filter (\<lambda>(k, _). fst k \<noteq> cid) (js_cb_cache slot)\<rparr>"

text \<open>The job part of \<open>absorb\<close>: a new job starts a fresh slot.\<close>

definition absorb_job :: "job_slot \<Rightarrow> job_section option \<Rightarrow> job_slot \<times> bool" where
  "absorb_job slot job =
     (case job of
        None \<Rightarrow> (slot, False)
      | Some j \<Rightarrow>
          if js_job slot = Some j then (slot, False)
          else (slot\<lparr>js_job := Some j, js_coinbases := [], js_h2_cache := [], js_cb_cache := [],
                     js_txcount_includes_coinbase := None\<rparr>, True))"

definition absorb :: "job_slot \<Rightarrow> pow_submit \<Rightarrow> (u16 + absorbed) \<times> job_slot" where
  "absorb slot s =
     (if (case p_coinbase s of None \<Rightarrow> False | Some c \<Rightarrow> MAX_COINBASE_SECTION_BYTES < section_bytes c)
      then (Inl REJECT_COINBASE_TOO_LARGE, slot)
      else
        let (slot, changed) = absorb_job slot (p_job s) in
        case p_coinbase s of
          None \<Rightarrow> (Inr \<lparr>ab_job_changed = changed, ab_coinbase_added = None\<rparr>, slot)
        | Some c \<Rightarrow>
            let cid = cs_coinbase_id c in
            if map_of (js_coinbases slot) cid = Some c
            then (Inr \<lparr>ab_job_changed = changed, ab_coinbase_added = None\<rparr>, slot)
            else if map_of (js_coinbases slot) cid = None \<and> MAX_COINBASES_PER_SLOT \<le> length (js_coinbases slot)
            then (Inl REJECT_BAD_COINBASE_ID, slot)
            else (Inr \<lparr>ab_job_changed = changed, ab_coinbase_added = Some cid\<rparr>,
                  retain_others cid (slot\<lparr>js_coinbases := AList.update cid c (js_coinbases slot)\<rparr>)))"

definition forget_coinbase :: "job_slot \<Rightarrow> u8 \<Rightarrow> job_slot" where
  "forget_coinbase slot cid =
     retain_others cid (slot\<lparr>js_coinbases := AList.delete cid (js_coinbases slot)\<rparr>)"

definition evict_sections :: "job_slot \<Rightarrow> job_slot" where
  "evict_sections slot = slot\<lparr>js_coinbases := [], js_h2_cache := [], js_cb_cache := []\<rparr>"

definition coinbase_bytes :: "job_slot \<Rightarrow> nat" where
  "coinbase_bytes slot = sum_list (map (\<lambda>(_, c). section_bytes c) (js_coinbases slot))"

definition coinbase_id_for :: "pow_submit \<Rightarrow> u8" where
  "coinbase_id_for s = (if subsidy_only s then 0xff else p_coinbase_id s)"

section \<open>Who a coinbase pays\<close>

datatype coinbase_kind = Split | Partial u16 | PoolOnly | Foreign

record policy =
  pol_pool_script :: bytes
  pol_issued :: "coin_output list option"
  pol_tolerance :: u64
  pol_now :: u32
  pol_min_pot :: u8

text \<open>The first pass over the outputs: whether the pool is paid, and how many outputs nobody issued.\<close>

fun scan_outputs :: "bytes \<Rightarrow> coin_output list option \<Rightarrow> txout list \<Rightarrow> bool \<times> nat \<Rightarrow> bool \<times> nat" where
  "scan_outputs pool_script issued [] acc = acc"
| "scan_outputs pool_script issued (o1 # os) (pool_paid, foreign) =
     scan_outputs pool_script issued os
       (if is_op_return o1 then (pool_paid, foreign)
        else if t_script o1 = pool_script then (True, foreign)
        else if (case issued of None \<Rightarrow> False | Some iss \<Rightarrow> list_ex (\<lambda>i. o_script i = t_script o1) iss)
        then (pool_paid, foreign)
        else (pool_paid, foreign + 1))"

definition is_commit :: "coin_output \<Rightarrow> bool" where
  "is_commit i \<longleftrightarrow> (case o_script i of [] \<Rightarrow> False | b # _ \<Rightarrow> b = 0x6a)"

text \<open>\<open>sats * actual / issued\<close> through \<open>u128\<close>, cast back.\<close>

definition scale_sats :: "u64 \<Rightarrow> u64 \<Rightarrow> u64 \<Rightarrow> u64" where
  "scale_sats sats actual issued = ucast ((ucast sats * ucast actual :: u128) div ucast issued)"

definition owed_of :: "u64 \<Rightarrow> u64 \<Rightarrow> u64 \<Rightarrow> u64" where
  "owed_of issued_value actual_value sats =
     (if issued_value = 0 \<or> issued_value \<le> actual_value then sats
      else scale_sats sats actual_value issued_value)"

definition cap_of :: "u64 \<Rightarrow> u64 \<Rightarrow> u64 \<Rightarrow> u64" where
  "cap_of issued_value actual_value sats =
     (if issued_value = 0 \<or> actual_value \<le> issued_value then sats
      else scale_sats sats actual_value issued_value)"

definition issued_to :: "coin_output list \<Rightarrow> bytes \<rightharpoonup> u64" where
  "issued_to miners =
     foldl (\<lambda>m i. m(o_script i \<mapsto> sat_add (case m (o_script i) of None \<Rightarrow> 0 | Some e \<Rightarrow> e) (o_sats i)))
       Map.empty miners"

text \<open>The loop over the miners' outputs: \<open>Inl\<close> is its early return.\<close>

fun check_miners :: "coinbase \<Rightarrow> u64 \<Rightarrow> u64 \<Rightarrow> (u64 \<Rightarrow> u64) \<Rightarrow> (u64 \<Rightarrow> u64) \<Rightarrow> (bytes \<rightharpoonup> u64) \<Rightarrow>
    coin_output list \<Rightarrow> u16 \<Rightarrow> bool \<Rightarrow> (coinbase_kind + (u16 \<times> bool)) option" where
  "check_miners cb tolerance slack owed cap totals [] present shorted = Some (Inr (present, shorted))"
| "check_miners cb tolerance slack owed cap totals (i # is) present shorted =
     (let paid = paid_to cb (o_script i) in
      if 0 < paid then do {
        present \<leftarrow> checked_add present 1;
        let shorted = (shorted \<or> sat_add paid tolerance < owed (o_sats i));
        let ceiling = cap (case totals (o_script i) of None \<Rightarrow> o_sats i | Some t \<Rightarrow> t);
        if sat_add ceiling slack < paid then Some (Inl Foreign)
        else check_miners cb tolerance slack owed cap totals is present shorted
      }
      else check_miners cb tolerance slack owed cap totals is present shorted)"

definition classify_coinbase :: "coinbase \<Rightarrow> bytes \<Rightarrow> coin_output list option \<Rightarrow> u64 \<Rightarrow> coinbase_kind option" where
  "classify_coinbase cb pool_script issued tolerance =
     (let (pool_paid, foreign) = scan_outputs pool_script issued (cb_outputs cb) (False, 0);
          only_pool = list_all (\<lambda>o1. is_op_return o1 \<or> t_script o1 = pool_script) (cb_outputs cb);
          final = (if pool_paid \<and> only_pool then PoolOnly else Foreign)
      in
      if 0 < foreign then Some Foreign
      else case issued of
        None \<Rightarrow> Some final
      | Some iss \<Rightarrow>
          let commits = filter is_commit iss in
          if list_ex (\<lambda>c. \<not> list_ex (\<lambda>o1. t_script o1 = o_script c) (cb_outputs cb)) commits
          then
            let present = length (filter (\<lambda>i. i \<notin> set commits \<and> 0 < paid_to cb (o_script i)) iss) in
            Some (if 0 < present then Partial (of_nat present) else PoolOnly)
          else
            let miners = filter (\<lambda>i. o_script i \<noteq> pool_script \<and> \<not> is_commit i) iss in do {
              issued_value \<leftarrow> checked_sum 0 (map o_sats iss);
              let actual_value = total_output_value cb;
              let slack = sat_add tolerance (of_nat (length iss));
              r \<leftarrow> check_miners cb tolerance slack (owed_of issued_value actual_value)
                     (cap_of issued_value actual_value) (issued_to miners) miners 0 False;
              case r of
                Inl k \<Rightarrow> Some k
              | Inr (present, shorted) \<Rightarrow>
                  Some (if \<not> shorted \<and> unat present = length miners \<and> (pool_paid \<or> miners \<noteq> []) then Split
                        else if \<not> shorted \<and> 0 < present then Partial present
                        else final)
            })"

section \<open>Rebuilding the header\<close>

record verified_share =
  v_hash :: bytes
  v_work :: u64
  v_target_pot :: u8
  v_height :: u32
  v_ntime :: u32
  v_is_block_candidate :: bool
  v_coinbase_kind :: coinbase_kind
  v_coinbase_value :: u64
  v_paid_to_pool :: u64
  v_commitment :: commitment
  v_coinbase_legacy :: bytes
  v_coinbase :: coinbase

text \<open>The coinbase of a share, from the cache or assembled, parsed and cached.\<close>

definition load_coinbase ::
    "job_slot \<Rightarrow> job_section \<Rightarrow> u8 \<Rightarrow> u8 \<Rightarrow> (u16 + (bytes \<times> coinbase)) \<times> job_slot" where
  "load_coinbase slot job cb_id target_pot =
     (let cb_key = (cb_id, target_pot) in
      case map_of (js_cb_cache slot) cb_key of
        Some e \<Rightarrow> (Inr e, slot)
      | None \<Rightarrow>
          (case map_of (js_coinbases slot) cb_id of
             None \<Rightarrow> (Inl REJECT_COINBASE_MISSING, slot)
           | Some sect \<Rightarrow>
               let legacy = assemble (cs_coinb1 sect) (cs_coinb2 sect) (unat (j_target_byte_index job)) target_pot in
               case parse legacy of
                 Inl _ \<Rightarrow> (Inl REJECT_BAD_COINBASE, slot)
               | Inr parsed \<Rightarrow>
                   if (case cb_height parsed of None \<Rightarrow> False | Some h \<Rightarrow> h \<noteq> j_height job)
                   then (Inl REJECT_BAD_JOB_ID, slot)
                   else
                     let cache = (if MAX_CB_CACHE \<le> length (js_cb_cache slot) then [] else js_cb_cache slot)
                     in (Inr (legacy, parsed), slot\<lparr>js_cb_cache := AList.update cb_key (legacy, parsed) cache\<rparr>)))"

definition share_flags :: "pow_submit \<Rightarrow> u8" where
  "share_flags s = (if use_time_offset s then FLAG_USE_TIME_OFFSET else 0)"

definition time_ok :: "u32 \<Rightarrow> u32 \<Rightarrow> bool" where
  "time_ok now ntime \<longleftrightarrow>
     \<not> (now \<noteq> 0 \<and> (sat_add now MAX_TIME_AHEAD < ntime \<or> sat_add ntime MAX_TIME_BEHIND < now))"

definition fresh_commitment ::
    "u32 \<Rightarrow> job_section \<Rightarrow> u32 \<Rightarrow> u8 \<Rightarrow> bytes \<Rightarrow> u32 \<Rightarrow> commitment" where
  "fresh_commitment version job time_on_wire flags root txcount =
     \<lparr>c_version = version, c_prev_hash = j_prev_hash job, c_height = j_height job, c_merkle_root = root,
      c_time_on_wire = time_on_wire, c_nbits = nbits_u32 job, c_txcount = txcount, c_flags = flags,
      c_xor_clear_bits = 0, c_xor_key = replicate 16 0, c_rhs = replicate 32 0\<rparr>"

definition coinbase_root :: "hash_fun \<Rightarrow> job_section \<Rightarrow> bytes \<Rightarrow> bytes" where
  "coinbase_root sha job legacy = merkle_root sha (sha256d sha legacy) (j_merkle_branches job)"

definition share_txcount :: "job_section \<Rightarrow> bool \<Rightarrow> u32" where
  "share_txcount job includes = (if includes then j_txn_count job else j_txn_count job + 1)"

definition share_hash :: "hash_fun \<Rightarrow> hash_fun \<Rightarrow> pow_submit \<Rightarrow> blake2b_section \<Rightarrow> job_section \<Rightarrow> bytes \<Rightarrow> bytes" where
  "share_hash sha blake s b2 job h =
     (let root = work_root blake h (p_extranonce s);
          sia_prev = sia_prevhash sha (j_prev_hash job);
          work = work_header sia_prev (b_nonce b2) (b_ntime b2) root
      in pow_hash_le sha blake work (replicate 16 0) 0)"

text \<open>The loop over the transaction-count conventions, until one hashes under the target.\<close>

fun try_conventions :: "hash_fun \<Rightarrow> hash_fun \<Rightarrow> pow_submit \<Rightarrow> blake2b_section \<Rightarrow> job_section \<Rightarrow> u32 \<Rightarrow> u8 \<Rightarrow>
    bytes \<Rightarrow> bytes \<Rightarrow> u8 \<Rightarrow> job_slot \<Rightarrow> bool list \<Rightarrow> (commitment \<times> bytes \<times> bool) option \<times> job_slot" where
  "try_conventions sha blake s b2 job tow flags legacy share_target cb_id slot [] = (None, slot)"
| "try_conventions sha blake s b2 job tow flags legacy share_target cb_id slot (includes # conventions) =
     (let txcount = share_txcount job includes;
          key = (cb_id, p_target_pot s, txcount, p_version s);
          (c, h) = (case map_of (js_h2_cache slot) key of
             Some h \<Rightarrow> (fresh_commitment (p_version s) job tow flags (replicate 32 0) txcount, h)
           | None \<Rightarrow>
               let c = fresh_commitment (p_version s) job tow flags (coinbase_root sha job legacy) txcount
               in (c, h2 sha c));
          hash = share_hash sha blake s b2 job h
      in if meets_target hash share_target then
           let cache = (if MAX_H2_CACHE \<le> length (js_h2_cache slot) then [] else js_h2_cache slot)
           in (Some (c, hash, includes), slot\<lparr>js_h2_cache := AList.update key h cache\<rparr>)
         else try_conventions sha blake s b2 job tow flags legacy share_target cb_id slot conventions)"

definition conventions_of :: "job_slot \<Rightarrow> bool list" where
  "conventions_of slot =
     (case js_txcount_includes_coinbase slot of
        Some True \<Rightarrow> [True] | Some False \<Rightarrow> [False] | None \<Rightarrow> [False, True])"

text \<open>What follows the classification and the time check.\<close>

definition check_work :: "hash_fun \<Rightarrow> hash_fun \<Rightarrow> job_slot \<Rightarrow> pow_submit \<Rightarrow> policy \<Rightarrow> bytes \<Rightarrow> blake2b_section \<Rightarrow>
    u32 \<Rightarrow> job_section \<Rightarrow> u8 \<Rightarrow> bytes \<Rightarrow> coinbase \<Rightarrow> coinbase_kind \<Rightarrow> (u16 + verified_share) \<times> job_slot" where
  "check_work sha blake slot s p share_target b2 tow job cb_id legacy parsed kind =
     (let flags = share_flags s; ntime = share_ntime tow (b_ntime b2) flags in
      if \<not> time_ok (pol_now p) ntime then (Inl REJECT_BAD_NTIME, slot)
      else
        let (chosen, slot) = try_conventions sha blake s b2 job tow flags legacy share_target cb_id slot
              (conventions_of slot) in
        case chosen of
          None \<Rightarrow> (Inl REJECT_HIGH_HASH, slot)
        | Some (c, hash, includes) \<Rightarrow>
            let slot = slot\<lparr>js_txcount_includes_coinbase := Some includes\<rparr>;
                c = (if c_merkle_root c = replicate 32 0
                     then c\<lparr>c_merkle_root := coinbase_root sha job legacy\<rparr>
                     else c);
                candidate = (case nbits_to_target_le (c_nbits c) of None \<Rightarrow> False | Some t \<Rightarrow> meets_target hash t)
            in (Inr \<lparr>v_hash = hash, v_work = claimed_work s, v_target_pot = p_target_pot s, v_height = j_height job,
                  v_ntime = ntime, v_is_block_candidate = candidate, v_coinbase_kind = kind,
                  v_coinbase_value = total_output_value parsed,
                  v_paid_to_pool = paid_to parsed (pol_pool_script p), v_commitment = c,
                  v_coinbase_legacy = legacy, v_coinbase = parsed\<rparr>, slot))"

definition verify_with_target :: "hash_fun \<Rightarrow> hash_fun \<Rightarrow> job_slot \<Rightarrow> pow_submit \<Rightarrow> policy \<Rightarrow> bytes \<Rightarrow>
    ((u16 + verified_share) \<times> job_slot) option" where
  "verify_with_target sha blake slot s p share_target =
     (if \<not> is_blake2b s then Some (Inl REJECT_BAD_VERSION, slot)
      else case p_blake2b s of None \<Rightarrow> Some (Inl REJECT_BAD_VERSION, slot) | Some b2 \<Rightarrow>
      case p_time_on_wire s of None \<Rightarrow> Some (Inl REJECT_BAD_NTIME, slot) | Some tow \<Rightarrow>
      case js_job slot of None \<Rightarrow> Some (Inl REJECT_BAD_JOB_ID, slot) | Some job \<Rightarrow>
        let cb_id = coinbase_id_for s in
        case load_coinbase slot job cb_id (p_target_pot s) of
          (Inl e, slot) \<Rightarrow> Some (Inl e, slot)
        | (Inr (legacy, parsed), slot) \<Rightarrow> do {
            kind \<leftarrow> classify_coinbase parsed (pol_pool_script p) (pol_issued p) (pol_tolerance p);
            Some (if kind = Foreign then (Inl REJECT_BAD_COINBASE_OUTPUTS, slot)
                  else check_work sha blake slot s p share_target b2 tow job cb_id legacy parsed kind)
          })"

definition verify :: "hash_fun \<Rightarrow> hash_fun \<Rightarrow> job_slot \<Rightarrow> pow_submit \<Rightarrow> policy \<Rightarrow>
    ((u16 + verified_share) \<times> job_slot) option" where
  "verify sha blake slot s p =
     (if p_target_pot s < pol_min_pot p then Some (Inl REJECT_BAD_TARGET, slot)
      else case share_target_le (p_target_pot s) of
        None \<Rightarrow> Some (Inl REJECT_BAD_TARGET, slot)
      | Some share_target \<Rightarrow> verify_with_target sha blake slot s p share_target)"

definition assemble_block :: "verified_share \<Rightarrow> pow_submit \<Rightarrow> bytes list \<Rightarrow> bytes option" where
  "assemble_block v s txns = do {
     b2 \<leftarrow> p_blake2b s;
     let header = serialize_header_v2 (v_commitment v) (b_nonce b2) (b_ntime b2) (p_extranonce s);
     cb \<leftarrow> with_witness (v_coinbase_legacy v) (v_coinbase v);
     n \<leftarrow> checked_add (of_nat (length txns)) 1;
     Some (header @ write_varint n @ cb @ concat txns)
   }"

text \<open>The inner option is the function's own; the outer one is the panic of \<open>txn_count + 1\<close>.\<close>

definition job_work_for :: "hash_fun \<Rightarrow> hash_fun \<Rightarrow> job_slot \<Rightarrow> pow_submit \<Rightarrow> bool \<Rightarrow> job_work option option" where
  "job_work_for sha blake slot s includes =
     (case js_job slot of None \<Rightarrow> Some None | Some job \<Rightarrow>
      case map_of (js_coinbases slot) (coinbase_id_for s) of None \<Rightarrow> Some None | Some sect \<Rightarrow>
        let legacy = assemble (cs_coinb1 sect) (cs_coinb2 sect) (unat (j_target_byte_index job)) (p_target_pot s);
            root = coinbase_root sha job legacy
        in case p_time_on_wire s of None \<Rightarrow> Some None | Some tow \<Rightarrow> do {
             txcount \<leftarrow> (if includes then Some (j_txn_count job) else checked_add (j_txn_count job) 1);
             Some (Some (job_work_new sha blake
               (fresh_commitment (p_version s) job tow (share_flags s) root txcount) (p_extranonce s)))
           })"

section \<open>What a slot can hold\<close>

lemma length_update_le: "length (AList.update k v xs) \<le> Suc (length xs)"
  by (induction xs) auto

lemma length_update_old: "map_of xs k \<noteq> None \<Longrightarrow> length (AList.update k v xs) = length xs"
  by (induction xs) auto

lemma set_update: "set (AList.update k v xs) \<subseteq> insert (k, v) (set xs)"
  by (induction xs) auto

lemma length_delete_le: "length (AList.delete k xs) \<le> length xs"
  by (simp add: AList.delete_eq)

lemma set_delete: "set (AList.delete k xs) \<subseteq> set xs"
  by (auto simp: AList.delete_eq)

lemma distinct_keys_filter: "distinct (map fst xs) \<Longrightarrow> distinct (map fst (filter P xs))"
  by (induction xs) auto

lemmas distinct_keys = AList.distinct_update AList.distinct_delete distinct_keys_filter

definition slot_bounded :: "job_slot \<Rightarrow> bool" where
  "slot_bounded slot \<longleftrightarrow>
     distinct (map fst (js_coinbases slot)) \<and> length (js_coinbases slot) \<le> MAX_COINBASES_PER_SLOT \<and>
     (\<forall>(_, c) \<in> set (js_coinbases slot). section_bytes c \<le> MAX_COINBASE_SECTION_BYTES) \<and>
     distinct (map fst (js_cb_cache slot)) \<and> length (js_cb_cache slot) \<le> MAX_CB_CACHE \<and>
     distinct (map fst (js_h2_cache slot)) \<and> length (js_h2_cache slot) \<le> MAX_H2_CACHE"

lemma slot_bounded_default: "slot_bounded slot_default"
  by (simp add: slot_bounded_def slot_default_def)

lemma slot_bounded_retain: "slot_bounded slot \<Longrightarrow> slot_bounded (retain_others cid slot)"
  unfolding slot_bounded_def retain_others_def
  by (auto intro: distinct_keys le_trans [OF length_filter_le])

lemma slot_bounded_forget: "slot_bounded slot \<Longrightarrow> slot_bounded (forget_coinbase slot cid)"
  unfolding forget_coinbase_def
  by (rule slot_bounded_retain)
    (use set_delete [of cid "js_coinbases slot"] in
      \<open>auto simp: slot_bounded_def distinct_keys intro: le_trans [OF length_delete_le]\<close>)

lemma slot_bounded_evict: "slot_bounded slot \<Longrightarrow> slot_bounded (evict_sections slot)"
  by (simp add: slot_bounded_def evict_sections_def)

lemma absorb_job_bounded: "absorb_job slot job = (slot', b) \<Longrightarrow> slot_bounded slot \<Longrightarrow> slot_bounded slot'"
  by (auto simp: absorb_job_def slot_bounded_def split: option.splits if_splits)

lemma update_bounded:
  assumes "slot_bounded slot" and "section_bytes c \<le> MAX_COINBASE_SECTION_BYTES"
    and "map_of (js_coinbases slot) cid \<noteq> None \<or> length (js_coinbases slot) < MAX_COINBASES_PER_SLOT"
  shows "slot_bounded (slot\<lparr>js_coinbases := AList.update cid c (js_coinbases slot)\<rparr>)"
proof -
  have "length (AList.update cid c (js_coinbases slot)) \<le> MAX_COINBASES_PER_SLOT"
  proof (cases "map_of (js_coinbases slot) cid = None")
    case False
    then have "length (AList.update cid c (js_coinbases slot)) = length (js_coinbases slot)"
      by (rule length_update_old)
    then show ?thesis using assms(1) by (simp add: slot_bounded_def)
  next
    case True
    then show ?thesis using assms(3) length_update_le [of cid c "js_coinbases slot"] by auto
  qed
  then show ?thesis
    using assms(1,2) set_update [of cid c "js_coinbases slot"]
    by (auto simp: slot_bounded_def distinct_keys)
qed

lemma absorb_bounded:
  assumes "slot_bounded slot"
  shows "slot_bounded (snd (absorb slot s))"
proof (cases "p_coinbase s")
  case None
  then show ?thesis
    using assms absorb_job_bounded by (auto simp: absorb_def split: prod.split)
next
  case (Some c)
  obtain slot1 ch where j: "absorb_job slot (p_job s) = (slot1, ch)" by fastforce
  have b: "slot_bounded slot1" by (rule absorb_job_bounded [OF j assms])
  show ?thesis
    using Some j assms b update_bounded [OF b, of c "cs_coinbase_id c"]
    by (auto simp: absorb_def Let_def not_le intro!: slot_bounded_retain)
qed

lemma load_coinbase_bounded:
  assumes "slot_bounded slot"
  shows "slot_bounded (snd (load_coinbase slot job cid pot))"
proof -
  have "slot_bounded (slot\<lparr>js_cb_cache := AList.update k v
      (if MAX_CB_CACHE \<le> length (js_cb_cache slot) then [] else js_cb_cache slot)\<rparr>)" for k v
    using assms length_update_le [of k v "js_cb_cache slot"]
    by (auto simp: slot_bounded_def distinct_keys MAX_CB_CACHE_def)
  then show ?thesis using assms
    by (auto simp: load_coinbase_def Let_def split: option.split sum.split)
qed

lemma try_conventions_bounded:
  "slot_bounded slot \<Longrightarrow> slot_bounded (snd (try_conventions sha blake s b2 job tow fl legacy t cid slot cs))"
proof (induction cs)
  case (Cons c cs)
  have "slot_bounded (slot\<lparr>js_h2_cache := AList.update k v
      (if MAX_H2_CACHE \<le> length (js_h2_cache slot) then [] else js_h2_cache slot)\<rparr>)" for k v
    using Cons.prems length_update_le [of k v "js_h2_cache slot"]
    by (auto simp: slot_bounded_def distinct_keys MAX_H2_CACHE_def)
  then show ?case using Cons by (auto simp: Let_def split: option.split)
qed simp

lemma set_convention_bounded: "slot_bounded slot \<Longrightarrow> slot_bounded (slot\<lparr>js_txcount_includes_coinbase := x\<rparr>)"
  by (simp add: slot_bounded_def)

lemma check_work_bounded:
  "slot_bounded slot \<Longrightarrow> slot_bounded (snd (check_work sha blake slot s p t b2 tow job cid legacy parsed kind))"
  using try_conventions_bounded [of slot sha blake s b2 job tow "share_flags s" legacy t cid "conventions_of slot"]
  by (auto simp: check_work_def Let_def set_convention_bounded split: prod.split option.split)

text \<open>The ways out of \<open>verify_with_target\<close>.\<close>

lemma verify_cases:
  assumes "verify_with_target sha blake slot s p t = Some (r, slot')"
  obtains (early) e where "r = Inl e" "slot' = slot"
  | (load) job e where "js_job slot = Some job" "r = Inl e"
      "load_coinbase slot job (coinbase_id_for s) (p_target_pot s) = (Inl e, slot')"
  | (foreign) job legacy parsed where "js_job slot = Some job" "r = Inl REJECT_BAD_COINBASE_OUTPUTS"
      "load_coinbase slot job (coinbase_id_for s) (p_target_pot s) = (Inr (legacy, parsed), slot')"
  | (work) b2 tow job legacy parsed slot1 kind where
      "is_blake2b s" "p_blake2b s = Some b2" "p_time_on_wire s = Some tow" "js_job slot = Some job"
      "load_coinbase slot job (coinbase_id_for s) (p_target_pot s) = (Inr (legacy, parsed), slot1)"
      "classify_coinbase parsed (pol_pool_script p) (pol_issued p) (pol_tolerance p) = Some kind"
      "kind \<noteq> Foreign"
      "check_work sha blake slot1 s p t b2 tow job (coinbase_id_for s) legacy parsed kind = (r, slot')"
proof (cases "is_blake2b s \<and> p_blake2b s \<noteq> None \<and> p_time_on_wire s \<noteq> None \<and> js_job slot \<noteq> None")
  case False
  with assms have "\<exists>e. r = Inl e \<and> slot' = slot"
    by (auto simp: verify_with_target_def split: if_splits option.splits)
  then show ?thesis using early by blast
next
  case True
  then obtain b2 tow job where h: "is_blake2b s" "p_blake2b s = Some b2" "p_time_on_wire s = Some tow"
    "js_job slot = Some job" by blast
  obtain l slot1 where l: "load_coinbase slot job (coinbase_id_for s) (p_target_pot s) = (l, slot1)" by fastforce
  show ?thesis
  proof (cases l)
    case (Inl e)
    then show ?thesis using assms h l load [of job e] by (simp add: verify_with_target_def)
  next
    case (Inr x)
    obtain legacy parsed where x: "x = (legacy, parsed)" by fastforce
    from assms h l Inr x obtain kind where
      k: "classify_coinbase parsed (pol_pool_script p) (pol_issued p) (pol_tolerance p) = Some kind" and
      r: "(if kind = Foreign then (Inl REJECT_BAD_COINBASE_OUTPUTS, slot1)
        else check_work sha blake slot1 s p t b2 tow job (coinbase_id_for s) legacy parsed kind) = (r, slot')"
      by (auto simp: verify_with_target_def split: Option.bind_splits)
    show ?thesis
    proof (cases "kind = Foreign")
      case True
      then show ?thesis using r l Inr x h foreign by simp
    next
      case False
      then show ?thesis using r l Inr x h k work by simp
    qed
  qed
qed

lemma verify_with_target_bounded:
  assumes "verify_with_target sha blake slot s p t = Some (r, slot')" and "slot_bounded slot"
  shows "slot_bounded slot'"
  using assms(1)
proof (cases rule: verify_cases)
  case (work b2 tow job legacy parsed slot1 kind)
  then show ?thesis
    using load_coinbase_bounded [OF assms(2)] check_work_bounded by (metis snd_conv)
next
  case (load job e)
  then show ?thesis using load_coinbase_bounded [OF assms(2)] by (metis snd_conv)
next
  case (foreign job legacy parsed)
  then show ?thesis using load_coinbase_bounded [OF assms(2)] by (metis snd_conv)
qed (simp add: assms(2))

text \<open>What a session does to one of its slots.\<close>

inductive slot_step :: "hash_fun \<Rightarrow> hash_fun \<Rightarrow> job_slot \<Rightarrow> job_slot \<Rightarrow> bool" for sha blake where
  absorb: "absorb slot s = (r, slot') \<Longrightarrow> slot_step sha blake slot slot'"
| forget: "slot_step sha blake slot (forget_coinbase slot cid)"
| evict: "slot_step sha blake slot (evict_sections slot)"
| verify: "verify_with_target sha blake slot s p t = Some (r, slot') \<Longrightarrow> slot_step sha blake slot slot'"

lemma slot_step_bounded: "slot_step sha blake slot slot' \<Longrightarrow> slot_bounded slot \<Longrightarrow> slot_bounded slot'"
proof (induction rule: slot_step.induct)
  case (absorb slot s r slot')
  then show ?case using absorb_bounded [of slot s] by simp
qed (auto intro: slot_bounded_forget slot_bounded_evict verify_with_target_bounded)

lemma coinbase_bytes_bound:
  assumes "slot_bounded slot"
  shows "coinbase_bytes slot \<le> 160000"
proof -
  have "sum_list (map f xs) \<le> n * length xs" if "\<forall>x \<in> set xs. f x \<le> n" for f :: "u8 \<times> coinbase_section \<Rightarrow> nat" and n xs
    using that by (induction xs) auto
  from this [of "js_coinbases slot" "\<lambda>(_, c). section_bytes c" MAX_COINBASE_SECTION_BYTES]
  have "coinbase_bytes slot \<le> MAX_COINBASE_SECTION_BYTES * length (js_coinbases slot)"
    using assms by (force simp: coinbase_bytes_def slot_bounded_def)
  also have "\<dots> \<le> 20000 * 8"
    using assms unfolding slot_bounded_def MAX_COINBASE_SECTION_BYTES_def MAX_COINBASES_PER_SLOT_def
    by (intro mult_le_mono) simp_all
  finally show ?thesis by simp
qed

text \<open>
  C26: No sequence of submissions makes a job slot outgrow its limits.  From a fresh slot, whatever
  is absorbed, forgotten, evicted or verified in whatever order, the slot holds at most 8 coinbase
  sections of at most 20000 bytes each, so at most 160000 bytes, and its caches stay within 32
  parsed coinbases and 64 commitments, every key once.
\<close>

theorem slot_memory_bounded:
  assumes "(slot_step sha blake)\<^sup>*\<^sup>* slot_default slot"
  shows "slot_bounded slot \<and> coinbase_bytes slot \<le> 160000"
proof -
  from assms have "slot_bounded slot"
    by (induction rule: rtranclp_induct) (auto intro: slot_bounded_default slot_step_bounded)
  then show ?thesis using coinbase_bytes_bound by simp
qed

theorem slot_memory_bounded_witness:
  "slot_bounded (evict_sections (forget_coinbase slot_default 3)) \<and>
   coinbase_bytes (evict_sections (forget_coinbase slot_default 3)) \<le> 160000"
proof (rule slot_memory_bounded)
  show "(slot_step (\<lambda>b. b) (\<lambda>b. b))\<^sup>*\<^sup>* slot_default (evict_sections (forget_coinbase slot_default 3))"
    by (meson slot_step.forget slot_step.evict rtranclp.rtrancl_into_rtrancl rtranclp.rtrancl_refl)
qed

text \<open>
  A refused section changes nothing.  When \<open>absorb\<close> returns an error the slot is exactly what
  it was, also when the share carried a new job along with the refused coinbase.
\<close>

theorem absorb_refused_unchanged:
  assumes "absorb slot s = (Inl e, slot')"
  shows "slot' = slot \<and> (e = REJECT_COINBASE_TOO_LARGE \<or> e = REJECT_BAD_COINBASE_ID)"
  using assms
  by (auto simp: absorb_def absorb_job_def Let_def MAX_COINBASES_PER_SLOT_def
      split: if_splits option.splits prod.splits)

theorem absorb_refused_unchanged_witness:
  "\<exists>s e. absorb slot_default s = (Inl e, slot_default) \<and> e = REJECT_COINBASE_TOO_LARGE"
proof -
  let ?s = "\<lparr>p_job_id = 3, p_coinbase_id = 4, p_flags = 12, p_target_pot = 13, p_ntime32 = 1, p_nonce32 = 2,
      p_version = 3, p_extranonce = [], p_username = [], p_reserved = [], p_blake2b = None, p_time_on_wire = None,
      p_job = None,
      p_coinbase = Some \<lparr>cs_coinbase_id = 4, cs_coinb1 = replicate 20000 0, cs_coinb2 = [1]\<rparr>\<rparr>"
  have a: "absorb slot_default ?s = (Inl REJECT_COINBASE_TOO_LARGE, slot_default)"
    by (simp add: absorb_def section_bytes_def MAX_COINBASE_SECTION_BYTES_def)
  from absorb_refused_unchanged [OF a] a show ?thesis by blast
qed

section \<open>What the caches hold\<close>

text \<open>The coinbase a slot's sections give for an identifier and a target byte.\<close>

definition section_coinbase :: "job_slot \<Rightarrow> u8 \<Rightarrow> u8 \<Rightarrow> (job_section \<times> bytes) option" where
  "section_coinbase slot cid pot = do {
     job \<leftarrow> js_job slot;
     sect \<leftarrow> map_of (js_coinbases slot) cid;
     Some (job, assemble (cs_coinb1 sect) (cs_coinb2 sect) (unat (j_target_byte_index job)) pot)
   }"

definition cb_entry_ok :: "job_slot \<Rightarrow> (u8 \<times> u8) \<times> (bytes \<times> coinbase) \<Rightarrow> bool" where
  "cb_entry_ok slot e \<longleftrightarrow> (case e of ((cid, pot), (legacy, parsed)) \<Rightarrow>
     \<exists>job. section_coinbase slot cid pot = Some (job, legacy) \<and> parse legacy = Inr parsed \<and>
       (\<forall>h. cb_height parsed = Some h \<longrightarrow> h = j_height job))"

definition h2_entry_ok :: "hash_fun \<Rightarrow> u32 \<Rightarrow> u8 \<Rightarrow> job_slot \<Rightarrow> (u8 \<times> u8 \<times> u32 \<times> u32) \<times> bytes \<Rightarrow> bool" where
  "h2_entry_ok sha tow flags slot e \<longleftrightarrow> (case e of ((cid, pot, txcount, version), h) \<Rightarrow>
     \<exists>job legacy. section_coinbase slot cid pot = Some (job, legacy) \<and>
       h = h2 sha (fresh_commitment version job tow flags (coinbase_root sha job legacy) txcount))"

definition cb_coherent :: "job_slot \<Rightarrow> bool" where
  "cb_coherent slot \<longleftrightarrow> (\<forall>e \<in> set (js_cb_cache slot). cb_entry_ok slot e)"

definition h2_coherent :: "hash_fun \<Rightarrow> u32 \<Rightarrow> u8 \<Rightarrow> job_slot \<Rightarrow> bool" where
  "h2_coherent sha tow flags slot \<longleftrightarrow> (\<forall>e \<in> set (js_h2_cache slot). h2_entry_ok sha tow flags slot e)"

lemma section_coinbase_cong:
  "js_job slot' = js_job slot \<Longrightarrow> map_of (js_coinbases slot') cid = map_of (js_coinbases slot) cid \<Longrightarrow>
   section_coinbase slot' cid pot = section_coinbase slot cid pot"
  by (simp add: section_coinbase_def)

lemma retain_coherent:
  assumes "js_job slot' = js_job slot"
    and "\<And>k. k \<noteq> cid \<Longrightarrow> map_of (js_coinbases slot') k = map_of (js_coinbases slot) k"
    and "js_cb_cache slot' = js_cb_cache slot" "js_h2_cache slot' = js_h2_cache slot"
  shows "(cb_coherent slot \<longrightarrow> cb_coherent (retain_others cid slot')) \<and>
    (h2_coherent sha tow flags slot \<longrightarrow> h2_coherent sha tow flags (retain_others cid slot'))"
proof -
  have "section_coinbase (retain_others cid slot') k pot = section_coinbase slot k pot" if "k \<noteq> cid" for k pot
    using that assms by (intro section_coinbase_cong) (simp_all add: retain_others_def)
  then show ?thesis
    using assms(3,4)
    by (fastforce simp: cb_coherent_def h2_coherent_def retain_others_def cb_entry_ok_def h2_entry_ok_def)
qed

lemma absorb_coherent:
  assumes "absorb slot s = (r, slot')" and "cb_coherent slot"
  shows "cb_coherent slot'" and "h2_coherent sha tow flags slot \<Longrightarrow> h2_coherent sha tow flags slot'"
proof -
  obtain slot1 ch where j: "absorb_job slot (p_job s) = (slot1, ch)" by fastforce
  have c1: "cb_coherent slot1" "h2_coherent sha tow flags slot \<Longrightarrow> h2_coherent sha tow flags slot1"
    using j assms(2) by (auto simp: absorb_job_def cb_coherent_def h2_coherent_def split: option.splits if_splits)
  have upd: "map_of (AList.update cid c xs) k = map_of xs k" if "k \<noteq> cid" for k cid and c :: coinbase_section and xs
    using that by (simp add: AList.update_conv')
  have "cb_coherent slot' \<and> (h2_coherent sha tow flags slot \<longrightarrow> h2_coherent sha tow flags slot')"
  proof (cases "p_coinbase s")
    case None
    then show ?thesis using assms j c1 by (auto simp: absorb_def)
  next
    case (Some c)
    let ?u = "retain_others (cs_coinbase_id c)
        (slot1\<lparr>js_coinbases := AList.update (cs_coinbase_id c) c (js_coinbases slot1)\<rparr>)"
    have "(cb_coherent slot1 \<longrightarrow> cb_coherent ?u) \<and>
        (h2_coherent sha tow flags slot1 \<longrightarrow> h2_coherent sha tow flags ?u)"
      by (rule retain_coherent) (simp_all add: upd)
    moreover have "slot' = slot \<or> slot' = slot1 \<or> slot' = ?u"
      using assms(1) j Some by (auto simp: absorb_def Let_def split: if_splits)
    ultimately show ?thesis using assms(2) c1 by blast
  qed
  then show "cb_coherent slot'" and "h2_coherent sha tow flags slot \<Longrightarrow> h2_coherent sha tow flags slot'" by auto
qed

lemma forget_coherent:
  "cb_coherent slot \<Longrightarrow> cb_coherent (forget_coinbase slot cid)"
  "h2_coherent sha tow flags slot \<Longrightarrow> h2_coherent sha tow flags (forget_coinbase slot cid)"
proof -
  have "map_of (AList.delete cid xs) k = map_of xs k" if "k \<noteq> cid" for k and xs :: "(u8 \<times> coinbase_section) list"
    using that by (simp add: AList.delete_conv')
  then show "cb_coherent slot \<Longrightarrow> cb_coherent (forget_coinbase slot cid)"
    "h2_coherent sha tow flags slot \<Longrightarrow> h2_coherent sha tow flags (forget_coinbase slot cid)"
    using retain_coherent [of "slot\<lparr>js_coinbases := AList.delete cid (js_coinbases slot)\<rparr>" slot cid sha tow flags]
    unfolding forget_coinbase_def by simp_all
qed

lemma evict_coherent: "cb_coherent (evict_sections slot)" "h2_coherent sha tow flags (evict_sections slot)"
  by (simp_all add: evict_sections_def cb_coherent_def h2_coherent_def)

lemma coherent_caches:
  assumes "js_job slot' = js_job slot" "js_coinbases slot' = js_coinbases slot"
  shows "set (js_cb_cache slot') \<subseteq> insert e (set (js_cb_cache slot)) \<Longrightarrow> cb_entry_ok slot e \<Longrightarrow>
      cb_coherent slot \<Longrightarrow> cb_coherent slot'"
    and "set (js_h2_cache slot') \<subseteq> insert f (set (js_h2_cache slot)) \<Longrightarrow> h2_entry_ok sha tow flags slot f \<Longrightarrow>
      h2_coherent sha tow flags slot \<Longrightarrow> h2_coherent sha tow flags slot'"
proof -
  have s: "section_coinbase slot' = section_coinbase slot"
    using assms by (intro ext section_coinbase_cong) simp_all
  have c: "cb_entry_ok slot' = cb_entry_ok slot" "h2_entry_ok sha tow flags slot' = h2_entry_ok sha tow flags slot"
    by (intro ext; simp add: cb_entry_ok_def h2_entry_ok_def s)+
  show "set (js_cb_cache slot') \<subseteq> insert e (set (js_cb_cache slot)) \<Longrightarrow> cb_entry_ok slot e \<Longrightarrow>
      cb_coherent slot \<Longrightarrow> cb_coherent slot'"
    by (auto simp: cb_coherent_def c)
  show "set (js_h2_cache slot') \<subseteq> insert f (set (js_h2_cache slot)) \<Longrightarrow> h2_entry_ok sha tow flags slot f \<Longrightarrow>
      h2_coherent sha tow flags slot \<Longrightarrow> h2_coherent sha tow flags slot'"
    by (auto simp: h2_coherent_def c)
qed

section \<open>Verification without caches\<close>

text \<open>The specification: the same checks on the sections alone.\<close>

definition real_commitment :: "hash_fun \<Rightarrow> pow_submit \<Rightarrow> job_section \<Rightarrow> u32 \<Rightarrow> bytes \<Rightarrow> bool \<Rightarrow> commitment" where
  "real_commitment sha s job tow legacy includes =
     fresh_commitment (p_version s) job tow (share_flags s) (coinbase_root sha job legacy) (share_txcount job includes)"

definition real_hash :: "hash_fun \<Rightarrow> hash_fun \<Rightarrow> pow_submit \<Rightarrow> blake2b_section \<Rightarrow> job_section \<Rightarrow> u32 \<Rightarrow> bytes \<Rightarrow> bool \<Rightarrow> bytes" where
  "real_hash sha blake s b2 job tow legacy includes =
     share_hash sha blake s b2 job (h2 sha (real_commitment sha s job tow legacy includes))"

definition reference_coinbase :: "job_slot \<Rightarrow> u8 \<Rightarrow> u8 \<Rightarrow> job_section \<Rightarrow> u16 + (bytes \<times> coinbase)" where
  "reference_coinbase slot cid pot job =
     (case map_of (js_coinbases slot) cid of
        None \<Rightarrow> Inl REJECT_COINBASE_MISSING
      | Some sect \<Rightarrow>
          let legacy = assemble (cs_coinb1 sect) (cs_coinb2 sect) (unat (j_target_byte_index job)) pot in
          case parse legacy of
            Inl _ \<Rightarrow> Inl REJECT_BAD_COINBASE
          | Inr parsed \<Rightarrow>
              if cb_height parsed \<noteq> None \<and> cb_height parsed \<noteq> Some (j_height job)
              then Inl REJECT_BAD_JOB_ID else Inr (legacy, parsed))"

definition reference_work :: "hash_fun \<Rightarrow> hash_fun \<Rightarrow> job_slot \<Rightarrow> pow_submit \<Rightarrow> policy \<Rightarrow> bytes \<Rightarrow> blake2b_section \<Rightarrow>
    u32 \<Rightarrow> job_section \<Rightarrow> bytes \<Rightarrow> coinbase \<Rightarrow> coinbase_kind \<Rightarrow> u16 + verified_share" where
  "reference_work sha blake slot s p t b2 tow job legacy parsed kind =
     (let ntime = share_ntime tow (b_ntime b2) (share_flags s) in
      if \<not> time_ok (pol_now p) ntime then Inl REJECT_BAD_NTIME
      else case find (\<lambda>i. meets_target (real_hash sha blake s b2 job tow legacy i) t) (conventions_of slot) of
        None \<Rightarrow> Inl REJECT_HIGH_HASH
      | Some includes \<Rightarrow>
          let hash = real_hash sha blake s b2 job tow legacy includes in
          Inr \<lparr>v_hash = hash, v_work = claimed_work s, v_target_pot = p_target_pot s, v_height = j_height job,
               v_ntime = ntime,
               v_is_block_candidate = (case nbits_to_target_le (nbits_u32 job) of None \<Rightarrow> False
                  | Some t \<Rightarrow> meets_target hash t),
               v_coinbase_kind = kind, v_coinbase_value = total_output_value parsed,
               v_paid_to_pool = paid_to parsed (pol_pool_script p),
               v_commitment = real_commitment sha s job tow legacy includes,
               v_coinbase_legacy = legacy, v_coinbase = parsed\<rparr>)"

definition reference_verify :: "hash_fun \<Rightarrow> hash_fun \<Rightarrow> job_slot \<Rightarrow> pow_submit \<Rightarrow> policy \<Rightarrow> bytes \<Rightarrow>
    (u16 + verified_share) option" where
  "reference_verify sha blake slot s p t =
     (if \<not> is_blake2b s then Some (Inl REJECT_BAD_VERSION)
      else case p_blake2b s of None \<Rightarrow> Some (Inl REJECT_BAD_VERSION) | Some b2 \<Rightarrow>
      case p_time_on_wire s of None \<Rightarrow> Some (Inl REJECT_BAD_NTIME) | Some tow \<Rightarrow>
      case js_job slot of None \<Rightarrow> Some (Inl REJECT_BAD_JOB_ID) | Some job \<Rightarrow>
      case reference_coinbase slot (coinbase_id_for s) (p_target_pot s) job of
        Inl e \<Rightarrow> Some (Inl e)
      | Inr (legacy, parsed) \<Rightarrow>
          map_option (\<lambda>kind. if kind = Foreign then Inl REJECT_BAD_COINBASE_OUTPUTS
              else reference_work sha blake slot s p t b2 tow job legacy parsed kind)
            (classify_coinbase parsed (pol_pool_script p) (pol_issued p) (pol_tolerance p)))"

lemma section_coinbase_Some:
  "section_coinbase slot cid pot = Some (job, legacy) \<longleftrightarrow>
   js_job slot = Some job \<and> (\<exists>sect. map_of (js_coinbases slot) cid = Some sect \<and>
     legacy = assemble (cs_coinb1 sect) (cs_coinb2 sect) (unat (j_target_byte_index job)) pot)"
  by (auto simp: section_coinbase_def split: Option.bind_splits)

lemma reference_coinbase_Inr:
  assumes "js_job slot = Some job"
  shows "reference_coinbase slot cid pot job = Inr (legacy, parsed) \<longleftrightarrow> cb_entry_ok slot ((cid, pot), (legacy, parsed))"
  using assms
  by (auto simp: reference_coinbase_def cb_entry_ok_def section_coinbase_Some Let_def
      split: option.splits sum.splits)

lemma load_coinbase_spec:
  assumes "load_coinbase slot job cid pot = (r, slot1)" and "js_job slot = Some job" and "cb_coherent slot"
  shows "r = reference_coinbase slot cid pot job" and "cb_coherent slot1"
    and "js_job slot1 = js_job slot" "js_coinbases slot1 = js_coinbases slot" "js_h2_cache slot1 = js_h2_cache slot"
      "js_txcount_includes_coinbase slot1 = js_txcount_includes_coinbase slot"
proof -
  show r: "r = reference_coinbase slot cid pot job"
  proof (cases "map_of (js_cb_cache slot) (cid, pot)")
    case None
    then show ?thesis using assms(1)
      by (auto simp: load_coinbase_def reference_coinbase_def Let_def split: option.splits sum.splits if_splits)
  next
    case (Some e)
    then have "((cid, pot), e) \<in> set (js_cb_cache slot)" by (rule map_of_SomeD)
    then have "cb_entry_ok slot ((cid, pot), e)" using assms(3) by (simp add: cb_coherent_def)
    moreover have "r = Inr e" using assms(1) Some by (simp add: load_coinbase_def)
    ultimately show ?thesis using reference_coinbase_Inr [OF assms(2), of cid pot "fst e" "snd e"] by simp
  qed
  show 1: "js_job slot1 = js_job slot" "js_coinbases slot1 = js_coinbases slot" "js_h2_cache slot1 = js_h2_cache slot"
      "js_txcount_includes_coinbase slot1 = js_txcount_includes_coinbase slot"
    using assms(1) by (auto simp: load_coinbase_def Let_def split: option.splits sum.splits if_splits)
  have "slot1 = slot \<or> (\<exists>legacy parsed. r = Inr (legacy, parsed) \<and>
      set (js_cb_cache slot1) \<subseteq> insert ((cid, pot), (legacy, parsed)) (set (js_cb_cache slot)))"
    using assms(1) set_update [of "(cid, pot)" _ "js_cb_cache slot"] set_update [of "(cid, pot)" _ "[]"]
    by (auto simp: load_coinbase_def Let_def split: option.splits sum.splits if_splits)
  then show "cb_coherent slot1"
  proof (elim disjE exE conjE)
    fix legacy parsed
    assume "r = Inr (legacy, parsed)"
      and s: "set (js_cb_cache slot1) \<subseteq> insert ((cid, pot), (legacy, parsed)) (set (js_cb_cache slot))"
    then have "cb_entry_ok slot ((cid, pot), (legacy, parsed))"
      using r reference_coinbase_Inr [OF assms(2)] by simp
    then show ?thesis using coherent_caches(1) [OF 1(1,2) s] assms(3) by simp
  qed (use assms(3) in simp)
qed

lemma try_conventions_spec:
  assumes "h2_coherent sha tow (share_flags s) slot"
    and "section_coinbase slot cid (p_target_pot s) = Some (job, legacy)"
    and "try_conventions sha blake s b2 job tow (share_flags s) legacy t cid slot cs = (r, slot1)"
  shows "(case find (\<lambda>i. meets_target (real_hash sha blake s b2 job tow legacy i) t) cs of
      None \<Rightarrow> r = None
    | Some i \<Rightarrow> \<exists>root. r = Some ((real_commitment sha s job tow legacy i)\<lparr>c_merkle_root := root\<rparr>,
          real_hash sha blake s b2 job tow legacy i, i) \<and>
        (root = replicate 32 0 \<or> root = coinbase_root sha job legacy)) \<and>
    h2_coherent sha tow (share_flags s) slot1 \<and> js_cb_cache slot1 = js_cb_cache slot \<and>
    js_job slot1 = js_job slot \<and> js_coinbases slot1 = js_coinbases slot"
  using assms(3)
proof (induction cs)
  case Nil
  then show ?case using assms(1) by simp
next
  case (Cons i cs)
  let ?tx = "share_txcount job i"
  let ?key = "(cid, p_target_pot s, ?tx, p_version s)"
  let ?real = "real_commitment sha s job tow legacy i"
  define c where "c = (case map_of (js_h2_cache slot) ?key of
      Some _ \<Rightarrow> ?real\<lparr>c_merkle_root := replicate 32 0\<rparr> | None \<Rightarrow> ?real)"
  have hit: "h = h2 sha ?real" if "map_of (js_h2_cache slot) ?key = Some h" for h
  proof -
    have "h2_entry_ok sha tow (share_flags s) slot (?key, h)"
      using assms(1) map_of_SomeD [OF that] by (simp add: h2_coherent_def)
    then show ?thesis using assms(2) by (simp add: h2_entry_ok_def real_commitment_def)
  qed
  have pair: "(case map_of (js_h2_cache slot) ?key of
      Some h \<Rightarrow> (fresh_commitment (p_version s) job tow (share_flags s) (replicate 32 0) ?tx, h)
    | None \<Rightarrow> let c = fresh_commitment (p_version s) job tow (share_flags s) (coinbase_root sha job legacy) ?tx
        in (c, h2 sha c)) = (c, h2 sha ?real)"
    using hit by (auto simp: c_def real_commitment_def fresh_commitment_def Let_def split: option.split)
  have root: "\<exists>root. c = ?real\<lparr>c_merkle_root := root\<rparr> \<and> (root = replicate 32 0 \<or> root = coinbase_root sha job legacy)"
    by (cases "map_of (js_h2_cache slot) ?key") (auto simp: c_def real_commitment_def fresh_commitment_def)
  have step: "try_conventions sha blake s b2 job tow (share_flags s) legacy t cid slot (i # cs) =
      (if meets_target (real_hash sha blake s b2 job tow legacy i) t
       then (Some (c, real_hash sha blake s b2 job tow legacy i, i),
         slot\<lparr>js_h2_cache := AList.update ?key (h2 sha ?real)
           (if MAX_H2_CACHE \<le> length (js_h2_cache slot) then [] else js_h2_cache slot)\<rparr>)
       else try_conventions sha blake s b2 job tow (share_flags s) legacy t cid slot cs)"
    by (simp only: try_conventions.simps Let_def [of "share_txcount job i"] Let_def [of "(cid, _)"] pair)
      (simp add: Let_def real_hash_def)
  show ?case
  proof (cases "meets_target (real_hash sha blake s b2 job tow legacy i) t")
    case False
    then show ?thesis using Cons step by simp
  next
    case True
    have e: "h2_entry_ok sha tow (share_flags s) slot (?key, h2 sha ?real)"
      using assms(2) by (simp add: h2_entry_ok_def real_commitment_def)
    define xs where "xs = (if MAX_H2_CACHE \<le> length (js_h2_cache slot) then [] else js_h2_cache slot)"
    have "try_conventions sha blake s b2 job tow (share_flags s) legacy t cid slot (i # cs) =
        (Some (c, real_hash sha blake s b2 job tow legacy i, i),
         slot\<lparr>js_h2_cache := AList.update ?key (h2 sha ?real) xs\<rparr>)"
      unfolding step xs_def using True by (rule if_P)
    note eq = trans [OF Cons.prems [symmetric] this]
    have r: "r = Some (c, real_hash sha blake s b2 job tow legacy i, i)"
      and s1: "slot1 = slot\<lparr>js_h2_cache := AList.update ?key (h2 sha ?real) xs\<rparr>"
      using arg_cong [OF eq, of fst] arg_cong [OF eq, of snd] by (simp_all only: fst_conv snd_conv)
    have "set (AList.update ?key (h2 sha ?real) xs) \<subseteq> insert (?key, h2 sha ?real) (set xs)"
      by (rule set_update)
    then have sub: "set (js_h2_cache slot1) \<subseteq> insert (?key, h2 sha ?real) (set (js_h2_cache slot))"
      by (auto simp: s1 xs_def split: if_splits)
    have "h2_coherent sha tow (share_flags s) slot1"
      by (rule coherent_caches(2) [OF _ _ sub e assms(1)]) (simp_all add: s1)
    then show ?thesis using root True by (auto simp: r s1)
  qed
qed

lemma check_work_spec:
  assumes "h2_coherent sha tow (share_flags s) slot" and "cb_coherent slot"
    and "section_coinbase slot cid (p_target_pot s) = Some (job, legacy)"
    and "check_work sha blake slot s p t b2 tow job cid legacy parsed kind = (r, slot1)"
  shows "r = reference_work sha blake slot s p t b2 tow job legacy parsed kind \<and>
    cb_coherent slot1 \<and> h2_coherent sha tow (share_flags s) slot1"
proof -
  obtain ch slot2 where tr: "try_conventions sha blake s b2 job tow (share_flags s) legacy t cid slot
      (conventions_of slot) = (ch, slot2)" by fastforce
  note spec = try_conventions_spec [OF assms(1,3) tr]
  have c2: "cb_coherent slot2" "h2_coherent sha tow (share_flags s) slot2"
    using spec assms(2) coherent_caches(1) [of slot2 slot] by (auto simp: cb_coherent_def cb_entry_ok_def section_coinbase_def)
  have upd: "cb_coherent (slot2\<lparr>js_txcount_includes_coinbase := x\<rparr>)"
    "h2_coherent sha tow (share_flags s) (slot2\<lparr>js_txcount_includes_coinbase := x\<rparr>)" for x
    using c2 by (simp_all add: cb_coherent_def h2_coherent_def cb_entry_ok_def h2_entry_ok_def section_coinbase_def)
  have fixed: "(if c_merkle_root c = replicate 32 0 then c\<lparr>c_merkle_root := coinbase_root sha job legacy\<rparr> else c) =
      real_commitment sha s job tow legacy i"
    if "c = (real_commitment sha s job tow legacy i)\<lparr>c_merkle_root := root\<rparr>"
      "root = replicate 32 0 \<or> root = coinbase_root sha job legacy" for c root i
    using that by (auto simp: real_commitment_def fresh_commitment_def)
  have nb: "c_nbits (real_commitment sha s job tow legacy i) = nbits_u32 job" for i
    by (simp add: real_commitment_def fresh_commitment_def)
  show ?thesis
  proof (cases "time_ok (pol_now p) (share_ntime tow (b_ntime b2) (share_flags s))")
    case False
    then show ?thesis using assms by (simp add: check_work_def reference_work_def)
  next
    case True
    show ?thesis
    proof (cases "find (\<lambda>i. meets_target (real_hash sha blake s b2 job tow legacy i) t) (conventions_of slot)")
      case None
      then show ?thesis
        using spec assms(4) True tr c2 by (auto simp: check_work_def reference_work_def)
    next
      case (Some i)
      with spec obtain root where
        ch: "ch = Some ((real_commitment sha s job tow legacy i)\<lparr>c_merkle_root := root\<rparr>,
          real_hash sha blake s b2 job tow legacy i, i)" and
        root: "root = replicate 32 0 \<or> root = coinbase_root sha job legacy" by auto
      show ?thesis
        using assms(4) True tr upd fixed [OF refl root] Some
        by (auto simp: check_work_def reference_work_def ch Let_def nb)
    qed
  qed
qed

lemma reference_work_cong:
  "js_txcount_includes_coinbase slot' = js_txcount_includes_coinbase slot \<Longrightarrow>
   reference_work sha blake slot' s p t b2 tow job legacy parsed kind =
   reference_work sha blake slot s p t b2 tow job legacy parsed kind"
proof -
  assume "js_txcount_includes_coinbase slot' = js_txcount_includes_coinbase slot"
  then have "conventions_of slot' = conventions_of slot" by (simp add: conventions_of_def)
  then show ?thesis by (simp only: reference_work_def)
qed

lemma verify_refines:
  assumes coh: "cb_coherent slot" "\<And>tow. p_time_on_wire s = Some tow \<Longrightarrow> h2_coherent sha tow (share_flags s) slot"
  shows "map_option fst (verify_with_target sha blake slot s p t) = reference_verify sha blake slot s p t \<and>
    (\<forall>r slot'. verify_with_target sha blake slot s p t = Some (r, slot') \<longrightarrow> cb_coherent slot' \<and>
       (\<forall>tow. p_time_on_wire s = Some tow \<longrightarrow> h2_coherent sha tow (share_flags s) slot'))"
proof (cases "is_blake2b s \<and> p_blake2b s \<noteq> None \<and> p_time_on_wire s \<noteq> None \<and> js_job slot \<noteq> None")
  case False
  then show ?thesis
    using coh by (auto simp: verify_with_target_def reference_verify_def split: option.splits)
next
  case True
  then obtain b2 tow job where h: "is_blake2b s" "p_blake2b s = Some b2" "p_time_on_wire s = Some tow"
    "js_job slot = Some job" by blast
  obtain l slot1 where l: "load_coinbase slot job (coinbase_id_for s) (p_target_pot s) = (l, slot1)" by fastforce
  note spec = load_coinbase_spec [OF l h(4) coh(1)]
  have h2c: "h2_coherent sha tow (share_flags s) slot1"
    using coh(2) [OF h(3)] spec(3-5) by (auto simp: h2_coherent_def h2_entry_ok_def section_coinbase_def)
  show ?thesis
  proof (cases l)
    case (Inl e)
    then show ?thesis using h l spec h2c by (auto simp: verify_with_target_def reference_verify_def)
  next
    case (Inr x)
    obtain legacy parsed where x: "x = (legacy, parsed)" by fastforce
    have "cb_entry_ok slot ((coinbase_id_for s, p_target_pot s), (legacy, parsed))"
      by (metis reference_coinbase_Inr [OF h(4)] spec(1) Inr x)
    then have sc: "section_coinbase slot1 (coinbase_id_for s) (p_target_pot s) = Some (job, legacy)"
      using h(4) section_coinbase_cong [OF spec(3), of "coinbase_id_for s" "p_target_pot s"] spec(4)
      by (auto simp: cb_entry_ok_def section_coinbase_Some)
    show ?thesis
    proof (cases "classify_coinbase parsed (pol_pool_script p) (pol_issued p) (pol_tolerance p)")
      case None
      then show ?thesis using h l Inr x spec(1) by (simp add: verify_with_target_def reference_verify_def)
    next
      case (Some kind)
      obtain r slot2 where c: "check_work sha blake slot1 s p t b2 tow job (coinbase_id_for s) legacy parsed kind = (r, slot2)"
        by fastforce
      from check_work_spec [OF h2c spec(2) sc c] have
        "r = reference_work sha blake slot s p t b2 tow job legacy parsed kind"
        "cb_coherent slot2" "h2_coherent sha tow (share_flags s) slot2"
        using reference_work_cong [OF spec(6)] by simp_all
      then show ?thesis
        using h l Inr x spec c Some h2c by (simp add: verify_with_target_def reference_verify_def)
    qed
  qed
qed

text \<open>A slot's history while its shares keep one template time and one set of flags.\<close>

definition share_at :: "u32 \<Rightarrow> u8 \<Rightarrow> pow_submit \<Rightarrow> bool" where
  "share_at tow flags s \<longleftrightarrow> p_time_on_wire s = None \<or> (p_time_on_wire s = Some tow \<and> share_flags s = flags)"

inductive timed_step :: "hash_fun \<Rightarrow> hash_fun \<Rightarrow> u32 \<Rightarrow> u8 \<Rightarrow> job_slot \<Rightarrow> job_slot \<Rightarrow> bool"
  for sha blake tow flags where
  absorb: "absorb slot s = (r, slot') \<Longrightarrow> timed_step sha blake tow flags slot slot'"
| forget: "timed_step sha blake tow flags slot (forget_coinbase slot cid)"
| evict: "timed_step sha blake tow flags slot (evict_sections slot)"
| verify: "verify_with_target sha blake slot s p t = Some (r, slot') \<Longrightarrow> share_at tow flags s \<Longrightarrow>
    timed_step sha blake tow flags slot slot'"

lemma share_at_coherent:
  "h2_coherent sha tow flags slot \<Longrightarrow> share_at tow flags s \<Longrightarrow> p_time_on_wire s = Some tow' \<Longrightarrow>
   h2_coherent sha tow' (share_flags s) slot"
  by (auto simp: share_at_def)

lemma verify_no_time:
  "p_time_on_wire s = None \<Longrightarrow> verify_with_target sha blake slot s p t = Some (r, slot') \<Longrightarrow> slot' = slot"
  by (auto simp: verify_with_target_def split: if_splits option.splits)

lemma timed_step_coherent:
  "timed_step sha blake tow flags slot slot' \<Longrightarrow> cb_coherent slot \<and> h2_coherent sha tow flags slot \<Longrightarrow>
   cb_coherent slot' \<and> h2_coherent sha tow flags slot'"
proof (induction rule: timed_step.induct)
  case (absorb slot s r slot')
  then show ?case using absorb_coherent by blast
next
  case (forget slot cid)
  then show ?case using forget_coherent by blast
next
  case (evict slot)
  then show ?case using evict_coherent by blast
next
  case (verify slot s p t r slot')
  show ?case
  proof (cases "p_time_on_wire s")
    case None
    then show ?thesis using verify verify_no_time by blast
  next
    case (Some tow')
    then have "tow' = tow" "share_flags s = flags" using verify by (auto simp: share_at_def)
    then show ?thesis
      using verify verify_refines [of slot s sha blake p t] share_at_coherent Some by blast
  qed
qed

lemma timed_coherent:
  "(timed_step sha blake tow flags)\<^sup>*\<^sup>* slot_default slot \<Longrightarrow> cb_coherent slot \<and> h2_coherent sha tow flags slot"
proof (induction rule: rtranclp_induct)
  case base
  show ?case by (simp add: slot_default_def cb_coherent_def h2_coherent_def)
next
  case (step y z)
  then show ?case using timed_step_coherent by blast
qed

text \<open>
  C25: The caches never change an answer.  For any history of absorbing, forgetting, evicting and
  verifying on a slot in which the shares keep one template time and one set of flags, verifying
  the next such share gives exactly what the cache-free specification gives: the same rejection or
  the same verified share, commitment included, and it panics on the same inputs.
\<close>

theorem verify_cache_transparent:
  assumes "(timed_step sha blake tow flags)\<^sup>*\<^sup>* slot_default slot" and "share_at tow flags s"
  shows "map_option fst (verify_with_target sha blake slot s p t) = reference_verify sha blake slot s p t"
  using verify_refines [of slot s sha blake p t] timed_coherent [OF assms(1)] share_at_coherent [OF _ assms(2)]
  by blast

lemma len64: "LENGTH(64) = 64"
  by simp

lemma find_Some_in: "find P xs = Some x \<Longrightarrow> P x \<and> x \<in> set xs"
  by (induction xs) (auto split: if_splits)

lemma claimed_work_value: "unat (claimed_work s) = min (2 ^ unat (p_target_pot s)) (2 ^ 64 - 1)"
proof (cases "64 \<le> p_target_pot s")
  case True
  then have "(2 :: nat) ^ 64 \<le> 2 ^ unat (p_target_pot s)"
    by (intro power_increasing) (simp_all add: word_le_nat_alt)
  then have "min (2 ^ unat (p_target_pot s)) (2 ^ 64 - 1) = (2 :: nat) ^ 64 - 1" by simp
  then show ?thesis using True
    by (simp add: claimed_work_def unsigned_minus_1_eq_mask mask_eq_exp_minus_1)
next
  case False
  then have p: "unat (p_target_pot s) < 64" by (simp add: word_le_nat_alt)
  then have lt: "(2 :: nat) ^ unat (p_target_pot s) < 2 ^ 64" by (intro power_strict_increasing) simp_all
  have "push_bit (unat (p_target_pot s)) 1 = (of_nat (2 ^ unat (p_target_pot s)) :: u64)"
    by (simp add: push_bit_eq_mult)
  then have "unat (push_bit (unat (p_target_pot s)) 1 :: u64) = 2 ^ unat (p_target_pot s)"
    using lt by (simp only: unat_of_nat_lt len64)
  then show ?thesis using False lt by (simp add: claimed_work_def)
qed

lemma share_hash_length: "\<forall>x. length (blake x) = 32 \<Longrightarrow> length (share_hash sha blake s b2 job h) = 32"
  by (simp add: share_hash_def Let_def pow_hash_zero_key)

lemma reference_verify_Inr:
  assumes "reference_verify sha blake slot s p t = Some (Inr v)"
  obtains b2 tow job legacy parsed kind i where
    "is_blake2b s" "p_blake2b s = Some b2" "p_time_on_wire s = Some tow" "js_job slot = Some job"
    "reference_coinbase slot (coinbase_id_for s) (p_target_pot s) job = Inr (legacy, parsed)"
    "classify_coinbase parsed (pol_pool_script p) (pol_issued p) (pol_tolerance p) = Some kind" "kind \<noteq> Foreign"
    "time_ok (pol_now p) (share_ntime tow (b_ntime b2) (share_flags s))"
    "i \<in> set (conventions_of slot)" "meets_target (real_hash sha blake s b2 job tow legacy i) t"
    "v_hash v = real_hash sha blake s b2 job tow legacy i" "v_work v = claimed_work s"
    "v_coinbase_kind v = kind" "v_commitment v = real_commitment sha s job tow legacy i"
    "v_coinbase_legacy v = legacy" "v_coinbase v = parsed"
    "v_ntime v = share_ntime tow (b_ntime b2) (share_flags s)" "v_height v = j_height job"
    "v_paid_to_pool v = paid_to parsed (pol_pool_script p)"
  using assms unfolding reference_verify_def reference_work_def Let_def
  by (auto split: if_splits option.splits sum.splits prod.splits dest!: find_Some_in)

section \<open>Soundness of an accepted share\<close>

lemma verify_target:
  "verify sha blake slot s p = Some (Inr v, slot') \<Longrightarrow>
   \<exists>t. share_target_le (p_target_pot s) = Some t \<and> verify_with_target sha blake slot s p t = Some (Inr v, slot') \<and>
     pol_min_pot p \<le> p_target_pot s"
  by (auto simp: verify_def split: if_splits option.splits)


section \<open>An example share\<close>

definition demo_outputs :: "txout list" where
  "demo_outputs = [\<lparr>t_value = 5, t_script = [81, 1]\<rparr>]"

definition demo_coinbase :: bytes where
  "demo_coinbase = (le32 1 @ [1] @ replicate 32 0 @ replicate 4 0xff @ write_varint (of_nat (length [1, 7 :: u8]))) @
     [1, 7] @ le32 0 @ write_varint (of_nat (length demo_outputs)) @ concat (map write_txout demo_outputs) @ le32 0"

definition demo_job :: job_section where
  "demo_job = \<lparr>j_prev_hash = replicate 32 7, j_target_byte_index = 0, j_nbits = [0, 0, 0, 3], j_coinbaser_id = 1,
      j_height = 7, j_coinbase_value = 5, j_txn_count = 0, j_txn_total_weight = 0, j_txn_total_size = 0,
      j_txn_total_sigops = 0, j_merkle_branches = []\<rparr>"

definition demo_share :: "u32 \<Rightarrow> pow_submit" where
  "demo_share tow = \<lparr>p_job_id = 0, p_coinbase_id = 4, p_flags = FLAG_BLAKE2B, p_target_pot = 3, p_ntime32 = 0, p_nonce32 = 0,
      p_version = 0, p_extranonce = replicate 12 0, p_username = ''m'', p_reserved = [0, 0, 0, 0],
      p_blake2b = Some \<lparr>b_ntime = replicate 8 0, b_nonce = replicate 8 0\<rparr>, p_time_on_wire = Some tow,
      p_job = Some demo_job,
      p_coinbase = Some \<lparr>cs_coinbase_id = 4, cs_coinb1 = demo_coinbase, cs_coinb2 = []\<rparr>\<rparr>"

definition demo_policy :: policy where
  "demo_policy = \<lparr>pol_pool_script = [81, 1], pol_issued = None, pol_tolerance = 0, pol_now = 0, pol_min_pot = 1\<rparr>"

lemma demo_coinbase_parse: "\<exists>cb. parse demo_coinbase = Inr cb \<and> cb_outputs cb = demo_outputs \<and> cb_height cb = Some 7"
proof -
  have ok: "2 \<le> length [1, 7 :: u8]" "length [1, 7 :: u8] \<le> 100" "demo_outputs \<noteq> []"
    "length demo_outputs \<le> 10000" "list_all txout_ok demo_outputs"
    by (simp_all add: demo_outputs_def txout_ok_def)
  have "bip34_height [1, 7] = Some 7"
    using bip34_height_push [of 1 "[7]" "[]"] by (simp add: of_le_def)
  then show ?thesis
    unfolding demo_coinbase_def using parse_serialized [OF ok, of 1 0 0] by simp
qed

lemma demo_section: "section_bytes \<lparr>cs_coinbase_id = 4, cs_coinb1 = demo_coinbase, cs_coinb2 = []\<rparr> \<le> 20000"
  by (simp add: section_bytes_def demo_coinbase_def demo_outputs_def write_varint_def write_txout_def)

lemma demo_flags: "subsidy_only (demo_share tow) = False" "is_blake2b (demo_share tow)"
    "share_flags (demo_share tow) = 0" "coinbase_id_for (demo_share tow) = 4"
  by (simp_all add: subsidy_only_def is_blake2b_def share_flags_def use_time_offset_def coinbase_id_for_def demo_share_def
      FLAG_SUBSIDY_ONLY_def FLAG_BLAKE2B_def RESERVED_USE_TIME_OFFSET_def)

lemma demo_fields: "p_blake2b (demo_share tow) = Some \<lparr>b_ntime = replicate 8 0, b_nonce = replicate 8 0\<rparr>"
  "p_time_on_wire (demo_share tow) = Some tow" "p_target_pot (demo_share tow) = 3"
  "p_job (demo_share tow) = Some demo_job" "j_target_byte_index demo_job = 0" "j_height demo_job = 7"
  by (simp_all add: demo_share_def demo_job_def)

definition demo_slot :: job_slot where
  "demo_slot = \<lparr>js_job = Some demo_job,
     js_coinbases = [(4, \<lparr>cs_coinbase_id = 4, cs_coinb1 = demo_coinbase, cs_coinb2 = []\<rparr>)],
     js_h2_cache = [], js_cb_cache = [], js_txcount_includes_coinbase = None\<rparr>"

lemma demo_absorb:
  "absorb slot_default (demo_share tow) =
     (Inr \<lparr>ab_job_changed = True, ab_coinbase_added = Some 4\<rparr>, demo_slot)"
  using demo_section
  by (simp add: absorb_def absorb_job_def slot_default_def demo_share_def retain_others_def demo_slot_def
      MAX_COINBASE_SECTION_BYTES_def MAX_COINBASES_PER_SLOT_def)

lemma demo_slot_fields: "js_job demo_slot = Some demo_job"
  "map_of (js_coinbases demo_slot) 4 = Some \<lparr>cs_coinbase_id = 4, cs_coinb1 = demo_coinbase, cs_coinb2 = []\<rparr>"
  "conventions_of demo_slot = [False, True]" "cb_coherent demo_slot" "h2_coherent sha tow fl demo_slot"
  by (simp_all add: demo_slot_def conventions_of_def cb_coherent_def h2_coherent_def)

definition zero_hash :: hash_fun where
  "zero_hash bs = replicate 32 0"

lemma zero_share_hash: "share_hash sha zero_hash s b2 job h = replicate 32 0"
  using pow_hash_zero_key [of zero_hash _ sha 0] by (simp add: share_hash_def Let_def zero_hash_def)

lemma demo_verify:
  "\<exists>v slot'. verify sha zero_hash demo_slot (demo_share tow) demo_policy =
     Some (Inr v, slot')"
proof -
  let ?slot = demo_slot and ?s = "demo_share tow"
  obtain cb where cb: "parse demo_coinbase = Inr cb" "cb_outputs cb = demo_outputs" "cb_height cb = Some 7"
    using demo_coinbase_parse by blast
  have kind: "classify_coinbase cb [81, 1] None 0 = Some PoolOnly"
    by (simp add: classify_coinbase_def cb demo_outputs_def is_op_return_def)
  obtain t where t: "share_target_le 3 = Some t" using share_target_some [of 3] by auto
  have "meets_target (replicate 32 0) t" using share_target_value [OF t] by (simp add: meets_target_iff)
  then have "\<exists>v. reference_verify sha zero_hash ?slot ?s demo_policy t = Some (Inr v)"
    using kind cb demo_flags [of tow]
    by (simp add: reference_verify_def reference_coinbase_def demo_slot_fields demo_fields
        assemble_def demo_policy_def reference_work_def real_hash_def zero_share_hash time_ok_def Let_def)
  then obtain v where r: "reference_verify sha zero_hash ?slot ?s demo_policy t = Some (Inr v)" by blast
  have "map_option fst (verify_with_target sha zero_hash ?slot ?s demo_policy t) = Some (Inr v)"
    using verify_refines [of ?slot ?s sha zero_hash demo_policy t] r by (simp add: demo_slot_fields)
  moreover have "verify sha zero_hash ?slot ?s demo_policy = verify_with_target sha zero_hash ?slot ?s demo_policy t"
    by (simp add: verify_def demo_policy_def demo_fields t)
  ultimately show ?thesis by auto
qed

lemma demo_history: "(timed_step sha blake tow' fl)\<^sup>*\<^sup>* slot_default demo_slot"
  by (rule r_into_rtranclp, rule timed_step.absorb, rule demo_absorb [of 0])

theorem verify_cache_transparent_witness:
  "map_option fst (verify_with_target zero_hash zero_hash demo_slot (demo_share 9)
     demo_policy (replicate 32 0xff)) =
   reference_verify zero_hash zero_hash demo_slot (demo_share 9)
     demo_policy (replicate 32 0xff)"
  by (rule verify_cache_transparent [where tow = 9 and flags = 0, OF demo_history])
    (simp add: share_at_def demo_flags demo_fields)


section \<open>What the classification promises\<close>

definition sanctioned :: "bytes \<Rightarrow> coin_output list option \<Rightarrow> txout \<Rightarrow> bool" where
  "sanctioned pool_script issued o1 \<longleftrightarrow> is_op_return o1 \<or> t_script o1 = pool_script \<or>
     (\<exists>iss. issued = Some iss \<and> (\<exists>i \<in> set iss. o_script i = t_script o1))"

lemma scan_outputs_result:
  "scan_outputs pool issued os (pp, n) =
     (pp \<or> (\<exists>o1 \<in> set os. \<not> is_op_return o1 \<and> t_script o1 = pool),
      n + length (filter (\<lambda>o1. \<not> sanctioned pool issued o1) os))"
proof (induction os arbitrary: pp n)
  case (Cons o1 os)
  show ?case
    using Cons by (auto simp: sanctioned_def list_ex_iff split: option.split)
qed simp

lemma classify_foreign_free:
  assumes "classify_coinbase cb pool issued tol = Some kind" and "kind \<noteq> Foreign"
  shows "list_all (sanctioned pool issued) (cb_outputs cb)"
proof -
  have "snd (scan_outputs pool issued (cb_outputs cb) (False, 0)) = 0"
    using assms by (auto simp: classify_coinbase_def Let_def split: if_splits prod.splits)
  then have "filter (\<lambda>o1. \<not> sanctioned pool issued o1) (cb_outputs cb) = []"
    by (simp add: scan_outputs_result)
  then show ?thesis by (simp add: list_all_iff filter_empty_conv)
qed

text \<open>
  C10: A coinbase that passes pays nobody Prime did not name.  Whenever the classification is not
  \<open>Foreign\<close>, every output is an OP_RETURN, pays the pool's script, or pays a script of the list
  issued under the share's coinbaser id.
\<close>

theorem classified_outputs_sanctioned:
  assumes "classify_coinbase cb pool issued tol = Some kind" and "kind \<noteq> Foreign"
  shows "\<forall>o1 \<in> set (cb_outputs cb). is_op_return o1 \<or> t_script o1 = pool \<or>
    (\<exists>iss. issued = Some iss \<and> t_script o1 \<in> o_script ` set iss)"
  using classify_foreign_free [OF assms] unfolding list_all_iff sanctioned_def by (metis image_eqI)

definition miners_of :: "bytes \<Rightarrow> coin_output list \<Rightarrow> coin_output list" where
  "miners_of pool iss = filter (\<lambda>i. o_script i \<noteq> pool \<and> \<not> is_commit i) iss"

definition commits_present :: "coinbase \<Rightarrow> coin_output list \<Rightarrow> bool" where
  "commits_present cb iss \<longleftrightarrow> (\<forall>c \<in> set iss. is_commit c \<longrightarrow> o_script c \<in> t_script ` set (cb_outputs cb))"

lemma check_miners_Inr:
  "check_miners cb tol slack owed cap totals is present shorted = Some (Inr (present', shorted')) \<Longrightarrow>
   (\<forall>i \<in> set is. \<not> sat_add (cap (case totals (o_script i) of None \<Rightarrow> o_sats i | Some t \<Rightarrow> t)) slack
        < paid_to cb (o_script i)) \<and>
   unat present' = unat present + length (filter (\<lambda>i. 0 < paid_to cb (o_script i)) is) \<and>
   (shorted' \<longleftrightarrow> shorted \<or> (\<exists>i \<in> set is. 0 < paid_to cb (o_script i) \<and>
        sat_add (paid_to cb (o_script i)) tol < owed (o_sats i)))"
proof (induction "is" arbitrary: present shorted)
  case Nil
  then show ?case by simp
next
  case (Cons i ms)
  show ?case
  proof (cases "0 < paid_to cb (o_script i)")
    case True
    with Cons.prems obtain p where p: "checked_add present 1 = Some p" and
      c: "\<not> sat_add (cap (case totals (o_script i) of None \<Rightarrow> o_sats i | Some t \<Rightarrow> t)) slack < paid_to cb (o_script i)" and
      r: "check_miners cb tol slack owed cap totals ms p
            (shorted \<or> sat_add (paid_to cb (o_script i)) tol < owed (o_sats i)) = Some (Inr (present', shorted'))"
      by (auto simp: Let_def split: Option.bind_splits if_splits)
    have "unat p = unat present + 1" using p by (simp add: checked_add_Some)
    then show ?thesis using Cons.IH [OF r] c True by auto
  next
    case False
    then have "\<not> x < paid_to cb (o_script i)" for x
      by (auto simp: word_less_nat_alt)
    then show ?thesis using False Cons by (auto simp: Let_def)
  qed
qed

lemma check_miners_Inl:
  "check_miners cb tol slack owed cap totals is present shorted = Some (Inl k) \<Longrightarrow> k = Foreign"
  by (induction "is" arbitrary: present shorted)
    (auto simp: Let_def split: Option.bind_splits if_splits)

lemma commits_present_test:
  "list_ex (\<lambda>c. \<not> list_ex (\<lambda>o1. t_script o1 = o_script c) (cb_outputs cb)) (filter is_commit iss) \<longleftrightarrow>
   \<not> commits_present cb iss"
  by (auto simp: list_ex_iff commits_present_def image_iff) metis+

text \<open>The classification once no commitment is missing.\<close>

lemma classify_commits:
  assumes k: "classify_coinbase cb pool (Some iss) tol = Some kind" "kind \<noteq> Foreign"
    and c: "commits_present cb iss"
  obtains total present shorted where
    "checked_sum 0 (map o_sats iss) = Some total"
    "check_miners cb tol (sat_add tol (of_nat (length iss))) (owed_of total (total_output_value cb))
       (cap_of total (total_output_value cb)) (issued_to (miners_of pool iss)) (miners_of pool iss) 0 False =
     Some (Inr (present, shorted))"
    "kind = Split \<longrightarrow> \<not> shorted \<and> unat present = length (miners_of pool iss)"
    "\<forall>n. kind = Partial n \<longrightarrow> \<not> shorted \<and> n = present \<and> 0 < n"
    "kind = PoolOnly \<longrightarrow> list_all (\<lambda>o1. is_op_return o1 \<or> t_script o1 = pool) (cb_outputs cb)"
proof -
  let ?final = "if fst (scan_outputs pool (Some iss) (cb_outputs cb) (False, 0)) \<and>
      list_all (\<lambda>o1. is_op_return o1 \<or> t_script o1 = pool) (cb_outputs cb) then PoolOnly else Foreign"
  have z: "snd (scan_outputs pool (Some iss) (cb_outputs cb) (False, 0)) = 0"
    using k by (auto simp: classify_coinbase_def Let_def split: if_splits prod.splits)
  from k(1) z c obtain total r where v: "checked_sum 0 (map o_sats iss) = Some total"
    and r: "check_miners cb tol (sat_add tol (of_nat (length iss))) (owed_of total (total_output_value cb))
       (cap_of total (total_output_value cb)) (issued_to (miners_of pool iss)) (miners_of pool iss) 0 False = Some r"
    and kind: "kind = (case r of Inl k \<Rightarrow> k | Inr (present, shorted) \<Rightarrow>
        if \<not> shorted \<and> unat present = length (miners_of pool iss) \<and>
            (fst (scan_outputs pool (Some iss) (cb_outputs cb) (False, 0)) \<or> miners_of pool iss \<noteq> []) then Split
        else if \<not> shorted \<and> 0 < present then Partial present else ?final)"
    by (auto simp: classify_coinbase_def Let_def commits_present_test miners_of_def
        split: prod.splits Option.bind_splits sum.splits)
  have "r \<noteq> Inl k'" for k'
    using r kind k(2) check_miners_Inl by fastforce
  then obtain present shorted where p: "r = Inr (present, shorted)" by (cases r) auto
  show thesis
    by (rule that [OF v r [unfolded p]]) (use kind p in \<open>auto split: if_splits\<close>)
qed

text \<open>The amounts as numbers: what is issued to a script, and what the ratio of the coinbase's value to
  the issued value makes of it.\<close>

definition issued_sum :: "bytes \<Rightarrow> coin_output list \<Rightarrow> nat" where
  "issued_sum script ms = sum_list (map (unat \<circ> o_sats) (filter (\<lambda>i. o_script i = script) ms))"

lemma issued_to_fold:
  fixes m :: "bytes \<rightharpoonup> u64"
  defines "get \<equiv> \<lambda>m k. case m k of None \<Rightarrow> 0 | Some e \<Rightarrow> unat (e :: u64)"
  shows "get (foldl (\<lambda>m i. m(o_script i \<mapsto> sat_add (case m (o_script i) of None \<Rightarrow> 0 | Some e \<Rightarrow> e) (o_sats i))) m ms) k
    = min (get m k + issued_sum k ms) (2 ^ 64 - 1)"
proof (induction ms arbitrary: m)
  case Nil
  have "get m k < 2 ^ 64" unfolding get_def using unat_lt [of "the (m k)"] by (auto split: option.split)
  then show ?case by (simp add: issued_sum_def)
next
  case (Cons i ms)
  let ?m = "m(o_script i \<mapsto> sat_add (case m (o_script i) of None \<Rightarrow> 0 | Some e \<Rightarrow> e) (o_sats i))"
  have g: "get ?m k = (if o_script i = k then min (get m k + unat (o_sats i)) (2 ^ 64 - 1) else get m k)"
    by (auto simp: get_def unat_sat_add split: option.split)
  show ?case unfolding foldl.simps Cons [of ?m] g by (simp add: issued_sum_def) (simp add: min_def)
qed

lemma issued_to_le:
  assumes "i \<in> set ms"
  shows "unat (case issued_to ms (o_script i) of None \<Rightarrow> o_sats i | Some t \<Rightarrow> t) \<le> issued_sum (o_script i) ms"
proof (cases "issued_to ms (o_script i)")
  case None
  have "o_sats i \<in> o_sats ` set (filter (\<lambda>j. o_script j = o_script i) ms)" using assms by auto
  then show ?thesis using None
    by (auto simp: issued_sum_def intro!: member_le_sum_list)
next
  case (Some t)
  then show ?thesis
    using issued_to_fold [of Map.empty ms "o_script i"] by (simp add: issued_to_def)
qed

lemma scale_sats_value:
  "unat (scale_sats sats actual issued) = (unat sats * unat actual div unat issued) mod 2 ^ 64"
proof -
  have u: "unat (ucast w :: u128) = unat w" for w :: u64 by (simp add: unat_ucast_up)
  have "unat sats * unat actual < 2 ^ 64 * 2 ^ 64"
    using unat_lt [of sats] unat_lt [of actual] by (intro mult_strict_mono) simp_all
  then have "unat (ucast sats * ucast actual :: u128) = unat sats * unat actual"
    by (simp add: unat_word_ariths u)
  then have "unat ((ucast sats * ucast actual :: u128) div ucast issued) = unat sats * unat actual div unat issued"
    by (simp add: unat_div_word u)
  then show ?thesis by (simp add: scale_sats_def unsigned_ucast_eq take_bit_eq_mod)
qed

lemma cap_of_value:
  assumes "unat sats \<le> T"
  shows "unat (cap_of issued actual sats) \<le>
    (if issued = 0 \<or> actual \<le> issued then T else T * unat actual div unat issued)"
proof -
  have "unat sats * unat actual div unat issued \<le> T * unat actual div unat issued"
    using assms by (intro div_le_mono mult_le_mono1)
  moreover have "unat (scale_sats sats actual issued) \<le> unat sats * unat actual div unat issued"
    unfolding scale_sats_value by (rule mod_less_eq_dividend)
  ultimately show ?thesis using assms by (auto simp: cap_of_def)
qed

lemma owed_of_value:
  "unat (owed_of issued actual sats) =
    (if issued = 0 \<or> issued \<le> actual then unat sats else unat sats * unat actual div unat issued)"
proof (cases "issued = 0 \<or> issued \<le> actual")
  case False
  then have "unat actual < unat issued" by (simp add: word_le_nat_alt)
  then have "unat sats * unat actual div unat issued \<le> unat sats * unat issued div unat issued"
    by (intro div_le_mono mult_le_mono2) simp
  also have "\<dots> \<le> unat sats" by (cases "unat issued = 0") simp_all
  also have "\<dots> < 2 ^ 64" using unat_lt [of sats] by simp
  finally show ?thesis using False by (simp add: owed_of_def scale_sats_value)
qed (auto simp: owed_of_def)

text \<open>
  C11: No miner script is overpaid and, in a full split, none is short.  When every OP_RETURN
  commitment that was issued is in the coinbase and the classification is not \<open>Foreign\<close>, each
  issued miner script is paid at most the total issued to that script, scaled up only by the ratio
  of the coinbase's value to the issued value, plus the tolerance and one satoshi per issued
  output; and \<open>Split\<close> means every issued miner is paid, and paid at least the issued amount scaled
  down by that ratio, less the tolerance.
\<close>

theorem classified_amounts:
  assumes "classify_coinbase cb pool (Some iss) tol = Some kind" and "kind \<noteq> Foreign"
    and "commits_present cb iss" and "i \<in> set (miners_of pool iss)"
  defines "V \<equiv> sum_list (map (unat \<circ> o_sats) iss)" and "A \<equiv> unat (total_output_value cb)"
    and "T \<equiv> issued_sum (o_script i) (miners_of pool iss)" and "paid \<equiv> unat (paid_to cb (o_script i))"
  shows "paid \<le> (if V = 0 \<or> A \<le> V then T else T * A div V) + unat tol + length iss \<and>
    (kind = Split \<longrightarrow> 0 < paid \<and>
      (if V = 0 \<or> V \<le> A then unat (o_sats i) else unat (o_sats i) * A div V) \<le> paid + unat tol)"
proof -
  from assms(1-3) obtain total present shorted where
    v: "checked_sum 0 (map o_sats iss) = Some total" and
    m: "check_miners cb tol (sat_add tol (of_nat (length iss))) (owed_of total (total_output_value cb))
       (cap_of total (total_output_value cb)) (issued_to (miners_of pool iss)) (miners_of pool iss) 0 False =
     Some (Inr (present, shorted))" and
    s: "kind = Split \<longrightarrow> \<not> shorted \<and> unat present = length (miners_of pool iss)"
    by (rule classify_commits)
  note c = check_miners_Inr [OF m]
  have V: "unat total = V" using v by (simp add: checked_sum_Some comp_def V_def)
  have z: "total = 0 \<longleftrightarrow> V = 0" "total \<le> total_output_value cb \<longleftrightarrow> V \<le> A" "total_output_value cb \<le> total \<longleftrightarrow> A \<le> V"
    by (simp_all add: A_def word_le_nat_alt V flip: V unat_eq_0)
  let ?t = "case issued_to (miners_of pool iss) (o_script i) of None \<Rightarrow> o_sats i | Some t \<Rightarrow> t"
  have "paid \<le> unat (sat_add (cap_of total (total_output_value cb) ?t) (sat_add tol (of_nat (length iss))))"
    using c assms(4) by (auto simp: not_less paid_def word_le_nat_alt)
  also have "\<dots> \<le> unat (cap_of total (total_output_value cb) ?t) + (unat tol + length iss)"
  proof -
    have "unat (of_nat (length iss) :: u64) \<le> length iss"
      by (simp add: unat_of_nat)
    then show ?thesis by (simp add: unat_sat_add)
  qed
  also have "unat (cap_of total (total_output_value cb) ?t) \<le> (if V = 0 \<or> A \<le> V then T else T * A div V)"
    using cap_of_value [OF issued_to_le [OF assms(4)], of total "total_output_value cb"]
    by (simp only: z T_def A_def V)
  finally have up: "paid \<le> (if V = 0 \<or> A \<le> V then T else T * A div V) + unat tol + length iss" by simp
  have "0 < paid \<and> (if V = 0 \<or> V \<le> A then unat (o_sats i) else unat (o_sats i) * A div V) \<le> paid + unat tol"
    if k: "kind = Split"
  proof -
    have "length (filter (\<lambda>i. 0 < paid_to cb (o_script i)) (miners_of pool iss)) = length (miners_of pool iss)"
      using c s k by simp
    then have p: "0 < paid_to cb (o_script i)"
      using assms(4) by (metis (mono_tags, lifting) length_filter_less not_less_iff_gr_or_eq)
    then have "owed_of total (total_output_value cb) (o_sats i) \<le> sat_add (paid_to cb (o_script i)) tol"
      using c s k assms(4) by (auto simp: not_less)
    then have "unat (owed_of total (total_output_value cb) (o_sats i)) \<le> paid + unat tol"
      by (simp add: word_le_nat_alt unat_sat_add paid_def)
    then have "(if V = 0 \<or> V \<le> A then unat (o_sats i) else unat (o_sats i) * A div V) \<le> paid + unat tol"
      by (simp only: owed_of_value z A_def V)
    then show ?thesis using p by (simp add: paid_def word_less_nat_alt)
  qed
  with up show ?thesis by blast
qed

text \<open>
  Classification never panics on what the pool issues.  If the issued amounts add up below
  \<open>2^64\<close> and there are fewer than 65536 of them, \<open>classify_coinbase\<close> returns a verdict for every
  coinbase, whatever its amounts.
\<close>

theorem classify_total:
  assumes "\<And>iss. issued = Some iss \<Longrightarrow> sum_list (map (unat \<circ> o_sats) iss) < 2 ^ 64 \<and> length iss < 65536"
  shows "classify_coinbase cb pool issued tol \<noteq> None"
proof (cases issued)
  case None
  then show ?thesis by (auto simp: classify_coinbase_def Let_def split: prod.split)
next
  case (Some iss)
  have miners: "check_miners cb tol slack owed cap totals ms present shorted \<noteq> None"
    if "unat present + length ms < 65536" for slack owed cap totals ms present shorted
    using that
  proof (induction ms arbitrary: present shorted)
    case (Cons i ms)
    then have "unat present + 1 < 65536" by simp
    then have a: "checked_add present 1 = Some (present + 1)" "unat (present + 1) = unat present + 1"
      by (simp_all add: checked_add_total unat_add_lt)
    then show ?case using Cons by (auto simp: Let_def)
  qed simp
  let ?v = "of_nat (sum_list (map (unat \<circ> o_sats) iss)) :: u64"
  have v: "checked_sum 0 (map o_sats iss) = Some ?v"
    using assms [OF Some] by (simp add: checked_sum_Some comp_def unat_of_nat_lt)
  let ?ms = "filter (\<lambda>i. o_script i \<noteq> pool \<and> \<not> is_commit i) iss"
  have "length ?ms < 65536"
    using assms [OF Some] le_less_trans [OF length_filter_le] by blast
  then obtain r where r: "check_miners cb tol (sat_add tol (of_nat (length iss))) (owed_of ?v (total_output_value cb))
      (cap_of ?v (total_output_value cb)) (issued_to ?ms) ?ms 0 False = Some r"
    using miners [of 0 ?ms] by fastforce
  show ?thesis
    using Some v r by (auto simp: classify_coinbase_def Let_def split: prod.split sum.split)
qed

section \<open>Witnesses and a gap\<close>

definition demo_issued :: "coin_output list" where
  "demo_issued = [\<lparr>o_sats = 0, o_script = [0x6a, 9]\<rparr>, \<lparr>o_sats = 10, o_script = [81, 2]\<rparr>]"

definition demo_paying :: "txout list \<Rightarrow> coinbase" where
  "demo_paying outs = \<lparr>cb_version = 1, cb_script_sig = [1, 7], cb_sequence = 0, cb_outputs = outs, cb_lock_time = 0,
     cb_height = Some 7, cb_outputs_at = 49, cb_lock_time_at = 70\<rparr>"

text \<open>A list whose remainder goes to the pool, a full split as issued, and a coinbase of the list's own
  value with the commitment left out and the remainder diverted to the miner.\<close>

definition demo_remainder :: "coin_output list" where
  "demo_remainder = demo_issued @ [\<lparr>o_sats = 999990, o_script = [81, 1]\<rparr>]"

definition demo_full :: coinbase where
  "demo_full = demo_paying [\<lparr>t_value = 3, t_script = [81, 1]\<rparr>, \<lparr>t_value = 10, t_script = [81, 2]\<rparr>,
     \<lparr>t_value = 0, t_script = [0x6a, 9]\<rparr>]"

definition demo_diverted :: coinbase where
  "demo_diverted = demo_paying [\<lparr>t_value = 10, t_script = [81, 1]\<rparr>, \<lparr>t_value = 999990, t_script = [81, 2]\<rparr>]"

lemmas demo_classify = classify_coinbase_def demo_paying_def demo_issued_def is_commit_def is_op_return_def
  paid_to_def sat_add_def

lemma demo_full_kind: "classify_coinbase demo_full [81, 1] (Some demo_issued) 2 = Some Split"
  by (simp add: demo_classify demo_full_def checked_add_def owed_of_def cap_of_def
      total_output_value_def issued_to_def scale_sats_def Let_def)

theorem classified_outputs_sanctioned_witness:
  "list_all (\<lambda>o1. is_op_return o1 \<or> t_script o1 = [81, 1] \<or>
     (\<exists>iss. Some demo_issued = Some iss \<and> t_script o1 \<in> o_script ` set iss)) (cb_outputs demo_full)"
  unfolding list_all_iff by (rule classified_outputs_sanctioned [OF demo_full_kind]) simp

theorem classified_amounts_witness:
  "0 < unat (paid_to demo_full [81, 2]) \<and> unat (paid_to demo_full [81, 2]) \<le> 10 * 13 div 10 + 2 + 2"
proof -
  have c: "commits_present demo_full demo_issued"
    by (simp add: commits_present_def demo_full_def demo_issued_def demo_paying_def is_commit_def)
  have m: "\<lparr>o_sats = 10, o_script = [81, 2]\<rparr> \<in> set (miners_of [81, 1] demo_issued)"
    by (simp add: miners_of_def demo_issued_def is_commit_def)
  have "unat (total_output_value demo_full) = 13"
    by (simp add: total_output_value_def demo_full_def demo_paying_def sat_add_def)
  then show ?thesis
    using classified_amounts [OF demo_full_kind _ c m]
    by (simp add: issued_sum_def miners_of_def demo_issued_def is_commit_def)
qed

theorem classify_total_witness:
  "classify_coinbase demo_diverted [81, 1] (Some demo_issued) 2 \<noteq> None"
  by (rule classify_total) (auto simp: demo_issued_def)


end
