(* ===== verification/Text.thy ===== *)
theory Text
  imports Utf8 "HOL-Library.Sublist"
begin

text \<open>
  The string functions of the standard library that the program uses: \<open>trim\<close> with Unicode white
  space, splitting a username, ASCII case, and ASCII classes.  Strings are their UTF-8 bytes.
\<close>

section \<open>White space\<close>

text \<open>The UTF-8 encodings of the characters with the property \<open>White_Space\<close>.\<close>

definition white_space :: "bytes list" where
  "white_space =
     [[9], [10], [11], [12], [13], [32], [0xC2, 0x85], [0xC2, 0xA0], [0xE1, 0x9A, 0x80],
      [0xE2, 0x80, 0x80], [0xE2, 0x80, 0x81], [0xE2, 0x80, 0x82], [0xE2, 0x80, 0x83], [0xE2, 0x80, 0x84],
      [0xE2, 0x80, 0x85], [0xE2, 0x80, 0x86], [0xE2, 0x80, 0x87], [0xE2, 0x80, 0x88], [0xE2, 0x80, 0x89],
      [0xE2, 0x80, 0x8A], [0xE2, 0x80, 0xA8], [0xE2, 0x80, 0xA9], [0xE2, 0x80, 0xAF], [0xE2, 0x81, 0x9F],
      [0xE3, 0x80, 0x80]]"

definition ws_front :: "bytes \<Rightarrow> nat" where
  "ws_front b = (case find (\<lambda>w. take (length w) b = w) white_space of Some w \<Rightarrow> length w | None \<Rightarrow> 0)"

definition ws_back :: "bytes \<Rightarrow> nat" where
  "ws_back b = (case find (\<lambda>w. length w \<le> length b \<and> drop (length b - length w) b = w) white_space of
     Some w \<Rightarrow> length w | None \<Rightarrow> 0)"

lemma ws_lengths: "w \<in> set white_space \<Longrightarrow> 0 < length w"
  by (auto simp: white_space_def)

lemma ws_front_less: "0 < ws_front b \<Longrightarrow> 0 < length b"
  using ws_lengths by (force simp: ws_front_def find_Some_iff in_set_conv_nth split: option.splits)

lemma ws_back_less: "0 < ws_back b \<Longrightarrow> 0 < length b"
  using ws_lengths by (force simp: ws_back_def find_Some_iff in_set_conv_nth split: option.splits)

function trim_start :: "bytes \<Rightarrow> bytes" where
  "trim_start b = (if 0 < ws_front b then trim_start (drop (ws_front b) b) else b)"
  by pat_completeness auto
termination
  by (relation "measure length") (use ws_front_less in auto)

function trim_end :: "bytes \<Rightarrow> bytes" where
  "trim_end b = (if 0 < ws_back b then trim_end (take (length b - ws_back b) b) else b)"
  by pat_completeness auto
termination
  by (relation "measure length") (use ws_back_less in auto)

declare trim_start.simps [simp del] trim_end.simps [simp del]

definition trim :: "string \<Rightarrow> string" where
  "trim s = bytes_str (trim_end (trim_start (str_bytes s)))"

lemma trim_start_done: "ws_front (trim_start b) = 0"
  by (induction b rule: trim_start.induct) (subst trim_start.simps, simp)

lemma trim_end_done: "ws_back (trim_end b) = 0"
  by (induction b rule: trim_end.induct) (subst trim_end.simps, simp)

lemma trim_end_prefix: "\<exists>ys. b = trim_end b @ ys"
proof (induction b rule: trim_end.induct)
  case (1 b)
  show ?case
  proof (cases "0 < ws_back b")
    case True
    from "1.IH" [OF True] obtain ys where "take (length b - ws_back b) b = trim_end b @ ys"
      using True trim_end.simps [of b] by auto
    then have "b = trim_end b @ ys @ drop (length b - ws_back b) b"
      by (metis append.assoc append_take_drop_id)
    then show ?thesis by blast
  qed (simp add: trim_end.simps [of b])
qed

lemma ws_front_0: "ws_front b = 0 \<longleftrightarrow> find (\<lambda>w. take (length w) b = w) white_space = None"
proof (cases "find (\<lambda>w. take (length w) b = w) white_space")
  case (Some w)
  then have "w \<in> set white_space" by (auto simp: find_Some_iff)
  then show ?thesis using Some ws_lengths [of w] by (simp add: ws_front_def)
qed (simp add: ws_front_def)

lemma ws_front_append:
  assumes "ws_front (xs @ ys) = 0"
  shows "ws_front xs = 0"
proof -
  have "take (length w) xs \<noteq> w" if "w \<in> set white_space" for w
  proof
    assume "take (length w) xs = w"
    then have "take (length w) (xs @ ys) = w" by (metis append.right_neutral length_take min.absorb_iff2 min.commute
        nat_le_linear take_all take_append diff_is_0_eq take_0)
    then show False using assms that by (simp add: ws_front_0 find_None_iff)
  qed
  then show ?thesis by (simp add: ws_front_0 find_None_iff)
qed

text \<open>Trimming leaves nothing to trim.\<close>

lemma trim_trim [simp]: "trim (trim s) = trim s"
proof -
  let ?b = "trim_end (trim_start (str_bytes s))"
  obtain ys where "trim_start (str_bytes s) = ?b @ ys" using trim_end_prefix by blast
  then have "ws_front (?b @ ys) = 0" using trim_start_done [of "str_bytes s"] by metis
  then have "trim_start ?b = ?b" using ws_front_append trim_start.simps [of ?b] by simp
  moreover have "trim_end ?b = ?b" using trim_end_done [of "trim_start (str_bytes s)"] trim_end.simps [of ?b] by simp
  ultimately show ?thesis by (simp add: trim_def)
qed

end
