(* ===== verification/Net.thy ===== *)
theory Net
  imports Text
begin

text \<open>
  Internet addresses of the standard library (\<open>std::net::IpAddr\<close>) and the parser behind
  \<open>str::parse\<close>, which the ban list of the controls file goes through.
\<close>

section \<open>Addresses\<close>

datatype ip = V4 u32 | V6 u128

fun is_ipv4 :: "ip \<Rightarrow> bool" where
  "is_ipv4 (V4 _) = True"
| "is_ipv4 (V6 _) = False"

text \<open>\<open>127.0.0.0/8\<close> and \<open>::1\<close>.\<close>

fun is_loopback :: "ip \<Rightarrow> bool" where
  "is_loopback (V4 a) = (drop_bit 24 a = 127)"
| "is_loopback (V6 a) = (a = 1)"

section \<open>Numbers\<close>

definition digit_of :: "nat \<Rightarrow> char \<Rightarrow> nat option" where
  "digit_of radix c =
     (let n = of_char c :: nat;
          d = (if 48 \<le> n \<and> n \<le> 57 then n - 48 else if 97 \<le> n \<and> n \<le> 122 then n - 87
               else if 65 \<le> n \<and> n \<le> 90 then n - 55 else 99)
      in if d < radix then Some d else None)"

text \<open>The digits at the front, as values, and what follows them.\<close>

fun digits :: "nat \<Rightarrow> string \<Rightarrow> nat list \<times> string" where
  "digits radix [] = ([], [])"
| "digits radix (c # cs) =
     (case digit_of radix c of None \<Rightarrow> ([], c # cs) | Some d \<Rightarrow> let (ds, r) = digits radix cs in (d # ds, r))"

definition number_of :: "nat \<Rightarrow> nat list \<Rightarrow> nat" where
  "number_of radix ds = foldl (\<lambda>a d. a * radix + d) 0 ds"

definition read_number :: "nat \<Rightarrow> nat \<Rightarrow> bool \<Rightarrow> nat \<Rightarrow> string \<Rightarrow> (nat \<times> string) option" where
  "read_number radix max_digits allow_zero_prefix limit s =
     (let (ds, r) = digits radix s in
      if ds = [] \<or> length ds > max_digits \<or> number_of radix ds \<ge> limit then None
      else if \<not> allow_zero_prefix \<and> hd ds = 0 \<and> length ds > 1 then None
      else Some (number_of radix ds, r))"

text \<open>\<open>str::parse::<u8>\<close> and its wider kin: one optional plus sign, then digits only.\<close>

definition parse_unsigned :: "nat \<Rightarrow> string \<Rightarrow> nat option" where
  "parse_unsigned limit s =
     (let (ds, r) = digits 10 (case s of c # cs \<Rightarrow> if c = CHR ''+'' then cs else s | [] \<Rightarrow> []) in
      if ds = [] \<or> r \<noteq> [] \<or> number_of 10 ds \<ge> limit then None else Some (number_of 10 ds))"

section \<open>The address parser\<close>

definition given_char :: "char \<Rightarrow> string \<Rightarrow> string option" where
  "given_char c s = (case s of x # r \<Rightarrow> if x = c then Some r else None | [] \<Rightarrow> None)"

text \<open>A separator goes in front of every item but the first.\<close>

definition after_sep :: "char \<Rightarrow> nat \<Rightarrow> string \<Rightarrow> string option" where
  "after_sep c i s = (if i = 0 then Some s else given_char c s)"

definition read_ipv4 :: "string \<Rightarrow> (nat list \<times> string) option" where
  "read_ipv4 s = do {
     (a, s) \<leftarrow> read_number 10 3 False 256 s;
     s \<leftarrow> given_char CHR ''.'' s;
     (b, s) \<leftarrow> read_number 10 3 False 256 s;
     s \<leftarrow> given_char CHR ''.'' s;
     (c, s) \<leftarrow> read_number 10 3 False 256 s;
     s \<leftarrow> given_char CHR ''.'' s;
     (d, s) \<leftarrow> read_number 10 3 False 256 s;
     Some ([a, b, c, d], s)
   }"

text \<open>Groups \<open>i\<close> to \<open>limit\<close>: the groups read, whether the last two came from an IPv4 address, and the rest.\<close>

function read_groups :: "nat \<Rightarrow> nat \<Rightarrow> string \<Rightarrow> nat list \<times> bool \<times> string" where
  "read_groups i limit s =
     (if limit \<le> i then ([], False, s)
      else
        case (if i < limit - 1 then Option.bind (after_sep CHR '':'' i s) read_ipv4 else None) of
          Some (o4, r) \<Rightarrow> ([256 * o4 ! 0 + o4 ! 1, 256 * o4 ! 2 + o4 ! 3], True, r)
        | None \<Rightarrow>
            (case Option.bind (after_sep CHR '':'' i s) (read_number 16 4 True 65536) of
               None \<Rightarrow> ([], False, s)
             | Some (g, r) \<Rightarrow> let (gs, v4, r) = read_groups (i + 1) limit r in (g # gs, v4, r)))"
  by pat_completeness auto
termination
  by (relation "measure (\<lambda>(i, limit, s). limit - i)") auto

declare read_groups.simps [simp del]

definition read_ipv6 :: "string \<Rightarrow> (nat list \<times> string) option" where
  "read_ipv6 s =
     (let (head, v4, r) = read_groups 0 8 s in
      if length head = 8 then Some (head, r)
      else if v4 then None
      else do {
        r \<leftarrow> given_char CHR '':'' r;
        r \<leftarrow> given_char CHR '':'' r;
        let (tail, _, r) = read_groups 0 (8 - (length head + 1)) r;
        Some (head @ replicate (8 - length head - length tail) 0 @ tail, r)
      })"

definition parse_ip :: "string \<Rightarrow> ip option" where
  "parse_ip s =
     (case read_ipv4 s of
        Some (os, r) \<Rightarrow> if r = [] then Some (V4 (of_nat (number_of 256 os))) else None
      | None \<Rightarrow>
          (case read_ipv6 s of
             Some (gs, r) \<Rightarrow> if r = [] then Some (V6 (of_nat (number_of 65536 gs))) else None
           | None \<Rightarrow> None))"

end
