(* ===== verification/Config.thy ===== *)
theory Config
  imports Net Address
begin

text \<open>
  \<open>prime.toml\<close> (\<open>primed/src/config.rs\<close>): the configuration, what \<open>load\<close> refuses and fills in.  The TOML
  parser is a parameter, and so is which files exist.  A floating-point field is kept as its bits.
  Shown: a configuration that loads satisfies every constraint the rest of the program relies on.
\<close>

section \<open>The configuration\<close>

type_synonym path = string

record config =
  cfg_listen :: "ip \<times> u16"
  cfg_stats_listen :: "ip \<times> u16"
  cfg_advertise_address :: string
  cfg_data_dir :: path
  cfg_key_file :: "path option"
  cfg_motd :: string
  cfg_payout_address :: string
  cfg_coinbase_tag :: string
  cfg_prime_id :: u32
  cfg_window :: u32
  cfg_window_min_work :: u64
  cfg_min_payout :: u64
  cfg_fee_bps :: u32
  cfg_stratum_fee_bps :: u32
  cfg_house_gateways :: "string list"
  cfg_house_loopback :: bool
  cfg_min_diff :: u64
  cfg_split_tolerance :: u64
  cfg_network :: string
  cfg_rpc :: string
  cfg_rpc_cookie :: "path option"
  cfg_rpc_user :: "string option"
  cfg_rpc_password :: "string option"
  cfg_poll :: u64
  cfg_stale_grace_secs :: u32
  cfg_import_ledger :: "path option"
  cfg_headline :: string
  cfg_max_connections :: u32
  cfg_max_connections_per_ip :: u32
  cfg_session_coinbase_budget :: nat
  cfg_commit_snapshot :: bool
  cfg_snapshot_tag :: string
  cfg_carry_forward :: bool
  cfg_max_payees :: nat
  cfg_activation_height :: "u32 option"
  cfg_verify_shares :: "string option"
  cfg_require_split_gateway :: "bool option"

datatype config_error =
  Cannot_read | Bad_toml | Min_diff | Prime_id | Window | Fee_bps | Stratum_fee_bps | Snapshot_tag |
  Coinbase_tag | Max_connections | Session_coinbase_budget

definition is_power_of_two :: "u64 \<Rightarrow> bool" where
  "is_power_of_two w \<longleftrightarrow> length (filter (bit w) [0..<64]) = 1"

definition trailing_zeros :: "u64 \<Rightarrow> nat" where
  "trailing_zeros w = length (takeWhile (\<lambda>k. \<not> bit w k) [0..<64])"

definition path_join :: "path \<Rightarrow> path \<Rightarrow> path" where
  "path_join d f = (if d = '''' \<or> last d = CHR ''/'' then d @ f else d @ ''/'' @ f)"

definition printable_tag :: "string \<Rightarrow> bool" where
  "printable_tag s \<longleftrightarrow> length s \<le> 40 \<and> list_all (\<lambda>b. 0x20 \<le> b \<and> b < 0x7F) (str_bytes s)"

text \<open>\<open>load\<close> after the parser, in the order of its checks.\<close>

definition config_check :: "(path \<Rightarrow> bool) \<Rightarrow> config \<Rightarrow> config_error + config" where
  "config_check exists c =
     (if \<not> is_power_of_two (cfg_min_diff c) then Inl Min_diff
      else if cfg_prime_id c = 0 then Inl Prime_id
      else if cfg_window c = 0 then Inl Window
      else if cfg_fee_bps c > 10000 then Inl Fee_bps
      else
        let c = (if cfg_stratum_fee_bps c = 0 then c\<lparr>cfg_stratum_fee_bps := cfg_fee_bps c\<rparr> else c) in
        if cfg_stratum_fee_bps c > 10000 then Inl Stratum_fee_bps
        else
          let c = c\<lparr>cfg_house_gateways := map to_ascii_lowercase (cfg_house_gateways c)\<rparr> in
          if \<not> printable_tag (cfg_snapshot_tag c) then Inl Snapshot_tag
          else if length (cfg_coinbase_tag c) > 32 then Inl Coinbase_tag
          else if cfg_max_connections c = 0 \<or> cfg_max_connections_per_ip c = 0 then Inl Max_connections
          else if cfg_session_coinbase_budget c < 64 * 1024 then Inl Session_coinbase_budget
          else if cfg_key_file c = None
          then
            let ours = path_join (cfg_data_dir c) ''prime.key'';
                legacy = path_join (cfg_data_dir c) ''lazarus-prime.key''
            in Inr (c\<lparr>cfg_key_file := Some (if \<not> exists ours \<and> exists legacy then legacy else ours)\<rparr>)
          else Inr c)"

definition config_load :: "(string \<Rightarrow> config option) \<Rightarrow> (path \<Rightarrow> bool) \<Rightarrow> string option \<Rightarrow> config_error + config" where
  "config_load toml exists contents =
     rbind (ok_or contents Cannot_read) (\<lambda>body. rbind (ok_or (toml body) Bad_toml) (config_check exists))"

text \<open>One line per legacy key in the file; \<open>debug\<close> is how the language prints a quoted string.\<close>

definition legacy_notes :: "(string \<Rightarrow> string) \<Rightarrow> config \<Rightarrow> string list" where
  "legacy_notes debug c =
     (if cfg_activation_height c \<noteq> None
      then [''activation-height is ignored: every share is verified as BLAKE2b header v2; SHA256d shares are rejected as bad-version''] else []) @
     (case cfg_verify_shares c of None \<Rightarrow> []
      | Some mode \<Rightarrow> [''verify-shares = '' @ debug mode @ '' is ignored: shares are always verified and the coinbase is always checked against the issued TIDES split'']) @
     (if cfg_require_split_gateway c \<noteq> None
      then [''require-split-gateway is ignored: stock DATUM gateways pay the split from the coinbaser reply, so none need a patched user agent''] else [])"

definition key_file :: "config \<Rightarrow> path option" where
  "key_file c = cfg_key_file c"

definition min_pot :: "config \<Rightarrow> u8" where
  "min_pot c = of_nat (trailing_zeros (cfg_min_diff c))"

section \<open>A configuration that loads\<close>

lemma power_of_two_bits:
  assumes "is_power_of_two w"
  shows "w = 2 ^ trailing_zeros w" and "trailing_zeros w < 64"
proof -
  let ?L = "[0..<64 :: nat]"
  obtain k where k: "filter (bit w) ?L = [k]"
    using assms unfolding is_power_of_two_def by (metis One_nat_def length_0_conv length_Suc_conv)
  have "k \<in> set (filter (bit w) ?L)" by (simp only: k) simp
  then have kk: "k < 64" "bit w k" by simp_all
  have only: "bit w i \<Longrightarrow> i = k" for i
  proof -
    assume b: "bit w i"
    then have "i < 64" using bit_imp_le_length [OF b] by simp
    then have "i \<in> set (filter (bit w) ?L)" using b by simp
    then show "i = k" by (simp only: k) simp
  qed
  have "takeWhile (\<lambda>i. \<not> bit w i) ?L = [0..<k]"
  proof -
    have split: "?L = [0..<k] @ k # [Suc k..<64]" using kk(1) by (metis upt_add_eq_append upt_conv_Cons le_add_diff_inverse less_imp_le plus_nat.add_0 zero_le)
    have "\<forall>i \<in> set [0..<k]. \<not> bit w i" using only by fastforce
    then show ?thesis unfolding split using kk(2) by (subst takeWhile_append2) auto
  qed
  then have t: "trailing_zeros w = k" by (simp add: trailing_zeros_def)
  then show "trailing_zeros w < 64" using kk(1) by simp
  show "w = 2 ^ trailing_zeros w"
    unfolding t
  proof (rule bit_word_eqI)
    fix i
    assume "i < LENGTH(64)"
    moreover have "bit w i \<longleftrightarrow> i = k" using only kk(2) by blast
    ultimately show "bit w i = bit (2 ^ k :: u64) i" by (auto simp: bit_exp_iff)
  qed
qed

lemma loaded_config:
  assumes "config_load toml exists contents = Inr c"
  shows "cfg_fee_bps c \<le> 10000 \<and> cfg_stratum_fee_bps c \<le> 10000 \<and>
    unat (cfg_min_diff c) = 2 ^ unat (min_pot c) \<and> unat (min_pot c) < 64 \<and>
    cfg_prime_id c \<noteq> 0 \<and> cfg_window c \<noteq> 0 \<and> cfg_max_connections c \<noteq> 0 \<and> cfg_max_connections_per_ip c \<noteq> 0 \<and>
    printable_tag (cfg_snapshot_tag c) \<and> length (cfg_coinbase_tag c) \<le> 32 \<and> key_file c \<noteq> None \<and>
    65536 \<le> cfg_session_coinbase_budget c \<and> map to_ascii_lowercase (cfg_house_gateways c) = cfg_house_gateways c"
proof -
  obtain c0 where c0: "config_check exists c0 = Inr c"
    using assms by (auto simp: config_load_def rbind_Inr ok_or_Inr)
  have p: "is_power_of_two (cfg_min_diff c)"
    using c0 by (auto simp: config_check_def Let_def split: if_splits)
  note tz = power_of_two_bits [OF p]
  have m: "unat (min_pot c) = trailing_zeros (cfg_min_diff c)"
    using tz(2) by (simp add: min_pot_def unat_of_nat_lt)
  have "unat (2 ^ trailing_zeros (cfg_min_diff c) :: u64) = 2 ^ trailing_zeros (cfg_min_diff c)"
  proof -
    have "(2 :: nat) ^ trailing_zeros (cfg_min_diff c) < 2 ^ 64" using tz(2) by (rule power_strict_increasing) simp
    then show ?thesis using unat_of_nat_lt [of "2 ^ trailing_zeros (cfg_min_diff c)", where 'a = 64] by simp
  qed
  then have "unat (cfg_min_diff c) = 2 ^ unat (min_pot c)" using tz(1) m by metis
  then show ?thesis
    using c0 m tz(2) by (auto simp: config_check_def Let_def key_file_def not_less o_def split: if_splits)
qed

text \<open>
  C37: A configuration that loads is one the pool can run on.  Its fees are at most 100 percent, its
  smallest share difficulty is exactly 2 to the pot it hands to the verifier, its window and its
  connection limits are positive, its tags fit where they go, a key file is chosen, and house
  gateways are in the lower case that the comparison with a gateway's key needs.
\<close>

theorem loaded_config_usable:
  assumes "config_load toml exists contents = Inr c"
  shows "cfg_fee_bps c \<le> 10000 \<and> cfg_stratum_fee_bps c \<le> 10000 \<and>
    unat (cfg_min_diff c) = 2 ^ unat (min_pot c) \<and> unat (min_pot c) < 64 \<and>
    cfg_prime_id c \<noteq> 0 \<and> cfg_window c \<noteq> 0 \<and> cfg_max_connections c \<noteq> 0 \<and> cfg_max_connections_per_ip c \<noteq> 0 \<and>
    printable_tag (cfg_snapshot_tag c) \<and> length (cfg_coinbase_tag c) \<le> 32 \<and> key_file c \<noteq> None \<and>
    65536 \<le> cfg_session_coinbase_budget c \<and> map to_ascii_lowercase (cfg_house_gateways c) = cfg_house_gateways c"
  using assms by (rule loaded_config)

definition demo_config :: config where
  "demo_config = \<lparr>cfg_listen = (V4 0, 28915), cfg_stats_listen = (V4 0x7F000001, 28916), cfg_advertise_address = '''',
     cfg_data_dir = ''/d'', cfg_key_file = None, cfg_motd = ''Lazarus'', cfg_payout_address = ''bc1qtest'',
     cfg_coinbase_tag = ''Lazarus'', cfg_prime_id = 1, cfg_window = 8, cfg_window_min_work = 0, cfg_min_payout = 546,
     cfg_fee_bps = 50, cfg_stratum_fee_bps = 0, cfg_house_gateways = [''AB''], cfg_house_loopback = True, cfg_min_diff = 4,
     cfg_split_tolerance = 2, cfg_network = ''mainnet'', cfg_rpc = ''http://127.0.0.1:9332'', cfg_rpc_cookie = None,
     cfg_rpc_user = None, cfg_rpc_password = None, cfg_poll = 0x3FE0000000000000, cfg_stale_grace_secs = 30,
     cfg_import_ledger = None, cfg_headline = ''Lazarus'', cfg_max_connections = 256, cfg_max_connections_per_ip = 8,
     cfg_session_coinbase_budget = 4194304, cfg_commit_snapshot = True, cfg_snapshot_tag = ''PYBLOCK-TON618'',
     cfg_carry_forward = True, cfg_max_payees = 0, cfg_activation_height = None, cfg_verify_shares = None,
     cfg_require_split_gateway = None\<rparr>"

definition demo_loaded :: config where
  "demo_loaded = demo_config\<lparr>cfg_stratum_fee_bps := 50, cfg_house_gateways := [''ab''],
     cfg_key_file := Some ''/d/prime.key''\<rparr>"

lemma demo_loads: "config_load (\<lambda>_. Some demo_config) (\<lambda>_. False) (Some '''') = Inr demo_loaded"
  by code_simp

theorem loaded_config_usable_witness:
  "key_file demo_loaded \<noteq> None \<and> unat (cfg_min_diff demo_loaded) = 2 ^ unat (min_pot demo_loaded)"
  using loaded_config_usable [OF demo_loads] by blast

end
