(* ===== verification/Ordered_Map.thy ===== *)
theory Ordered_Map
  imports Prelude
begin

text \<open>
  The standard library's \<open>BTreeMap\<close> as the list of its entries in key order, which is the order it
  iterates in.  The locale \<open>key_store\<close> states what a client may rely on; the entry list is its model.
\<close>

section \<open>Entries in key order\<close>

type_synonym ('k, 'v) btree = "('k \<times> 'v) list"

fun bt_put :: "'k::linorder \<Rightarrow> 'v \<Rightarrow> ('k, 'v) btree \<Rightarrow> ('k, 'v) btree" where
  "bt_put k v [] = [(k, v)]"
| "bt_put k v ((k', v') # m) =
     (if k < k' then (k, v) # (k', v') # m else if k = k' then (k, v) # m else (k', v') # bt_put k v m)"

definition bt_del :: "'k \<Rightarrow> ('k, 'v) btree \<Rightarrow> ('k, 'v) btree" where
  "bt_del k m = filter (\<lambda>e. fst e \<noteq> k) m"

definition bt_ok :: "('k::linorder, 'v) btree \<Rightarrow> bool" where
  "bt_ok m \<longleftrightarrow> sorted_wrt (<) (map fst m)"

lemma bt_ok_simps [simp]:
  "bt_ok []" "bt_ok ((k, v) # m) \<longleftrightarrow> (\<forall>k' \<in> fst ` set m. k < k') \<and> bt_ok m"
  by (auto simp: bt_ok_def)

lemma bt_put_keys: "fst ` set (bt_put k v m) = insert k (fst ` set m)"
  by (induction k v m rule: bt_put.induct) (simp_all add: insert_commute)

lemma bt_ok_put: "bt_ok m \<Longrightarrow> bt_ok (bt_put k v m)"
proof (induction m)
  case (Cons e m)
  obtain a b where "e = (a, b)" by fastforce
  then show ?case using Cons by (auto simp: bt_put_keys less_trans)
qed simp

lemma bt_ok_del: "bt_ok m \<Longrightarrow> bt_ok (bt_del k m)"
  by (induction m) (auto simp: bt_del_def)

lemma bt_get_put: "bt_ok m \<Longrightarrow> map_of (bt_put k v m) = (map_of m)(k \<mapsto> v)"
proof (induction m)
  case (Cons e m)
  obtain a b where e: "e = (a, b)" by fastforce
  have "k \<notin> fst ` set m" if "k < a" using Cons.prems that by (fastforce simp: e)
  then show ?case using Cons by (auto simp: e fun_eq_iff)
qed simp

lemma bt_get_del: "map_of (bt_del k m) = (map_of m)(k := None)"
  by (induction m) (auto simp: bt_del_def fun_eq_iff)

lemma bt_ok_distinct: "bt_ok m \<Longrightarrow> distinct (map fst m)"
  unfolding bt_ok_def by (simp add: strict_sorted_iff)

lemma bt_put_set: "bt_ok m \<Longrightarrow> set (bt_put k v m) = insert (k, v) {e \<in> set m. fst e \<noteq> k}"
proof (induction m)
  case (Cons e m)
  obtain a b where e: "e = (a, b)" by fastforce
  have lt: "\<forall>x \<in> set m. a < fst x" using Cons.prems by (auto simp: e)
  consider "k < a" | "k = a" | "a < k" by fastforce
  then show ?case
  proof cases
    case 1
    then have "\<forall>x \<in> set m. fst x \<noteq> k" using lt by force
    then show ?thesis using 1 by (auto simp: e)
  next
    case 2
    then have "\<forall>x \<in> set m. fst x \<noteq> k" using lt by force
    then show ?thesis using 2 by (auto simp: e)
  next
    case 3
    then show ?thesis using Cons.IH Cons.prems by (auto simp: e)
  qed
qed simp

lemma map_of_filter_key: "P k \<Longrightarrow> map_of (filter (\<lambda>e. P (fst e)) m) k = map_of m k"
  by (induction m) auto

lemma bt_put_sum:
  "bt_ok m \<Longrightarrow> (\<Sum>e\<leftarrow>bt_put k v m. f (snd e)) + (case map_of m k of Some u \<Rightarrow> f u | None \<Rightarrow> 0) = (\<Sum>e\<leftarrow>m. f (snd e)) + (f v :: nat)"
proof (induction m)
  case (Cons e m)
  obtain a b where e: "e = (a, b)" by fastforce
  have "map_of m k = None" if "k < a" using Cons.prems that by (fastforce simp: e map_of_eq_None_iff)
  then show ?case using Cons by (auto simp: e)
qed simp

section \<open>What clients rely on\<close>

locale key_store =
  fixes get :: "'s \<Rightarrow> 'k \<Rightarrow> 'v option" and put :: "'k \<Rightarrow> 'v \<Rightarrow> 's \<Rightarrow> 's" and del :: "'k \<Rightarrow> 's \<Rightarrow> 's"
    and ok :: "'s \<Rightarrow> bool"
  assumes ok_put: "ok m \<Longrightarrow> ok (put k v m)"
    and ok_del: "ok m \<Longrightarrow> ok (del k m)"
    and get_put: "ok m \<Longrightarrow> get (put k v m) = (get m)(k \<mapsto> v)"
    and get_del: "ok m \<Longrightarrow> get (del k m) = (get m)(k := None)"
begin

text \<open>
  An operation that reads and changes one entry only: a run of them acts on every entry as the run
  of those that name it.
\<close>

definition pointwise :: "('k \<Rightarrow> 'x \<Rightarrow> 's \<Rightarrow> 's) \<Rightarrow> ('x \<Rightarrow> 'v option \<Rightarrow> 'v option) \<Rightarrow> bool" where
  "pointwise f g \<longleftrightarrow> (\<forall>k x m. ok m \<longrightarrow> ok (f k x m) \<and> get (f k x m) = (get m)(k := g x (get m k)))"

lemma pointwise_run:
  assumes "pointwise f g" and "ok m"
  shows "ok (fold (\<lambda>(k, x). f k x) xs m) \<and>
    get (fold (\<lambda>(k, x). f k x) xs m) k = fold g (map snd (filter (\<lambda>e. fst e = k) xs)) (get m k)"
  using assms(2)
proof (induction xs arbitrary: m)
  case (Cons e xs)
  obtain a x where e: "e = (a, x)" by fastforce
  have "ok (f a x m)" "get (f a x m) = (get m)(a := g x (get m a))"
    using assms(1) Cons.prems unfolding pointwise_def by blast+
  then show ?case using Cons.IH [of "f a x m"] by (simp add: e)
qed simp

end

interpretation bt: key_store map_of bt_put bt_del bt_ok
  by unfold_locales (simp_all add: bt_ok_put bt_ok_del bt_get_put bt_get_del)

end
