(* ===== verification/Snapshot.thy ===== *)
theory Snapshot
  imports Splitter Coinbaser Verify Config Ordered_Map "HOL-Library.Option_ord"
begin

text \<open>
  The window snapshot and its commitment (\<open>primed/src/snapshot.rs\<close>): the document a split was computed
  from, its canonical bytes, the OP_RETURN that commits to their hash, and the directory the
  documents are kept in.  The JSON writer, the hash and the hex codec are third-party and are
  parameters.  Shown: equal commitments mean equal windows, parameters, debts and splits; the
  commitment is an output a gateway accepts for tags of at most 30 bytes, and is not for longer
  ones; a stored document is what is loaded.
\<close>

section \<open>Documents\<close>

datatype json = JNum nat | JStr string | JArr "json list" | JObj "(string \<times> json) list"

definition VERSION :: nat where "VERSION = 2"
definition KEEP_SECS :: nat where "KEEP_SECS = 48 * 3600"

text \<open>Objects in key order, all the way down; a later entry of a key replaces an earlier one.\<close>

fun sorted_json :: "json \<Rightarrow> json" where
  "sorted_json (JObj m) =
     JObj (fold (\<lambda>(k, v). bt_put k v) (sort_key fst (map (\<lambda>(k, v). (k, sorted_json v)) m)) [])"
| "sorted_json (JArr a) = JArr (map sorted_json a)"
| "sorted_json (JNum n) = JNum n"
| "sorted_json (JStr s) = JStr s"

definition canonical_bytes :: "(json \<Rightarrow> bytes) \<Rightarrow> json \<Rightarrow> bytes" where
  "canonical_bytes to_vec v = to_vec (sorted_json v)"

record snapshot =
  sn_hash :: bytes
  sn_canonical :: bytes

definition sn_hex :: "(bytes \<Rightarrow> string) \<Rightarrow> snapshot \<Rightarrow> string" where
  "sn_hex hex s = hex (sn_hash s)"

definition op_return :: "snapshot \<Rightarrow> string \<Rightarrow> bytes" where
  "op_return s tag = (let data = str_bytes tag @ sn_hash s in [0x6A, of_nat (length data)] @ data)"

text \<open>\<open>v[key].as_str()\<close>\<close>

fun str_at :: "string \<Rightarrow> json \<Rightarrow> string option" where
  "str_at k (JObj m) = (case map_of m k of Some (JStr s) \<Rightarrow> Some s | _ \<Rightarrow> None)"
| "str_at k _ = None"

definition sats_entry :: "string \<times> u64 \<Rightarrow> json" where
  "sats_entry e = JObj [(''identity'', JStr (fst e)), (''sats'', JNum (unat (snd e)))]"

fun reason_name :: "unpaid_reason \<Rightarrow> string" where
  "reason_name NoScript = ''NoScript''"
| "reason_name BelowMinimum = ''BelowMinimum''"
| "reason_name OverBudget = ''OverBudget''"
| "reason_name BelowCut = ''BelowCut''"

definition RULE :: string where
  "RULE = ''sats_i = value * work_i * (10000 - bps_i) / total_work / 10000 (floor) where bps_i = fee_overrides[identity] if present, else stratum_fee_bps for stratum_work and fee_bps for the rest; payees largest work first; carry paid from the remainder above the fee, by identity name; pool = value - sum(paid)''"

text \<open>What a document is built from.\<close>

record snapshot_input =
  si_tag :: string
  si_height :: u32
  si_prev_hash :: string
  si_ts :: u64
  si_value :: u64
  si_fee_bps :: u32
  si_stratum_fee_bps :: u32
  si_min_payout :: u64
  si_max_outputs :: nat
  si_output_budget_bytes :: nat
  si_max_payees :: nat
  si_fee_overrides :: "(string, u32) btree"
  si_window_target :: u64
  si_window_total :: u64
  si_miners :: "miner_stat list"
  si_carry :: "(string, u64) btree"
  si_split :: split

definition window_entry :: "miner_stat \<Rightarrow> json" where
  "window_entry m = JObj [(''identity'', JStr (m_identity m)), (''work'', JNum (unat (m_work m))),
     (''stratum_work'', JNum (unat (m_stratum_work m)))]"

definition override_entry :: "string \<times> u32 \<Rightarrow> json" where
  "override_entry e = JObj [(''identity'', JStr (fst e)), (''fee_bps'', JNum (unat (snd e)))]"

definition payee_entry :: "(bytes \<Rightarrow> string) \<Rightarrow> payee \<Rightarrow> json" where
  "payee_entry hex p = JObj [(''identity'', JStr (py_identity p)), (''work'', JNum (unat (py_work p))),
     (''sats'', JNum (unat (py_sats p))), (''script'', JStr (hex (py_script p)))]"

definition unpaid_entry :: "string \<times> u64 \<times> unpaid_reason \<Rightarrow> json" where
  "unpaid_entry e = (case e of (k, s, r) \<Rightarrow>
     JObj [(''identity'', JStr k), (''sats'', JNum (unat s)), (''reason'', JStr (reason_name r))])"

definition params_json :: "snapshot_input \<Rightarrow> json" where
  "params_json i = JObj [
     (''fee_bps'', JNum (unat (si_fee_bps i))),
     (''stratum_fee_bps'', JNum (unat (si_stratum_fee_bps i))),
     (''min_payout'', JNum (unat (si_min_payout i))),
     (''max_outputs'', JNum (si_max_outputs i)),
     (''output_budget_bytes'', JNum (si_output_budget_bytes i)),
     (''max_payees'', JNum (si_max_payees i)),
     (''fee_overrides'', JArr (map override_entry (si_fee_overrides i))),
     (''rule'', JStr RULE)]"

definition window_json :: "snapshot_input \<Rightarrow> json" where
  "window_json i = JObj [
     (''target_work'', JNum (unat (si_window_target i))),
     (''total_work'', JNum (unat (si_window_total i))),
     (''identities'', JArr (sort_key (str_at ''identity'') (map window_entry (si_miners i))))]"

definition split_json :: "(bytes \<Rightarrow> string) \<Rightarrow> split \<Rightarrow> json" where
  "split_json hex sp = JObj [
     (''fee_sats'', JNum (unat (s_fee_sats sp))),
     (''payees'', JArr (map (payee_entry hex) (s_payees sp))),
     (''carry_paid'', JArr (map sats_entry (s_carry_paid sp))),
     (''unpaid'', JArr (map unpaid_entry (s_unpaid sp))),
     (''pool_sats'', JNum (unat (s_pool_sats sp)))]"

definition snapshot_doc :: "(bytes \<Rightarrow> string) \<Rightarrow> snapshot_input \<Rightarrow> json" where
  "snapshot_doc hex i = JObj [
     (''v'', JNum VERSION),
     (''tag'', JStr (si_tag i)),
     (''height'', JNum (unat (si_height i))),
     (''prevhash'', JStr (si_prev_hash i)),
     (''ts'', JNum (unat (si_ts i))),
     (''coinbase_value'', JNum (unat (si_value i))),
     (''params'', params_json i),
     (''window'', window_json i),
     (''carry'', JArr (map sats_entry (si_carry i))),
     (''split'', split_json hex (si_split i))]"

definition snapshot_build ::
    "(bytes \<Rightarrow> string) \<Rightarrow> (json \<Rightarrow> bytes) \<Rightarrow> (bytes \<Rightarrow> bytes) \<Rightarrow> snapshot_input \<Rightarrow> snapshot" where
  "snapshot_build hex to_vec blake2b i =
     (let canonical = canonical_bytes to_vec (snapshot_doc hex i)
      in \<lparr>sn_hash = blake2b canonical, sn_canonical = canonical\<rparr>)"

section \<open>The snapshot directory\<close>

type_synonym dir = "string \<rightharpoonup> bytes"

definition json_name :: "string \<Rightarrow> string" where
  "json_name h = h @ ''.json''"

definition tmp_name :: "string \<Rightarrow> string" where
  "tmp_name h = ''.'' @ h @ ''.tmp''"

text \<open>The document is written aside and renamed into place, unless it is there already.\<close>

definition snapshot_store :: "(bytes \<Rightarrow> string) \<Rightarrow> dir \<Rightarrow> snapshot \<Rightarrow> dir" where
  "snapshot_store hex d s =
     (let h = sn_hex hex s; name = json_name h in
      if d name \<noteq> None then d
      else
        let d = d(tmp_name h \<mapsto> sn_canonical s)
        in d(name := d (tmp_name h), tmp_name h := None))"

definition is_hexdigit :: "u8 \<Rightarrow> bool" where
  "is_hexdigit b \<longleftrightarrow> 48 \<le> b \<and> b \<le> 57 \<or> 97 \<le> b \<and> b \<le> 102 \<or> 65 \<le> b \<and> b \<le> 70"

definition snapshot_load :: "dir \<Rightarrow> string \<Rightarrow> bytes option" where
  "snapshot_load d h =
     (if length h \<noteq> 64 \<or> \<not> list_all is_hexdigit (str_bytes h) then None else d (json_name h))"

text \<open>\<open>strip_suffix(".json")\<close>\<close>

definition strip_json :: "string \<Rightarrow> string option" where
  "strip_json name =
     (if 5 \<le> length name \<and> drop (length name - 5) name = ''.json'' then Some (take (length name - 5) name) else None)"

text \<open>One pass over the directory; \<open>age\<close> is how old a file is, zero when the system cannot say.\<close>

fun snapshot_prune :: "(string \<Rightarrow> nat) \<Rightarrow> u64 \<Rightarrow> string list \<Rightarrow> string list \<Rightarrow> dir \<Rightarrow> dir" where
  "snapshot_prune age now keep [] d = d"
| "snapshot_prune age now keep (name # names) d =
     (case strip_json name of
        None \<Rightarrow> snapshot_prune age now keep names d
      | Some h \<Rightarrow>
          if h \<in> set keep then snapshot_prune age now keep names d
          else if age name > KEEP_SECS \<and> now > 0 then snapshot_prune age now keep names (d(name := None))
          else snapshot_prune age now keep names d)"

section \<open>What a commitment binds\<close>

fun fields :: "json \<Rightarrow> (string \<times> json) list" where
  "fields (JObj m) = m"
| "fields _ = []"

lemma fold_put: "bt_ok m \<Longrightarrow> distinct (map fst xs) \<Longrightarrow>
    bt_ok (fold (\<lambda>(k, v). bt_put k v) xs m) \<and>
    map_of (fold (\<lambda>(k, v). bt_put k v) xs m) k = (case map_of xs k of Some v \<Rightarrow> Some v | None \<Rightarrow> map_of m k)"
proof (induction xs arbitrary: m)
  case (Cons e xs)
  obtain a v where e: "e = (a, v)" by fastforce
  have "map_of xs a = None" using Cons.prems(2) by (simp add: e map_of_eq_None_iff image_image)
  then show ?case using Cons.IH [of "bt_put a v m"] Cons.prems
    by (auto simp: e bt.ok_put bt.get_put split: option.splits)
qed simp

lemma sorted_field:
  assumes "distinct (map fst m)"
  shows "map_of (fields (sorted_json (JObj m))) k = map_option sorted_json (map_of m k)"
proof -
  let ?xs = "map (\<lambda>(k, v). (k, sorted_json v)) m"
  have keys: "map fst ?xs = map fst m" by (induction m) auto
  have "mset (map fst (sort_key fst ?xs)) = mset (map fst ?xs)" unfolding mset_map mset_sort ..
  from mset_eq_imp_distinct_iff [OF this] have d: "distinct (map fst (sort_key fst ?xs))"
    unfolding keys using assms by blast
  have "map_of (sort_key fst ?xs) k = map_of ?xs k"
    using map_of_eq_Some_iff [OF d] map_of_eq_Some_iff [of ?xs] assms keys
    by (metis (no_types, lifting) not_Some_eq set_sort)
  moreover have "map_of ?xs k = map_option sorted_json (map_of m k)" by (simp add: map_of_map)
  ultimately show ?thesis using fold_put [OF _ d, of "[]" k] by (simp split: option.splits)
qed

text \<open>Objects with the same keys that are equal once sorted have equal fields.\<close>

lemma sorted_eq_fields:
  assumes eq: "sorted_json (JObj m) = sorted_json (JObj m')" and keys: "map fst m = map fst m'" and d: "distinct (map fst m)"
  shows "map (sorted_json \<circ> snd) m = map (sorted_json \<circ> snd) m'"
proof (rule nth_equalityI)
  show l: "length (map (sorted_json \<circ> snd) m) = length (map (sorted_json \<circ> snd) m')"
    using keys by (metis length_map)
  fix i
  assume "i < length (map (sorted_json \<circ> snd) m)"
  then have i: "i < length m" "i < length m'" using l by simp_all
  have d': "distinct (map fst m')" using d keys by simp
  have k: "fst (m ! i) = fst (m' ! i)" using keys i by (metis nth_map)
  have "map_of m (fst (m ! i)) = Some (snd (m ! i))" "map_of m' (fst (m ! i)) = Some (snd (m' ! i))"
    using map_of_eq_Some_iff [OF d] map_of_eq_Some_iff [OF d'] i k by (metis nth_mem prod.collapse)+
  then have "Some (sorted_json (snd (m ! i))) = Some (sorted_json (snd (m' ! i)))"
    using sorted_field [OF d, of "fst (m ! i)"] sorted_field [OF d', of "fst (m ! i)"] eq by simp
  then show "map (sorted_json \<circ> snd) m ! i = map (sorted_json \<circ> snd) m' ! i" using i by simp
qed

lemma sorted_arr: "sorted_json (JArr (map f xs)) = JArr (map (sorted_json \<circ> f) xs)"
  by simp

lemma sats_entry_inj: "sorted_json (sats_entry e) = sorted_json (sats_entry e') \<Longrightarrow> e = e'"
  unfolding sats_entry_def by (drule sorted_eq_fields) (simp_all add: prod_eq_iff word_unat_eq_iff)

lemma override_entry_inj: "sorted_json (override_entry e) = sorted_json (override_entry e') \<Longrightarrow> e = e'"
  by (cases e; cases e'; simp only: override_entry_def fst_conv snd_conv; drule sorted_eq_fields)
    (simp_all add: word_unat_eq_iff)

lemma payee_entry_inj: "inj hex \<Longrightarrow> sorted_json (payee_entry hex e) = sorted_json (payee_entry hex e') \<Longrightarrow> e = e'"
  by (cases e; cases e'; simp only: payee_entry_def payee.select_convs; drule sorted_eq_fields)
    (simp_all add: word_unat_eq_iff inj_eq [of hex])

lemma reason_name_inj: "reason_name r = reason_name r' \<Longrightarrow> r = r'"
  by (cases r; cases r') simp_all

lemma unpaid_entry_inj: "sorted_json (unpaid_entry e) = sorted_json (unpaid_entry e') \<Longrightarrow> e = e'"
  by (cases e; cases e'; simp only: unpaid_entry_def prod.case; drule sorted_eq_fields)
    (simp_all add: word_unat_eq_iff reason_name_inj)

definition row_core :: "miner_stat \<Rightarrow> string \<times> u64 \<times> u64" where
  "row_core m = (m_identity m, m_work m, m_stratum_work m)"

lemma window_entry_inj: "sorted_json (window_entry e) = sorted_json (window_entry e') \<Longrightarrow> row_core e = row_core e'"
  unfolding window_entry_def row_core_def
  by (drule sorted_eq_fields) (simp_all add: word_unat_eq_iff)

lemma window_sorted: "sort_key (str_at ''identity'') (map window_entry ms) = map window_entry (sort_key m_identity ms)"
proof -
  have i: "insort_key (str_at ''identity'') (window_entry m) (map window_entry xs) = map window_entry (insort_key m_identity m xs)" for m xs
    by (induction xs) (simp_all add: window_entry_def)
  show ?thesis by (induction ms) (simp_all add: sort_key_def i)
qed

lemma map_eq_through:
  assumes eq: "map f xs = map f ys" and f: "\<And>x y. f x = f y \<Longrightarrow> g x = g y"
  shows "map g xs = map g ys"
proof (rule nth_equalityI)
  show "length (map g xs) = length (map g ys)" using eq by (metis length_map)
  fix i
  assume i: "i < length (map g xs)"
  then have "i < length xs" "i < length ys" using map_eq_imp_length_eq [OF eq] by simp_all
  then have "f (xs ! i) = f (ys ! i)" using eq by (metis nth_map)
  then show "map g xs ! i = map g ys ! i" using f [of "xs ! i" "ys ! i"] \<open>i < length xs\<close> \<open>i < length ys\<close> by (simp only: nth_map)
qed

lemma sorted_arr_eq:
  assumes "sorted_json (JArr (map f xs)) = sorted_json (JArr (map f ys))"
    and "\<And>x y. sorted_json (f x) = sorted_json (f y) \<Longrightarrow> g x = g y"
  shows "map g xs = map g ys"
proof (rule map_eq_through [where f = "sorted_json \<circ> f"])
  show "map (sorted_json \<circ> f) xs = map (sorted_json \<circ> f) ys" using assms(1) by simp
next
  fix x y assume "(sorted_json \<circ> f) x = (sorted_json \<circ> f) y"
  then show "g x = g y" unfolding o_apply by (rule assms(2))
qed

lemma sorted_arr_id:
  assumes "sorted_json (JArr (map f xs)) = sorted_json (JArr (map f ys))"
    and "\<And>x y. sorted_json (f x) = sorted_json (f y) \<Longrightarrow> x = y"
  shows "xs = ys"
  using sorted_arr_eq [where g = "\<lambda>x. x", OF assms(1)] assms(2) by simp

text \<open>Two inputs agree on everything the document states; the rows of the window up to their order.\<close>

definition same_snapshot :: "snapshot_input \<Rightarrow> snapshot_input \<Rightarrow> bool" where
  "same_snapshot i j \<longleftrightarrow>
     si_tag i = si_tag j \<and> si_height i = si_height j \<and> si_prev_hash i = si_prev_hash j \<and> si_ts i = si_ts j \<and>
     si_value i = si_value j \<and> si_fee_bps i = si_fee_bps j \<and> si_stratum_fee_bps i = si_stratum_fee_bps j \<and>
     si_min_payout i = si_min_payout j \<and> si_max_outputs i = si_max_outputs j \<and>
     si_output_budget_bytes i = si_output_budget_bytes j \<and> si_max_payees i = si_max_payees j \<and>
     si_fee_overrides i = si_fee_overrides j \<and> si_window_target i = si_window_target j \<and>
     si_window_total i = si_window_total j \<and>
     map row_core (sort_key m_identity (si_miners i)) = map row_core (sort_key m_identity (si_miners j)) \<and>
     si_carry i = si_carry j \<and> s_fee_sats (si_split i) = s_fee_sats (si_split j) \<and>
     s_payees (si_split i) = s_payees (si_split j) \<and> s_carry_paid (si_split i) = s_carry_paid (si_split j) \<and>
     s_unpaid (si_split i) = s_unpaid (si_split j) \<and> s_pool_sats (si_split i) = s_pool_sats (si_split j)"

lemma snapshot_doc_binds:
  assumes "inj hex" and eq: "sorted_json (snapshot_doc hex i) = sorted_json (snapshot_doc hex j)"
  shows "same_snapshot i j"
proof -
  have top: "si_tag i = si_tag j \<and> unat (si_height i) = unat (si_height j) \<and> si_prev_hash i = si_prev_hash j \<and>
      unat (si_ts i) = unat (si_ts j) \<and> unat (si_value i) = unat (si_value j) \<and>
      sorted_json (params_json i) = sorted_json (params_json j) \<and>
      sorted_json (window_json i) = sorted_json (window_json j) \<and>
      sorted_json (JArr (map sats_entry (si_carry i))) = sorted_json (JArr (map sats_entry (si_carry j))) \<and>
      sorted_json (split_json hex (si_split i)) = sorted_json (split_json hex (si_split j))"
    using sorted_eq_fields [OF eq [unfolded snapshot_doc_def]] by (simp del: sorted_json.simps(1,2))
  have ps: "unat (si_fee_bps i) = unat (si_fee_bps j) \<and> unat (si_stratum_fee_bps i) = unat (si_stratum_fee_bps j) \<and>
      unat (si_min_payout i) = unat (si_min_payout j) \<and> si_max_outputs i = si_max_outputs j \<and>
      si_output_budget_bytes i = si_output_budget_bytes j \<and> si_max_payees i = si_max_payees j \<and>
      sorted_json (JArr (map override_entry (si_fee_overrides i))) = sorted_json (JArr (map override_entry (si_fee_overrides j)))"
  proof -
    have "sorted_json (params_json i) = sorted_json (params_json j)" using top by blast
    from sorted_eq_fields [OF this [unfolded params_json_def]] show ?thesis by (simp del: sorted_json.simps(1,2))
  qed
  have ws: "unat (si_window_target i) = unat (si_window_target j) \<and> unat (si_window_total i) = unat (si_window_total j) \<and>
      sorted_json (JArr (map window_entry (sort_key m_identity (si_miners i)))) =
        sorted_json (JArr (map window_entry (sort_key m_identity (si_miners j))))"
  proof -
    have "sorted_json (window_json i) = sorted_json (window_json j)" using top by blast
    from sorted_eq_fields [OF this [unfolded window_json_def]] show ?thesis
      by (simp add: window_sorted del: sorted_json.simps(1,2))
  qed
  have sp: "unat (s_fee_sats (si_split i)) = unat (s_fee_sats (si_split j)) \<and>
      unat (s_pool_sats (si_split i)) = unat (s_pool_sats (si_split j)) \<and>
      sorted_json (JArr (map (payee_entry hex) (s_payees (si_split i)))) = sorted_json (JArr (map (payee_entry hex) (s_payees (si_split j)))) \<and>
      sorted_json (JArr (map sats_entry (s_carry_paid (si_split i)))) = sorted_json (JArr (map sats_entry (s_carry_paid (si_split j)))) \<and>
      sorted_json (JArr (map unpaid_entry (s_unpaid (si_split i)))) = sorted_json (JArr (map unpaid_entry (s_unpaid (si_split j))))"
  proof -
    have "sorted_json (split_json hex (si_split i)) = sorted_json (split_json hex (si_split j))" using top by blast
    from sorted_eq_fields [OF this [unfolded split_json_def]] show ?thesis by (simp del: sorted_json.simps(1,2))
  qed
  note cs = conjunct2 [OF conjunct2 [OF sp]]
  have "si_carry i = si_carry j"
    by (rule sorted_arr_id [OF _ sats_entry_inj]) (use top in blast)+
  moreover have "s_payees (si_split i) = s_payees (si_split j)"
    by (rule sorted_arr_id [OF conjunct1 [OF cs] payee_entry_inj [OF assms(1)]])
  moreover have "s_carry_paid (si_split i) = s_carry_paid (si_split j)"
    by (rule sorted_arr_id [OF conjunct1 [OF conjunct2 [OF cs]] sats_entry_inj])
  moreover have "s_unpaid (si_split i) = s_unpaid (si_split j)"
    by (rule sorted_arr_id [OF conjunct2 [OF conjunct2 [OF cs]] unpaid_entry_inj])
  moreover have "si_fee_overrides i = si_fee_overrides j"
    by (rule sorted_arr_id [OF _ override_entry_inj]) (use ps in blast)+
  moreover have "map row_core (sort_key m_identity (si_miners i)) = map row_core (sort_key m_identity (si_miners j))"
    by (rule sorted_arr_eq [OF conjunct2 [OF conjunct2 [OF ws]] window_entry_inj])
  ultimately show ?thesis
    using top ps ws sp by (simp only: same_snapshot_def word_unat_eq_iff simp_thms)
qed

text \<open>
  C27: A commitment binds everything the split was computed from.  If two issued coinbasers carry the
  same OP_RETURN and their documents are not a collision of the hash, then tag, height, previous
  block, time, value, every fee and limit, the overrides, the rows of the window, the debts, and the
  split itself with all amounts, scripts and reasons are the same; the window may only have been
  listed in another order.
\<close>

theorem commitment_binds:
  assumes "inj hex"
    and no_collision: "blake2b (canonical_bytes to_vec (snapshot_doc hex i)) = blake2b (canonical_bytes to_vec (snapshot_doc hex j)) \<Longrightarrow>
      sorted_json (snapshot_doc hex i) = sorted_json (snapshot_doc hex j)"
    and same: "op_return (snapshot_build hex to_vec blake2b i) tag = op_return (snapshot_build hex to_vec blake2b j) tag"
  shows "same_snapshot i j"
proof -
  have "sn_hash (snapshot_build hex to_vec blake2b i) = sn_hash (snapshot_build hex to_vec blake2b j)"
    using same by (simp add: op_return_def Let_def)
  then have "blake2b (canonical_bytes to_vec (snapshot_doc hex i)) = blake2b (canonical_bytes to_vec (snapshot_doc hex j))"
    by (simp add: snapshot_build_def Let_def)
  from snapshot_doc_binds [OF assms(1) no_collision [OF this]] show ?thesis .
qed

definition demo_input :: "miner_stat list \<Rightarrow> snapshot_input" where
  "demo_input ms = \<lparr>si_tag = ''T'', si_height = 7, si_prev_hash = ''00'', si_ts = 1, si_value = 5000, si_fee_bps = 50,
     si_stratum_fee_bps = 50, si_min_payout = 546, si_max_outputs = 511, si_output_budget_bytes = 13927, si_max_payees = 0,
     si_fee_overrides = [], si_window_target = 8, si_window_total = 4, si_miners = ms, si_carry = [(''cy'', 700)],
     si_split = \<lparr>s_value = 5000, s_fee_sats = 25, s_total_work = 4, s_payees = [], s_unpaid = [], s_carry_paid = [],
       s_pool_sats = 5000\<rparr>\<rparr>"

theorem commitment_binds_witness:
  "same_snapshot (demo_input demo_stats) (demo_input (rev demo_stats)) \<and> rev demo_stats \<noteq> demo_stats"
proof -
  have i: "inj bytes_str" by (rule injI) (metis str_bytes_str)
  have "sort_key m_identity (rev demo_stats) = sort_key m_identity demo_stats"
    by (simp add: demo_stats_def)
  then have d: "snapshot_doc bytes_str (demo_input (rev demo_stats)) = snapshot_doc bytes_str (demo_input demo_stats)"
    by (simp add: snapshot_doc_def window_json_def params_json_def window_sorted demo_input_def)
  have "same_snapshot (demo_input demo_stats) (demo_input (rev demo_stats))"
    by (rule commitment_binds [OF i, where to_vec = "\<lambda>_. []" and blake2b = "\<lambda>_. replicate 32 7" and tag = "''T''"])
      (simp_all add: d snapshot_build_def)
  moreover have "rev demo_stats \<noteq> demo_stats" by (simp add: demo_stats_def)
  ultimately show ?thesis by blast
qed

section \<open>The commitment as an output\<close>

lemma op_return_shape:
  assumes "length (sn_hash s) = 32" and "length tag \<le> 40"
  shows "length (op_return s tag) = length tag + 34" and "unat (op_return s tag ! 1) = length tag + 32"
proof -
  have "unat (of_nat (length tag + 32) :: u8) = length tag + 32" using assms(2) by (intro unat_of_nat_lt) simp
  then show "length (op_return s tag) = length tag + 34" "unat (op_return s tag ! 1) = length tag + 32"
    using assms(1) by (simp_all add: op_return_def Let_def)
qed

text \<open>
  With a tag the configuration allows, the commitment is one direct push of tag and hash behind an
  OP_RETURN, which the verifier recognises as a commitment and a coinbase may carry.
\<close>

theorem commitment_script_valid:
  assumes "length (sn_hash s) = 32" and "printable_tag tag"
  shows "is_commit \<lparr>o_sats = 0, o_script = op_return s tag\<rparr> \<and> rdts_output_ok (op_return s tag) \<and>
    unat (op_return s tag ! 1) < 0x4C \<and> unat (op_return s tag ! 1) + 2 = length (op_return s tag) \<and>
    drop (2 + length tag) (op_return s tag) = sn_hash s"
  using assms op_return_shape [OF assms(1), of tag]
  by (simp add: printable_tag_def is_commit_def rdts_output_ok_def RDTS_MAX_OUTPUT_DATA_def op_return_def Let_def)

definition demo_snapshot :: snapshot where
  "demo_snapshot = \<lparr>sn_hash = replicate 32 7, sn_canonical = [1, 2]\<rparr>"

theorem commitment_script_valid_witness:
  "rdts_output_ok (op_return demo_snapshot ''PYBLOCK-TON618'') \<and> length (op_return demo_snapshot ''PYBLOCK-TON618'') = 48"
proof -
  have "printable_tag ''PYBLOCK-TON618''" by code_simp
  from commitment_script_valid [OF _ this, of demo_snapshot] show ?thesis
    by (simp add: demo_snapshot_def op_return_def Let_def)
qed

text \<open>
  A tag of more than 30 bytes loads but cannot be issued.  The configuration allows 40, and a
  commitment with any of the longer ones exceeds the 64 bytes a script of a coinbaser may have, so
  a gateway that decodes the reply refuses the whole list.
\<close>

theorem long_tag_refused:
  assumes "length (sn_hash s) = 32" and "printable_tag tag" and "30 < length tag"
  shows "decode_v2 (encode_v2 cid (\<lparr>o_sats = 0, o_script = op_return s tag\<rparr> # outs)) =
    Inl (Malformed ''coinbaser script length'')"
proof -
  have len: "length (op_return s tag) = length tag + 34" "length tag \<le> 40"
    using op_return_shape [OF assms(1), of tag] assms(2) by (simp_all add: printable_tag_def)
  then have n: "unat (of_nat (length (op_return s tag)) :: u8) = length tag + 34" by (subst unat_of_nat_lt) simp_all
  have "decode_loop [] (at_pos pre (encode_output \<lparr>o_sats = 0, o_script = op_return s tag\<rparr> @ suf)) =
      Inl (Malformed ''coinbaser script length'')" for pre suf
    using n assms(3)
    by (simp add: decode_loop.simps c_remaining_at decode_output_def encode_output_def cursor_simps MAX_SCRIPT_def)
  then show ?thesis
    by (simp add: decode_v2_def encode_v2_def cursor_new_at c_u8_at MAX_OUTPUTS_def)
qed

theorem long_tag_refused_witness:
  "printable_tag (replicate 31 CHR ''T'') \<and>
   decode_v2 (encode_v2 1 [\<lparr>o_sats = 0, o_script = op_return demo_snapshot (replicate 31 CHR ''T'')\<rparr>]) =
     Inl (Malformed ''coinbaser script length'')"
proof -
  have p: "printable_tag (replicate 31 CHR ''T'')" by code_simp
  have "length (sn_hash demo_snapshot) = 32" "30 < length (replicate 31 CHR ''T'')" by (simp_all add: demo_snapshot_def)
  from long_tag_refused [OF this(1) p this(2)] p show ?thesis by blast
qed

section \<open>Keeping documents\<close>

lemma strip_json_name: "strip_json (json_name h) = Some h"
  by (simp add: strip_json_def json_name_def)

lemma strip_json_Some: "strip_json name = Some h \<Longrightarrow> name = json_name h"
  by (auto simp: strip_json_def json_name_def split: if_splits) (metis append_take_drop_id)

lemma tmp_not_json: "tmp_name h \<noteq> json_name k"
proof -
  have "last (tmp_name h) = CHR ''p''" "last (json_name k) = CHR ''n''" by (simp_all add: tmp_name_def json_name_def)
  then show ?thesis by force
qed

lemma prune_keeps:
  "h \<in> set keep \<Longrightarrow> snapshot_prune age now keep names d (json_name h) = d (json_name h)"
  by (induction names arbitrary: d) (auto simp: strip_json_name split: option.splits dest: strip_json_Some)

text \<open>
  The document of a found block stays published.  Once a snapshot is stored, loading its hash gives
  its canonical bytes, however often it is stored again and through any pruning that names it as
  one to keep, whatever the ages of the files; storing it touches no other document.
\<close>

theorem kept_snapshot_loads:
  assumes "length (sn_hex hex s) = 64" and "list_all is_hexdigit (str_bytes (sn_hex hex s))"
    and "d (json_name (sn_hex hex s)) \<in> {None, Some (sn_canonical s)}" and "sn_hex hex s \<in> set keep"
  shows "snapshot_load (snapshot_prune age now keep names (snapshot_store hex d s)) (sn_hex hex s) = Some (sn_canonical s) \<and>
    snapshot_store hex (snapshot_store hex d s) s = snapshot_store hex d s \<and>
    (k \<noteq> sn_hex hex s \<longrightarrow> snapshot_store hex d s (json_name k) = d (json_name k))"
proof -
  let ?h = "sn_hex hex s"
  have st: "snapshot_store hex d s (json_name ?h) = Some (sn_canonical s)"
    using assms(3) tmp_not_json [of ?h ?h] by (auto simp: snapshot_store_def Let_def)
  moreover have "snapshot_store hex d s (json_name k) = d (json_name k)" if "k \<noteq> ?h"
    using that tmp_not_json [of ?h k, symmetric] by (auto simp: snapshot_store_def Let_def json_name_def)
  ultimately show ?thesis
    using assms(1,2) prune_keeps [OF assms(4)] by (simp add: snapshot_load_def) (simp add: snapshot_store_def Let_def)
qed

theorem kept_snapshot_loads_witness:
  "snapshot_load (snapshot_prune (\<lambda>_. 200000) 1 [replicate 64 CHR ''0''] [replicate 64 CHR ''0'' @ ''.json'']
     (snapshot_store (\<lambda>_. replicate 64 CHR ''0'') Map.empty demo_snapshot)) (replicate 64 CHR ''0'') = Some [1, 2]"
proof -
  have h: "sn_hex (\<lambda>_. replicate 64 CHR ''0'') demo_snapshot = replicate 64 CHR ''0''" by (simp add: sn_hex_def)
  have "list_all is_hexdigit (str_bytes (replicate 64 CHR ''0''))" by code_simp
  moreover have "length (replicate 64 CHR ''0'') = 64" by simp
  ultimately show ?thesis
    using conjunct1 [OF kept_snapshot_loads [where hex = "\<lambda>_. replicate 64 CHR ''0''" and s = demo_snapshot and d = Map.empty
        and keep = "[replicate 64 CHR ''0'']" and age = "\<lambda>_. 200000" and now = 1
        and names = "[replicate 64 CHR ''0'' @ ''.json'']", unfolded h]]
    by (simp only: list.set insert_iff simp_thms snapshot.select_convs demo_snapshot_def)
qed

end
