(* ===== verification/Ledger.thy ===== *)
theory Ledger
  imports Window Utf8 "HOL-Library.Code_Target_Nat" "HOL-Library.Code_Target_Int"
begin

text \<open>
  The durable window (\<open>tides/src/lib.rs\<close>: \<open>Ledger\<close>, \<open>Carry\<close>, \<open>BlockRecord\<close>, \<open>BlockLog\<close>).  The directory is a
  record of file contents, and a \<open>BufWriter\<close> is the bytes it has not handed to the file yet.  The
  JSON codec of the meta file and of the block log comes from a third-party crate and is a
  parameter.  Operating-system failures are not modelled; invalid UTF-8 in the identity file and the
  panics of checked arithmetic are.  Shown: persisting and reopening gives back the live window;
  the carry ledger keeps its keys ordered and its amounts exact; the block log yields the latest line of every block.
\<close>

section \<open>The directory\<close>

record meta =
  me_target_work :: u64
  me_lifetime_shares :: u64
  me_lifetime_work :: u64

definition meta_default :: meta where
  "meta_default = \<lparr>me_target_work = 0, me_lifetime_shares = 0, me_lifetime_work = 0\<rparr>"

record disk =
  d_credits :: bytes
  d_idents :: bytes
  d_meta :: "bytes option"

datatype fault = Invalid_data | Panicked

definition no_panic :: "'a option \<Rightarrow> fault + 'a" where
  "no_panic x = ok_or x Panicked"

text \<open>\<open>BufWriter\<close>: small writes collect until the 8 KiB buffer has no room for the next one.\<close>

definition BUF_CAPACITY :: nat where "BUF_CAPACITY = 8192"

definition bw_write :: "bytes \<Rightarrow> bytes \<Rightarrow> bytes \<Rightarrow> bytes \<times> bytes" where
  "bw_write file pending b =
     (if length b + length pending < BUF_CAPACITY then (file, pending @ b)
      else let file = (if length b + length pending > BUF_CAPACITY then file @ pending else file);
               pending = (if length b + length pending > BUF_CAPACITY then [] else pending)
           in if length b \<ge> BUF_CAPACITY then (file @ b, pending) else (file, pending @ b))"

text \<open>\<open>BufRead::lines\<close>: without the newline, or the carriage return before it.\<close>

fun split_lines :: "bytes \<Rightarrow> bytes \<Rightarrow> bytes list" where
  "split_lines acc [] = (if acc = [] then [] else [acc])"
| "split_lines acc (b # bs) = (if b = 10 then acc # split_lines [] bs else split_lines (acc @ [b]) bs)"

text \<open>Only a line that a newline ended loses its carriage return.\<close>

definition strip_cr :: "bytes \<Rightarrow> bytes" where
  "strip_cr l = (if l \<noteq> [] \<and> last l = 13 then butlast l else l)"

definition lines_of :: "bytes \<Rightarrow> bytes list" where
  "lines_of bs =
     (let ls = split_lines [] bs in
      if bs = [] \<or> last bs = 10 then map strip_cr ls else map strip_cr (butlast ls) @ [last ls])"

section \<open>The ledger\<close>

record ledger =
  l_window :: window
  l_credits_out :: bytes
  l_idents_out :: bytes
  l_rows_on_disk :: u64
  l_dirty :: bool

fun intern_lines :: "bytes list \<Rightarrow> window \<Rightarrow> fault + window" where
  "intern_lines [] w = Inr w"
| "intern_lines (l # ls) w =
     (if \<not> is_utf8 l then Inl Invalid_data
      else intern_lines ls (if l = [] then w else snd (intern w (bytes_str l))))"

function replay_rows :: "bytes \<Rightarrow> window \<times> u64 \<Rightarrow> (window \<times> u64) option" where
  "replay_rows b (w, n) =
     (if length b < CREDIT_SIZE then Some (w, n)
      else let c = credit_read (take CREDIT_SIZE b) in
        if unat (cr_ident c) < length (w_idents w) then do {
          w \<leftarrow> push_raw w c;
          n \<leftarrow> checked_add n 1;
          replay_rows (drop CREDIT_SIZE b) (w, n)
        }
        else replay_rows (drop CREDIT_SIZE b) (w, n))"
  by pat_completeness auto
termination
  by (relation "measure (\<lambda>(b, _). length b)") (auto simp: CREDIT_SIZE_def)

declare replay_rows.simps [simp del]

definition ledger_compact :: "ledger \<Rightarrow> disk \<Rightarrow> ledger \<times> disk" where
  "ledger_compact l d =
     (l\<lparr>l_credits_out := [], l_rows_on_disk := of_nat (length (w_credits (l_window l)))\<rparr>,
      d\<lparr>d_credits := concat (map credit_write (w_credits (l_window l)))\<rparr>)"

definition compact_if_grown :: "ledger \<Rightarrow> disk \<Rightarrow> (ledger \<times> disk) option" where
  "compact_if_grown l d = do {
     limit \<leftarrow> checked_add (of_nat (length (w_credits (l_window l)))) 8192;
     Some (if l_rows_on_disk l > limit then ledger_compact l d else (l, d))
   }"

definition ledger_open :: "(bytes \<Rightarrow> meta option) \<Rightarrow> disk \<Rightarrow> fault + (ledger \<times> disk)" where
  "ledger_open dec_meta d =
     (let meta = (case Option.bind (d_meta d) dec_meta of None \<Rightarrow> meta_default | Some m \<Rightarrow> m);
          w = window_new\<lparr>w_lifetime_shares := me_lifetime_shares meta, w_lifetime_work := me_lifetime_work meta\<rparr>
      in rbind (intern_lines (lines_of (d_idents d)) w) (\<lambda>w.
         rbind (no_panic (replay_rows (d_credits d) (w, 0))) (\<lambda>(w, n).
         no_panic (compact_if_grown
           \<lparr>l_window = set_target w (me_target_work meta), l_credits_out = [], l_idents_out = [],
            l_rows_on_disk = n, l_dirty = False\<rparr> d))))"

definition ledger_credit ::
    "ledger \<Rightarrow> disk \<Rightarrow> string \<Rightarrow> u64 \<Rightarrow> u32 \<Rightarrow> u32 \<Rightarrow> u8 \<Rightarrow> (ledger \<times> disk) option" where
  "ledger_credit l d identity work height ts source = do {
     let known = (w_ident_index (l_window l) identity \<noteq> None);
     (row, w) \<leftarrow> credit_row (l_window l) identity work height ts source;
     let (idents, idents_out) =
       (if known then (d_idents d, l_idents_out l)
        else let (f, p) = bw_write (d_idents d) (l_idents_out l) (str_bytes identity) in bw_write f p [10]);
     let (credits, credits_out) = bw_write (d_credits d) (l_credits_out l) (credit_write row);
     n \<leftarrow> checked_add (l_rows_on_disk l) 1;
     Some (l\<lparr>l_window := w, l_credits_out := credits_out, l_idents_out := idents_out, l_rows_on_disk := n,
             l_dirty := True\<rparr>,
           d\<lparr>d_credits := credits, d_idents := idents\<rparr>)
   }"

definition ledger_set_target :: "ledger \<Rightarrow> u64 \<Rightarrow> ledger" where
  "ledger_set_target l target_work =
     (if w_target_work (l_window l) \<noteq> target_work
      then l\<lparr>l_window := set_target (l_window l) target_work, l_dirty := True\<rparr>
      else l)"

definition ledger_flush :: "(meta \<Rightarrow> bytes) \<Rightarrow> ledger \<Rightarrow> disk \<Rightarrow> (ledger \<times> disk) option" where
  "ledger_flush enc_meta l d =
     (if \<not> l_dirty l then Some (l, d)
      else
        let d = d\<lparr>d_idents := d_idents d @ l_idents_out l\<rparr>;
            d = d\<lparr>d_credits := d_credits d @ l_credits_out l\<rparr>;
            meta = \<lparr>me_target_work = w_target_work (l_window l),
                    me_lifetime_shares = w_lifetime_shares (l_window l),
                    me_lifetime_work = w_lifetime_work (l_window l)\<rparr>;
            d = d\<lparr>d_meta := Some (enc_meta meta)\<rparr>
        in compact_if_grown (l\<lparr>l_idents_out := [], l_credits_out := [], l_dirty := False\<rparr>) d)"

text \<open>\<open>sync\<close> flushes and asks the system to write through, which the model's files already are.\<close>

definition ledger_sync :: "(meta \<Rightarrow> bytes) \<Rightarrow> ledger \<Rightarrow> disk \<Rightarrow> (ledger \<times> disk) option" where
  "ledger_sync enc_meta l d = ledger_flush enc_meta l d"

definition persist_window :: "(meta \<Rightarrow> bytes) \<Rightarrow> ledger \<Rightarrow> disk \<Rightarrow> (ledger \<times> disk) option" where
  "persist_window enc_meta l d = do {
     (l, d) \<leftarrow> ledger_sync enc_meta l d;
     Some (if l_rows_on_disk l \<noteq> of_nat (length (w_credits (l_window l))) then ledger_compact l d else (l, d))
   }"

text \<open>One row of the document another pool exports: time, identity, work and height.\<close>

fun import_rows :: "(u32 \<times> string \<times> u64 \<times> u32) list \<Rightarrow> ledger \<Rightarrow> disk \<Rightarrow> (ledger \<times> disk) option" where
  "import_rows [] l d = Some (l, d)"
| "import_rows ((ts, identity, work, height) # rs) l d = do {
     (l, d) \<leftarrow> ledger_credit l d identity work height ts SOURCE_UNKNOWN;
     import_rows rs l d
   }"

definition import_json_credits ::
    "(meta \<Rightarrow> bytes) \<Rightarrow> (bytes \<Rightarrow> (u32 \<times> string \<times> u64 \<times> u32) list option) \<Rightarrow> bytes \<Rightarrow> ledger \<Rightarrow> disk \<Rightarrow>
       fault + (nat \<times> ledger \<times> disk)" where
  "import_json_credits enc_meta dec_doc file l d =
     rbind (ok_or (dec_doc file) Invalid_data) (\<lambda>rows.
     rbind (no_panic (import_rows rows l d)) (\<lambda>(l, d).
     rbind (no_panic (ledger_flush enc_meta l d)) (\<lambda>(l, d). Inr (length rows, l, d))))"

section \<open>Reading the files back\<close>

lemma bw_write_concat: "bw_write f p b = (f', p') \<Longrightarrow> f' @ p' = f @ p @ b"
  by (cases p) (auto simp: bw_write_def Let_def split: if_splits)

definition ident_line :: "string \<Rightarrow> bytes" where
  "ident_line s = str_bytes s @ [10]"

text \<open>Identities that survive the text file: one line each, not empty, valid UTF-8.\<close>

definition storable :: "string \<Rightarrow> bool" where
  "storable s \<longleftrightarrow> s \<noteq> '''' \<and> 10 \<notin> set (str_bytes s) \<and> last (str_bytes s) \<noteq> 13 \<and> is_utf8 (str_bytes s)"

lemma split_lines_line: "10 \<notin> set l \<Longrightarrow> split_lines acc (l @ 10 # bs) = (acc @ l) # split_lines [] bs"
  by (induction l arbitrary: acc) auto

lemma str_bytes_nonempty: "s \<noteq> '''' \<Longrightarrow> str_bytes s \<noteq> []"
  by (metis length_0_conv length_str_bytes(1))

lemma lines_of_terminated:
  assumes "\<forall>l \<in> set ls. 10 \<notin> set l \<and> strip_cr l = l"
  shows "lines_of (concat (map (\<lambda>l. l @ [10]) ls)) = ls"
proof -
  have "split_lines [] (concat (map (\<lambda>l. l @ [10]) ls)) = ls"
    using assms by (induction ls) (simp_all add: split_lines_line)
  moreover have "map strip_cr ls = ls" using assms by (induction ls) auto
  moreover have "concat (map (\<lambda>l. l @ [10]) ls) = [] \<or> last (concat (map (\<lambda>l. l @ [10]) ls)) = (10 :: u8)"
    by (induction ls) (auto simp: last_append)
  ultimately show ?thesis by (auto simp: lines_of_def Let_def)
qed

lemma lines_of_idents:
  assumes "list_all storable ids"
  shows "lines_of (concat (map ident_line ids)) = map str_bytes ids"
proof -
  have "concat (map ident_line ids) = concat (map (\<lambda>l. l @ [10]) (map str_bytes ids))"
    by (simp add: ident_line_def [abs_def] o_def)
  then show ?thesis
    using lines_of_terminated [of "map str_bytes ids"] assms by (auto simp: list_all_iff storable_def strip_cr_def)
qed

lemma intern_lines_ok:
  assumes "window_inv w" and "list_all storable ids" and "distinct (w_idents w @ ids)"
    and "length (w_idents w @ ids) \<le> 2 ^ 32"
  shows "\<exists>w'. intern_lines (map str_bytes ids) w = Inr w' \<and> window_inv w' \<and> w_idents w' = w_idents w @ ids \<and>
    w_credits w' = w_credits w \<and> w_total_work w' = w_total_work w \<and> w_target_work w' = w_target_work w \<and>
    w_lifetime_shares w' = w_lifetime_shares w \<and> w_lifetime_work w' = w_lifetime_work w"
  using assms
proof (induction ids arbitrary: w)
  case (Cons s ids)
  obtain i w1 where i: "intern w s = (i, w1)" by fastforce
  have "length (w_idents w) < 2 ^ 32" using Cons.prems(4) by simp
  note sp = intern_spec [OF Cons.prems(1) this i]
  have new: "w_idents w1 = w_idents w @ [s]" using sp(11) Cons.prems(3) by simp
  obtain w' where "intern_lines (map str_bytes ids) w1 = Inr w'" "window_inv w'" "w_idents w' = w_idents w1 @ ids"
      "w_credits w' = w_credits w1" "w_total_work w' = w_total_work w1" "w_target_work w' = w_target_work w1"
      "w_lifetime_shares w' = w_lifetime_shares w1" "w_lifetime_work w' = w_lifetime_work w1"
    using Cons.IH [OF sp(1)] Cons.prems(2-4) new by auto
  then show ?case using Cons.prems(2) i sp new by (simp add: storable_def str_bytes_nonempty)
qed simp

lemma replay_rows_ok:
  assumes "window_inv w" and "\<forall>c \<in> set rows. unat (cr_ident c) < length (w_idents w)"
    and "unat (w_total_work w) + works rows < 2 ^ 64" and "length (w_credits w) = unat n"
    and "unat n + length rows < 2 ^ 64"
  shows "\<exists>w' n'. replay_rows (concat (map credit_write rows)) (w, n) = Some (w', n') \<and> window_inv w' \<and>
    w_credits w' = w_credits w @ rows \<and> w_idents w' = w_idents w \<and> w_target_work w' = w_target_work w \<and>
    w_lifetime_shares w' = w_lifetime_shares w \<and> w_lifetime_work w' = w_lifetime_work w \<and>
    unat n' = unat n + length rows"
  using assms
proof (induction rows arbitrary: w n)
  case Nil
  then show ?case by (simp add: replay_rows.simps CREDIT_SIZE_def)
next
  case (Cons c rows)
  obtain wk m l where e: "total_entry (w_totals w) (cr_ident c) = (wk, m, l)" by (cases "total_entry (w_totals w) (cr_ident c)")
  have "totals_ok (w_totals w) (w_credits w)" using Cons.prems(1) by (simp add: window_inv_def)
  from total_entry_ok(2) [OF this e] have "unat m \<le> length (w_credits w)" by (simp add: rows_of_def)
  then obtain m' where "checked_add m 1 = Some m'" using Cons.prems(4,5) checked_ex(1) [of m 1] by auto
  then obtain w1 where p: "push_raw w c = Some w1" using e by (simp add: push_raw_def Let_def)
  have "unat (w_total_work w) + unat (cr_work c) < 2 ^ 64" using Cons.prems(3) by simp
  note sp = push_raw_spec [OF Cons.prems(1) _ this p]
  obtain n1 where n1: "checked_add n 1 = Some n1" "unat n1 = unat n + 1"
    using checked_ex(1) [of n 1] Cons.prems(5) by auto
  have "\<exists>w' n'. replay_rows (concat (map credit_write rows)) (w1, n1) = Some (w', n') \<and> window_inv w' \<and>
    w_credits w' = w_credits w1 @ rows \<and> w_idents w' = w_idents w1 \<and> w_target_work w' = w_target_work w1 \<and>
    w_lifetime_shares w' = w_lifetime_shares w1 \<and> w_lifetime_work w' = w_lifetime_work w1 \<and>
    unat n' = unat n1 + length rows"
    by (rule Cons.IH) (use sp Cons.prems n1 in auto)
  moreover have "replay_rows (concat (map credit_write (c # rows))) (w, n) = replay_rows (concat (map credit_write rows)) (w1, n1)"
    using Cons.prems(2) p n1(1) by (subst replay_rows.simps) (simp add: credit_read_write)
  ultimately show ?case using sp Cons.prems(2) n1(2) by auto
qed


section \<open>What the files hold\<close>

definition meta_of :: "window \<Rightarrow> meta" where
  "meta_of w = \<lparr>me_target_work = w_target_work w, me_lifetime_shares = w_lifetime_shares w,
     me_lifetime_work = w_lifetime_work w\<rparr>"

definition stored_meta :: "(bytes \<Rightarrow> meta option) \<Rightarrow> disk \<Rightarrow> meta" where
  "stored_meta dec_meta d = (case Option.bind (d_meta d) dec_meta of None \<Rightarrow> meta_default | Some m \<Rightarrow> m)"

text \<open>The rows on file, then in the buffer, end with the rows of the window.\<close>

definition rows_ok :: "credit list \<Rightarrow> ledger \<Rightarrow> disk \<Rightarrow> bool" where
  "rows_ok rows l d \<longleftrightarrow> d_credits d @ l_credits_out l = concat (map credit_write rows) \<and>
     length rows = unat (l_rows_on_disk l) \<and> (\<exists>pre. rows = pre @ w_credits (l_window l)) \<and>
     (\<forall>c \<in> set rows. unat (cr_ident c) < length (w_idents (l_window l))) \<and>
     works rows \<le> unat (w_lifetime_work (l_window l))"

definition files_ok :: "(bytes \<Rightarrow> meta option) \<Rightarrow> ledger \<Rightarrow> disk \<Rightarrow> bool" where
  "files_ok dec_meta l d \<longleftrightarrow> window_inv (l_window l) \<and>
     trimmed (w_target_work (l_window l)) (w_credits (l_window l)) = w_credits (l_window l) \<and>
     d_idents d @ l_idents_out l = concat (map ident_line (w_idents (l_window l))) \<and>
     list_all storable (w_idents (l_window l)) \<and> (\<exists>rows. rows_ok rows l d) \<and>
     (\<not> l_dirty l \<longrightarrow> l_credits_out l = [] \<and> l_idents_out l = [] \<and> stored_meta dec_meta d = meta_of (l_window l))"

lemma trimmed_suffix: "\<exists>k. trimmed t xs = drop k xs"
  using trim_rows_suffix [of "unat t" xs] unfolding trimmed_def by (metis drop_0)

lemma set_target_spec:
  assumes "window_inv w"
  shows "window_inv (set_target w t) \<and> w_credits (set_target w t) = trimmed t (w_credits w) \<and>
    w_idents (set_target w t) = w_idents w \<and> w_target_work (set_target w t) = t \<and>
    w_lifetime_shares (set_target w t) = w_lifetime_shares w \<and> w_lifetime_work (set_target w t) = w_lifetime_work w"
proof -
  have "window_inv (w\<lparr>w_target_work := t\<rparr>)" using assms by (simp add: window_inv_def)
  from trim_spec [OF this] show ?thesis by (simp add: set_target_def)
qed

lemma known_ident: "window_inv w \<Longrightarrow> w_ident_index w s \<noteq> None \<longleftrightarrow> s \<in> set (w_idents w)"
proof -
  assume "window_inv w"
  then have ok: "idents_ok (w_idents w) (w_ident_index w)" by (simp add: window_inv_def)
  show ?thesis
  proof
    assume "w_ident_index w s \<noteq> None"
    then obtain i where "w_ident_index w s = Some i" by blast
    then have "unat i < length (w_idents w) \<and> w_idents w ! unat i = s" using ok by (simp add: idents_ok_def)
    then show "s \<in> set (w_idents w)" by (metis nth_mem)
  next
    assume "s \<in> set (w_idents w)"
    then obtain k where k: "k < length (w_idents w)" "w_idents w ! k = s" by (metis in_set_conv_nth)
    moreover have "unat (of_nat k :: u32) = k" using k(1) ok by (intro unat_of_nat_lt) (simp add: idents_ok_def)
    ultimately have "w_ident_index w s = Some (of_nat k)" using ok by (simp add: idents_ok_def)
    then show "w_ident_index w s \<noteq> None" by simp
  qed
qed

lemma ledger_credit_appends:
  assumes "files_ok dec_meta l d" and "storable s" and u: "unsaturated (l_window l')" and room: "length (w_idents (l_window l)) < 2 ^ 32"
    and r: "ledger_credit l d s work h ts src = Some (l', d')" and rows: "rows_ok rows l d"
  shows "files_ok dec_meta l' d' \<and> (\<exists>row. credit_row (l_window l) s work h ts src = Some (row, l_window l') \<and> rows_ok (rows @ [row]) l' d')"
proof -
  let ?w = "l_window l"
  from r obtain row w' where cr: "credit_row ?w s work h ts src = Some (row, w')"
    by (auto simp: ledger_credit_def Let_def split: prod.splits Option.bind_splits)
  obtain ifl io where ids: "(if w_ident_index ?w s \<noteq> None then (d_idents d, l_idents_out l)
      else let (f, p) = bw_write (d_idents d) (l_idents_out l) (str_bytes s) in bw_write f p [10]) = (ifl, io)" by fastforce
  obtain cs co where cs: "bw_write (d_credits d) (l_credits_out l) (credit_write row) = (cs, co)" by fastforce
  from r cr ids cs obtain n where n: "checked_add (l_rows_on_disk l) 1 = Some n"
    and l': "l' = l\<lparr>l_window := w', l_credits_out := co, l_idents_out := io, l_rows_on_disk := n, l_dirty := True\<rparr>"
    and d': "d' = d\<lparr>d_credits := cs, d_idents := ifl\<rparr>"
    by (auto simp: ledger_credit_def Let_def split: Option.bind_splits)
  have lt: "unat (w_lifetime_work ?w) + unat work < 2 ^ 64 - 1"
    "unat (w_lifetime_work w') = unat (w_lifetime_work ?w) + unat work"
    using u lifetime_after [of "w_lifetime_work ?w" work] lifetime_credit(2) [OF cr] by (simp_all add: unsaturated_def l')
  note ok = assms(1) [unfolded files_ok_def]
  note rw = rows [unfolded rows_ok_def]
  from rw obtain pre where pre: "rows = pre @ w_credits ?w" by blast
  have inv: "window_inv ?w" using ok by blast
  have "works (w_credits ?w) \<le> works rows" by (simp add: pre)
  then have tot: "unat (w_total_work ?w) + unat work < 2 ^ 64" using rw lt(1) total_after [OF inv] by simp
  note sp = credit_row_spec [OF inv room tot cr]
  obtain k where k: "w_credits w' = drop k (w_credits ?w @ [row])" using sp(2) trimmed_suffix by metis
  have i1: "ifl @ io = concat (map ident_line (w_idents w'))"
  proof (cases "s \<in> set (w_idents ?w)")
    case True
    then show ?thesis using ids known_ident [OF inv, of s] sp(9) ok by auto
  next
    case False
    obtain f p where fp: "bw_write (d_idents d) (l_idents_out l) (str_bytes s) = (f, p)" by fastforce
    then have "bw_write f p [10] = (ifl, io)" using ids False known_ident [OF inv, of s] by simp
    from bw_write_concat [OF this] bw_write_concat [OF fp] have "ifl @ io = (d_idents d @ l_idents_out l) @ ident_line s"
      by (metis append.assoc ident_line_def)
    then show ?thesis using ok sp(9) False by simp
  qed
  have r1: "rows_ok (rows @ [row]) l' d'"
    unfolding rows_ok_def
  proof (intro conjI)
    show "d_credits d' @ l_credits_out l' = concat (map credit_write (rows @ [row]))"
      using bw_write_concat [OF cs] rw by (simp add: l' d')
    show "length (rows @ [row]) = unat (l_rows_on_disk l')" using rw n by (simp add: l' checked_add_Some)
    show "\<exists>pre. rows @ [row] = pre @ w_credits (l_window l')"
      using append_take_drop_id [of k "w_credits ?w @ [row]"] by (simp add: l' k pre) (metis append.assoc)
    show "\<forall>c \<in> set (rows @ [row]). unat (cr_ident c) < length (w_idents (l_window l'))"
      using rw sp(3,9) by (auto simp: l' less_SucI)
    show "works (rows @ [row]) \<le> unat (w_lifetime_work (l_window l'))" using rw sp(5) lt(2) by (simp add: l')
  qed
  have "files_ok dec_meta l' d'"
    unfolding files_ok_def
    using sp(1,2,9,10) i1 r1 ok assms(2) by (auto simp: l' d')
  then show ?thesis using cr r1 l' by auto
qed

lemma ledger_credit_ok:
  assumes "files_ok dec_meta l d" and "storable s" and "unsaturated (l_window l')" and "length (w_idents (l_window l)) < 2 ^ 32"
    and "ledger_credit l d s work h ts src = Some (l', d')"
  shows "files_ok dec_meta l' d'"
proof -
  obtain rows where "rows_ok rows l d" using assms(1) by (auto simp: files_ok_def)
  from ledger_credit_appends [OF assms this] show ?thesis by blast
qed

lemma compact_rows_ok:
  assumes "rows_ok rows l d" and "ledger_compact l d = (l', d')"
  shows "rows_ok (w_credits (l_window l)) l' d' \<and> l_window l' = l_window l \<and> l_idents_out l' = l_idents_out l \<and>
    l_dirty l' = l_dirty l \<and> d_idents d' = d_idents d \<and> d_meta d' = d_meta d \<and> l_credits_out l' = []"
proof -
  from assms(1) obtain pre where pre: "rows = pre @ w_credits (l_window l)" and
    r: "length rows = unat (l_rows_on_disk l)" "\<forall>c \<in> set rows. unat (cr_ident c) < length (w_idents (l_window l))"
      "works rows \<le> unat (w_lifetime_work (l_window l))" by (auto simp: rows_ok_def)
  have "length (w_credits (l_window l)) < 2 ^ 64" using r(1) unat_lt [of "l_rows_on_disk l"] by (simp add: pre)
  then have "unat (of_nat (length (w_credits (l_window l))) :: u64) = length (w_credits (l_window l))"
    by (intro unat_of_nat_lt) simp
  then show ?thesis using assms(2) r by (auto simp: ledger_compact_def rows_ok_def pre)
qed

lemma compact_files_ok:
  assumes "files_ok dec_meta l d" and "ledger_compact l d = (l', d')"
  shows "files_ok dec_meta l' d'"
proof -
  note ok = assms(1) [unfolded files_ok_def]
  then obtain rows where "rows_ok rows l d" by blast
  note c = compact_rows_ok [OF this assms(2)]
  show ?thesis unfolding files_ok_def using ok c by (auto simp: stored_meta_def)
qed

lemma compact_if_grown_ok:
  assumes "files_ok dec_meta l d" and "compact_if_grown l d = Some (l', d')"
  shows "files_ok dec_meta l' d' \<and> l_window l' = l_window l \<and> l_dirty l' = l_dirty l"
proof -
  obtain l1 d1 where c: "ledger_compact l d = (l1, d1)" by fastforce
  have "\<exists>rows. rows_ok rows l d" using assms(1) by (simp add: files_ok_def)
  then show ?thesis
    using assms compact_files_ok [OF assms(1) c] compact_rows_ok [OF _ c] c
    by (auto simp: compact_if_grown_def split: Option.bind_splits if_splits)
qed

lemma flush_files_ok:
  assumes codec: "\<And>m. dec_meta (enc_meta m) = Some m" and ok: "files_ok dec_meta l d"
    and r: "ledger_flush enc_meta l d = Some (l', d')"
  shows "files_ok dec_meta l' d' \<and> l_window l' = l_window l \<and> \<not> l_dirty l'"
proof (cases "l_dirty l")
  case False
  then show ?thesis using ok r by (simp add: ledger_flush_def)
next
  case True
  define l1 d1 where "l1 = l\<lparr>l_idents_out := [], l_credits_out := [], l_dirty := False\<rparr>"
    and "d1 = d\<lparr>d_idents := d_idents d @ l_idents_out l, d_credits := d_credits d @ l_credits_out l,
      d_meta := Some (enc_meta (meta_of (l_window l)))\<rparr>"
  have c: "compact_if_grown l1 d1 = Some (l', d')"
    using r True by (simp add: ledger_flush_def Let_def l1_def d1_def meta_of_def)
  have "files_ok dec_meta l1 d1"
    using ok unfolding files_ok_def rows_ok_def by (auto simp: l1_def d1_def stored_meta_def codec)
  from compact_if_grown_ok [OF this c] show ?thesis by (simp add: l1_def)
qed

lemma persist_files_ok:
  assumes codec: "\<And>m. dec_meta (enc_meta m) = Some m" and ok: "files_ok dec_meta l d"
    and r: "persist_window enc_meta l d = Some (l', d')"
  shows "files_ok dec_meta l' d' \<and> l_window l' = l_window l \<and> \<not> l_dirty l' \<and>
    rows_ok (w_credits (l_window l)) l' d'"
proof -
  from r obtain l1 d1 where f: "ledger_flush enc_meta l d = Some (l1, d1)" and
    e: "(l', d') = (if l_rows_on_disk l1 \<noteq> of_nat (length (w_credits (l_window l1))) then ledger_compact l1 d1 else (l1, d1))"
    by (auto simp: persist_window_def ledger_sync_def split: Option.bind_splits)
  note f1 = flush_files_ok [OF codec ok f]
  then obtain rows where rows: "rows_ok rows l1 d1" by (auto simp: files_ok_def)
  then obtain pre where pre: "rows = pre @ w_credits (l_window l1)" and len: "length rows = unat (l_rows_on_disk l1)"
    by (auto simp: rows_ok_def)
  show ?thesis
  proof (cases "l_rows_on_disk l1 = of_nat (length (w_credits (l_window l1)))")
    case True
    have "length (w_credits (l_window l1)) < 2 ^ 64" using len unat_lt [of "l_rows_on_disk l1"] by (simp add: pre)
    then have "unat (l_rows_on_disk l1) = length (w_credits (l_window l1))"
      unfolding True by (intro unat_of_nat_lt) simp
    then have "pre = []" using len by (simp add: pre)
    then show ?thesis using f1 rows e True by (simp add: pre)
  next
    case False
    then have "ledger_compact l1 d1 = (l', d')" using e by simp
    then show ?thesis using f1 compact_rows_ok [OF rows] compact_files_ok by metis
  qed
qed

section \<open>Opening\<close>

lemma open_ok:
  assumes m: "stored_meta dec_meta d = m"
    and ids: "d_idents d = concat (map ident_line ids)" "list_all storable ids" "distinct ids" "length ids \<le> 2 ^ 32"
    and rows: "d_credits d = concat (map credit_write rows)" "\<forall>c \<in> set rows. unat (cr_ident c) < length ids"
      "works rows \<le> unat (me_lifetime_work m)" "unat (me_lifetime_work m) < 2 ^ 64 - 1" "length rows + 8192 < 2 ^ 64"
  shows "\<exists>l' d'. ledger_open dec_meta d = Inr (l', d') \<and> files_ok dec_meta l' d' \<and>
    w_idents (l_window l') = ids \<and> w_credits (l_window l') = trimmed (me_target_work m) rows \<and> meta_of (l_window l') = m"
proof -
  let ?w0 = "window_new\<lparr>w_lifetime_shares := me_lifetime_shares m, w_lifetime_work := me_lifetime_work m\<rparr>"
  have inv0: "window_inv ?w0" using window_inv_new by (simp add: window_inv_def)
  have new: "w_idents ?w0 = []" "w_credits ?w0 = []" "w_total_work ?w0 = 0" "w_target_work ?w0 = 0"
    by (simp_all add: window_new_def)
  obtain w1 where w1: "intern_lines (map str_bytes ids) ?w0 = Inr w1" "window_inv w1" "w_idents w1 = ids"
      "w_credits w1 = []" "w_total_work w1 = 0" "w_lifetime_shares w1 = me_lifetime_shares m"
      "w_lifetime_work w1 = me_lifetime_work m"
    using intern_lines_ok [OF inv0, of ids] ids new by auto
  have "works rows < 2 ^ 64" using rows(3,4) by simp
  then obtain w2 n where w2: "replay_rows (concat (map credit_write rows)) (w1, 0) = Some (w2, n)" "window_inv w2"
      "w_credits w2 = rows" "w_idents w2 = ids" "w_lifetime_shares w2 = me_lifetime_shares m"
      "w_lifetime_work w2 = me_lifetime_work m" "unat n = length rows"
    using replay_rows_ok [OF w1(2), of rows 0] w1 rows(2,5) by auto
  define w3 where "w3 = set_target w2 (me_target_work m)"
  have w3: "window_inv w3" "w_credits w3 = trimmed (me_target_work m) rows" "w_idents w3 = ids"
      "w_target_work w3 = me_target_work m" "w_lifetime_shares w3 = me_lifetime_shares m" "w_lifetime_work w3 = me_lifetime_work m"
    using set_target_spec [OF w2(2), of "me_target_work m"] w2 by (simp_all add: w3_def)
  define l0 where "l0 = \<lparr>l_window = w3, l_credits_out = [], l_idents_out = [], l_rows_on_disk = n, l_dirty = False\<rparr>"
  have mw: "meta_of w3 = m" by (simp add: meta_of_def w3)
  obtain k where k: "trimmed (me_target_work m) rows = drop k rows" using trimmed_suffix by blast
  have "rows_ok rows l0 d"
    unfolding rows_ok_def using rows w2(7) w3 append_take_drop_id [of k rows]
    by (auto simp: l0_def k intro: exI [of _ "take k rows"])
  then have ok0: "files_ok dec_meta l0 d"
    unfolding files_ok_def using w3 ids m mw by (auto simp: l0_def)
  have "length (w_credits w3) + 8192 < 2 ^ 64" using rows(5) by (simp add: w3 k)
  then have "\<exists>x. compact_if_grown l0 d = Some x"
    using checked_ex(1) [of "of_nat (length (w_credits w3)) :: u64" 8192] unat_of_nat_lt [of "length (w_credits w3)", where 'a = 64]
    by (auto simp: compact_if_grown_def l0_def)
  then obtain l' d' where c: "compact_if_grown l0 d = Some (l', d')" by auto
  note co = compact_if_grown_ok [OF ok0 c]
  have "ledger_open dec_meta d = Inr (l', d')"
    using m c by (simp add: ledger_open_def stored_meta_def Let_def ids(1) lines_of_idents [OF ids(2)] w1(1) rows(1)
        w2(1) no_panic_def l0_def w3_def)
  then show ?thesis using co w3 mw by (auto simp: l0_def)
qed


section \<open>Histories of a ledger\<close>

definition empty_disk :: disk where
  "empty_disk = \<lparr>d_credits = [], d_idents = [], d_meta = None\<rparr>"

text \<open>
  What happens to a ledger, up to and including clean restarts, while the lifetime counter has not
  saturated and identities fit a line of the identity file and the 32-bit table.
\<close>

inductive ledger_step :: "(bytes \<Rightarrow> meta option) \<Rightarrow> (meta \<Rightarrow> bytes) \<Rightarrow> ledger \<times> disk \<Rightarrow> ledger \<times> disk \<Rightarrow> bool"
  for dec_meta enc_meta where
  credit: "ledger_credit l d s work h ts src = Some (l', d') \<Longrightarrow> storable s \<Longrightarrow>
    length (w_idents (l_window l)) < 2 ^ 32 \<Longrightarrow> unsaturated (l_window l') \<Longrightarrow> ledger_step dec_meta enc_meta (l, d) (l', d')"
| target: "ledger_step dec_meta enc_meta (l, d) (ledger_set_target l t, d)"
| flush: "ledger_flush enc_meta l d = Some (l', d') \<Longrightarrow> ledger_step dec_meta enc_meta (l, d) (l', d')"
| persist: "persist_window enc_meta l d = Some (l', d') \<Longrightarrow> ledger_step dec_meta enc_meta (l, d) (l', d')"
| compact: "ledger_compact l d = (l', d') \<Longrightarrow> ledger_step dec_meta enc_meta (l, d) (l', d')"
| restart: "ledger_open dec_meta d = Inr (l', d') \<Longrightarrow> \<not> l_dirty l \<Longrightarrow> unat (l_rows_on_disk l) + 8192 < 2 ^ 64 \<Longrightarrow>
    ledger_step dec_meta enc_meta (l, d) (l', d')"

lemma reopen:
  assumes ok: "files_ok dec_meta l d" and u: "unsaturated (l_window l)" and clean: "\<not> l_dirty l"
    and rows: "rows_ok rows l d" and few: "unat (l_rows_on_disk l) + 8192 < 2 ^ 64"
  shows "\<exists>l' d'. ledger_open dec_meta d = Inr (l', d') \<and> files_ok dec_meta l' d' \<and>
    w_idents (l_window l') = w_idents (l_window l) \<and>
    w_credits (l_window l') = trimmed (w_target_work (l_window l)) rows \<and> meta_of (l_window l') = meta_of (l_window l)"
proof -
  note f = ok [unfolded files_ok_def] and r = rows [unfolded rows_ok_def]
  have "idents_ok (w_idents (l_window l)) (w_ident_index (l_window l))" using f by (simp add: window_inv_def)
  then have ids: "distinct (w_idents (l_window l))" "length (w_idents (l_window l)) \<le> 2 ^ 32" by (simp_all add: idents_ok_def)
  have "\<exists>l' d'. ledger_open dec_meta d = Inr (l', d') \<and> files_ok dec_meta l' d' \<and>
    w_idents (l_window l') = w_idents (l_window l) \<and>
    w_credits (l_window l') = trimmed (me_target_work (meta_of (l_window l))) rows \<and> meta_of (l_window l') = meta_of (l_window l)"
    by (rule open_ok) (use f r clean ids u few in \<open>auto simp: meta_of_def unsaturated_def\<close>)
  then show ?thesis by (simp add: meta_of_def)
qed

lemma meta_unsaturated: "meta_of w = meta_of w' \<Longrightarrow> unsaturated w = unsaturated w'"
  by (simp add: meta_of_def unsaturated_def)

lemma target_files_ok:
  assumes "files_ok dec_meta l d" and "unsaturated (l_window l)"
  shows "files_ok dec_meta (ledger_set_target l t) d \<and> unsaturated (l_window (ledger_set_target l t))"
proof (cases "w_target_work (l_window l) = t")
  case True
  then show ?thesis using assms by (simp add: ledger_set_target_def)
next
  case False
  let ?w = "l_window l"
  note ok = assms(1) [unfolded files_ok_def]
  then obtain rows where rows: "rows_ok rows l d" by blast
  note r = rows [unfolded rows_ok_def]
  then obtain pre where pre: "rows = pre @ w_credits ?w" by blast
  have inv: "window_inv ?w" using ok by blast
  note sp = set_target_spec [OF inv, of t]
  obtain k where k: "trimmed t (w_credits ?w) = drop k (w_credits ?w)" using trimmed_suffix by blast
  have l': "ledger_set_target l t = l\<lparr>l_window := set_target ?w t, l_dirty := True\<rparr>"
    using False by (simp add: ledger_set_target_def)
  have suffix: "rows = (pre @ take k (w_credits ?w)) @ drop k (w_credits ?w)" by (simp add: pre)
  have "\<exists>pre. rows = pre @ drop k (w_credits ?w)" using suffix by blast
  then have "rows_ok rows (ledger_set_target l t) d" using r sp unfolding rows_ok_def l' k by simp
  moreover have "trimmed t (trimmed t (w_credits ?w)) = trimmed t (w_credits ?w)" by (rule trimmed_idem)
  ultimately have "files_ok dec_meta (ledger_set_target l t) d"
    using ok sp unfolding files_ok_def l' by auto
  moreover have "unsaturated (l_window (ledger_set_target l t))" using assms(2) sp by (simp add: l' unsaturated_def)
  ultimately show ?thesis by blast
qed

lemma ledger_step_inv:
  assumes codec: "\<And>m. dec_meta (enc_meta m) = Some m"
    and step: "ledger_step dec_meta enc_meta x y" and "files_ok dec_meta (fst x) (snd x)" and "unsaturated (l_window (fst x))"
  shows "files_ok dec_meta (fst y) (snd y) \<and> unsaturated (l_window (fst y))"
  using step assms(3,4)
proof (induction rule: ledger_step.induct)
  case (credit l d s work h ts src l' d')
  have "files_ok dec_meta l d" using credit.prems by simp
  from ledger_credit_ok [OF this credit.hyps(2,4,3,1)] credit.hyps(4) show ?case by simp
next
  case (target l d t)
  then have "files_ok dec_meta l d" "unsaturated (l_window l)" by simp_all
  from target_files_ok [OF this, of t] show ?case by simp
next
  case (flush l d l' d')
  then have "files_ok dec_meta l d" "unsaturated (l_window l)" by simp_all
  with flush_files_ok [OF codec this(1) flush.hyps] show ?case by simp
next
  case (persist l d l' d')
  then have "files_ok dec_meta l d" "unsaturated (l_window l)" by simp_all
  with persist_files_ok [OF codec this(1) persist.hyps] show ?case by simp
next
  case (compact l d l' d')
  then have ok: "files_ok dec_meta l d" and u: "unsaturated (l_window l)" by simp_all
  then obtain rows where "rows_ok rows l d" by (auto simp: files_ok_def)
  from compact_rows_ok [OF this compact.hyps] compact_files_ok [OF ok compact.hyps] u show ?case by simp
next
  case (restart d l' d' l)
  then have ok: "files_ok dec_meta l d" and u: "unsaturated (l_window l)" by simp_all
  then obtain rows where rows: "rows_ok rows l d" by (auto simp: files_ok_def)
  obtain l1 d1 where r: "ledger_open dec_meta d = Inr (l1, d1)" "files_ok dec_meta l1 d1"
      "meta_of (l_window l1) = meta_of (l_window l)"
    using reopen [OF ok u restart.hyps(2) rows restart.hyps(3)] by blast
  have "l1 = l'" "d1 = d'" using r(1) restart.hyps(1) by simp_all
  then show ?case using r(2) u meta_unsaturated [OF r(3)] by simp
qed

lemma ledger_reachable_inv:
  assumes codec: "\<And>m. dec_meta (enc_meta m) = Some m"
    and start: "ledger_open dec_meta empty_disk = Inr (l0, d0)"
    and steps: "(ledger_step dec_meta enc_meta)\<^sup>*\<^sup>* (l0, d0) (l, d)"
  shows "files_ok dec_meta l d \<and> unsaturated (l_window l)"
proof -
  have "\<exists>l' d'. ledger_open dec_meta empty_disk = Inr (l', d') \<and> files_ok dec_meta l' d' \<and>
    w_idents (l_window l') = [] \<and> w_credits (l_window l') = trimmed (me_target_work meta_default) [] \<and>
    meta_of (l_window l') = meta_default"
    by (rule open_ok) (simp_all add: empty_disk_def stored_meta_def meta_default_def)
  then have 0: "files_ok dec_meta l0 d0 \<and> unsaturated (l_window l0)"
    using start by (auto simp: meta_of_def meta_default_def unsaturated_def)
  have "files_ok dec_meta (fst (l, d)) (snd (l, d)) \<and> unsaturated (l_window (fst (l, d)))"
    using steps
  proof (induction rule: rtranclp_induct)
    case base
    show ?case using 0 by simp
  next
    case (step y z)
    show ?case by (rule ledger_step_inv [OF codec step.hyps(2)]) (use step.IH in auto)
  qed
  then show ?thesis by simp
qed

lemma persist_reopens:
  assumes codec: "\<And>m. dec_meta (enc_meta m) = Some m"
    and start: "ledger_open dec_meta empty_disk = Inr (l0, d0)"
    and steps: "(ledger_step dec_meta enc_meta)\<^sup>*\<^sup>* (l0, d0) (l, d)"
    and few: "unat (l_rows_on_disk l) + 8192 < 2 ^ 64"
  shows "\<exists>l1 d1 l2 d2. persist_window enc_meta l d = Some (l1, d1) \<and> ledger_open dec_meta d1 = Inr (l2, d2) \<and>
    window_inv (l_window l) \<and> window_inv (l_window l2) \<and>
    l_window l1 = l_window l \<and> w_idents (l_window l2) = w_idents (l_window l) \<and>
    w_credits (l_window l2) = w_credits (l_window l) \<and> w_total_work (l_window l2) = w_total_work (l_window l) \<and>
    w_target_work (l_window l2) = w_target_work (l_window l) \<and>
    w_lifetime_shares (l_window l2) = w_lifetime_shares (l_window l) \<and>
    w_lifetime_work (l_window l2) = w_lifetime_work (l_window l) \<and>
    (\<forall>s. work_of (l_window l2) s = work_of (l_window l) s)"
proof -
  note inv = ledger_reachable_inv [OF codec start steps]
  then have ok: "files_ok dec_meta l d" and u: "unsaturated (l_window l)" by blast+
  obtain rows where rows: "rows_ok rows l d" using ok by (auto simp: files_ok_def)
  then have len: "length (w_credits (l_window l)) \<le> unat (l_rows_on_disk l)" by (auto simp: rows_ok_def)
  have "\<exists>x. compact_if_grown l' d' = Some x" if "l_window l' = l_window l" for l' d'
    using checked_ex(1) [of "of_nat (length (w_credits (l_window l))) :: u64" 8192] len few that
      unat_of_nat_lt [of "length (w_credits (l_window l))", where 'a = 64]
    by (auto simp: compact_if_grown_def)
  then have "\<exists>x. ledger_flush enc_meta l d = Some x" by (simp add: ledger_flush_def Let_def)
  then obtain l1 d1 where p: "persist_window enc_meta l d = Some (l1, d1)"
    by (fastforce simp: persist_window_def ledger_sync_def)
  note po = persist_files_ok [OF codec ok p]
  have "unat (l_rows_on_disk l1) = length (w_credits (l_window l))" using po by (auto simp: rows_ok_def)
  then have few1: "unat (l_rows_on_disk l1) + 8192 < 2 ^ 64" using len few by linarith
  have u1: "unsaturated (l_window l1)" using u po by simp
  obtain l2 d2 where o: "ledger_open dec_meta d1 = Inr (l2, d2)" and o2: "files_ok dec_meta l2 d2"
      "w_idents (l_window l2) = w_idents (l_window l1)"
      "w_credits (l_window l2) = trimmed (w_target_work (l_window l1)) (w_credits (l_window l))"
      "meta_of (l_window l2) = meta_of (l_window l1)"
    using reopen [of dec_meta l1 d1, OF _ u1 _ _ few1] po by blast
  have w: "l_window l1 = l_window l" using po by blast
  have cs: "w_credits (l_window l2) = w_credits (l_window l)" using o2(3) w ok by (simp add: files_ok_def)
  have i1: "window_inv (l_window l)" and i2: "window_inv (l_window l2)" using ok o2(1) by (simp_all add: files_ok_def)
  have total: "w_total_work (l_window l2) = w_total_work (l_window l)"
    using total_after [OF i1] total_after [OF i2] cs by (simp add: word_unat_eq_iff)
  have "work_of (l_window l2) s = work_of (l_window l) s" for s
  proof (cases "index_of (l_window l) s")
    case None
    then have "s \<notin> set (w_idents (l_window l))" using known_ident [OF i1, of s] by (simp add: index_of_def)
    then have "index_of (l_window l2) s = None" using known_ident [OF i2, of s] o2(2) w by (simp add: index_of_def)
    then show ?thesis using None by (simp add: work_of_def index_of_def)
  next
    case (Some i)
    have "index_of (l_window l2) s = Some i"
      using Some i1 i2 o2(2) w by (simp add: index_of_def window_inv_def idents_ok_def)
    then show ?thesis using inv_work_of(2) [OF i1 Some] inv_work_of(2) [OF i2] cs by (simp add: word_unat_eq_iff)
  qed
  then show ?thesis using p o w o2(2,4) cs total i1 i2 unfolding meta_of_def
    by (intro exI [of _ l1] exI [of _ d1] exI [of _ l2] exI [of _ d2] conjI) auto
qed

text \<open>
  C7: Persisting and reopening gives back the live window.  After any history of credits, target
  changes, flushes, compactions and clean restarts from an empty directory, \<open>persist_window\<close> returns,
  and opening the directory then yields a ledger with the same identities in the same order, the
  same rows, total, target and lifetime counters, the same work for every identity, and one row on
  file for each row of the window, provided the JSON codec reads back what it wrote.
\<close>

theorem persist_then_open:
  assumes codec: "\<And>m. dec_meta (enc_meta m) = Some m"
    and start: "ledger_open dec_meta empty_disk = Inr (l0, d0)"
    and steps: "(ledger_step dec_meta enc_meta)\<^sup>*\<^sup>* (l0, d0) (l, d)"
    and few: "unat (l_rows_on_disk l) + 8192 < 2 ^ 64"
  shows "\<exists>l1 d1 l2 d2. persist_window enc_meta l d = Some (l1, d1) \<and> ledger_open dec_meta d1 = Inr (l2, d2) \<and>
    l_window l1 = l_window l \<and> w_idents (l_window l2) = w_idents (l_window l) \<and>
    w_credits (l_window l2) = w_credits (l_window l) \<and> w_total_work (l_window l2) = w_total_work (l_window l) \<and>
    w_target_work (l_window l2) = w_target_work (l_window l) \<and>
    w_lifetime_shares (l_window l2) = w_lifetime_shares (l_window l) \<and>
    w_lifetime_work (l_window l2) = w_lifetime_work (l_window l) \<and>
    (\<forall>s. work_of (l_window l2) s = work_of (l_window l) s)"
  using persist_reopens [OF assms] by blast

section \<open>Examples\<close>

text \<open>A codec of the meta file for the examples: three little-endian words.\<close>

definition demo_enc_meta :: "meta \<Rightarrow> bytes" where
  "demo_enc_meta m = le64 (me_target_work m) @ le64 (me_lifetime_shares m) @ le64 (me_lifetime_work m)"

definition demo_dec_meta :: "bytes \<Rightarrow> meta option" where
  "demo_dec_meta b = Some \<lparr>me_target_work = of_le (take 8 b), me_lifetime_shares = of_le (take 8 (drop 8 b)),
     me_lifetime_work = of_le (take 8 (drop 16 b))\<rparr>"

lemma demo_codec: "demo_dec_meta (demo_enc_meta m) = Some m"
  by (simp add: demo_dec_meta_def demo_enc_meta_def)

text \<open>One share of the work 8, credited to a ledger opened in an empty directory.\<close>

lemma demo_ledger_history:
  "\<exists>l0 d0 l d. ledger_open demo_dec_meta empty_disk = Inr (l0, d0) \<and> ledger_credit l0 d0 ''a'' 8 1 1 1 = Some (l, d) \<and>
     (ledger_step demo_dec_meta demo_enc_meta)\<^sup>*\<^sup>* (l0, d0) (l, d) \<and>
     l_rows_on_disk l = 1 \<and> length (w_credits (l_window l)) = 1 \<and> w_total_work (l_window l) = 8"
proof -
  have 1: "(case ledger_open demo_dec_meta empty_disk of Inl _ \<Rightarrow> False | Inr (l0, d0) \<Rightarrow>
     w_idents (l_window l0) = [] \<and>
     (case ledger_credit l0 d0 ''a'' 8 1 1 1 of None \<Rightarrow> False | Some (l, d) \<Rightarrow>
       unat (w_lifetime_work (l_window l)) = 8 \<and> l_rows_on_disk l = 1 \<and>
       length (w_credits (l_window l)) = 1 \<and> w_total_work (l_window l) = 8))"
    by code_simp
  then obtain l0 d0 l d where o: "ledger_open demo_dec_meta empty_disk = Inr (l0, d0)" and
    c: "ledger_credit l0 d0 ''a'' 8 1 1 1 = Some (l, d)" and i: "w_idents (l_window l0) = []" and
    w: "unat (w_lifetime_work (l_window l)) = 8" and
    r: "l_rows_on_disk l = 1" "length (w_credits (l_window l)) = 1" "w_total_work (l_window l) = 8"
    by (auto split: sum.splits option.splits)
  have "storable ''a''" by code_simp
  then have "ledger_step demo_dec_meta demo_enc_meta (l0, d0) (l, d)"
    using c i w by (intro ledger_step.credit) (simp_all add: unsaturated_def)
  then have "(ledger_step demo_dec_meta demo_enc_meta)\<^sup>*\<^sup>* (l0, d0) (l, d)" by (rule r_into_rtranclp)
  then show ?thesis using o c r by blast
qed

lemma persist_then_open_witness:
  "\<exists>l0 d0 l d l1 d1 l2 d2. ledger_open demo_dec_meta empty_disk = Inr (l0, d0) \<and>
     ledger_credit l0 d0 ''a'' 8 1 1 1 = Some (l, d) \<and> persist_window demo_enc_meta l d = Some (l1, d1) \<and>
     ledger_open demo_dec_meta d1 = Inr (l2, d2) \<and> w_credits (l_window l2) = w_credits (l_window l)"
proof -
  obtain l0 d0 l d where o: "ledger_open demo_dec_meta empty_disk = Inr (l0, d0)" and
    c: "ledger_credit l0 d0 ''a'' 8 1 1 1 = Some (l, d)" and
    s: "(ledger_step demo_dec_meta demo_enc_meta)\<^sup>*\<^sup>* (l0, d0) (l, d)" and r: "l_rows_on_disk l = 1"
    using demo_ledger_history by blast
  have "unat (l_rows_on_disk l) + 8192 < 2 ^ 64" using r by simp
  from persist_then_open [where dec_meta = demo_dec_meta and enc_meta = demo_enc_meta, OF demo_codec o s this]
  show ?thesis using o c by blast
qed

definition demo_row :: credit where
  "demo_row = \<lparr>cr_ts = 1, cr_ident = 0, cr_work = 8, cr_height = 1, cr_source = 1\<rparr>"

definition demo_disk :: "bytes \<Rightarrow> disk" where
  "demo_disk b = \<lparr>d_credits = b, d_idents = ident_line ''a'',
     d_meta = Some (demo_enc_meta \<lparr>me_target_work = 100, me_lifetime_shares = 1, me_lifetime_work = 8\<rparr>)\<rparr>"

text \<open>Open, credit one share, persist the window, and compare what the next open reads.\<close>

definition credit_and_reopen :: "disk \<Rightarrow> string \<Rightarrow> fault + (credit list \<times> credit list)" where
  "credit_and_reopen d identity =
     rbind (ledger_open demo_dec_meta d) (\<lambda>(l, d).
     rbind (no_panic (ledger_credit l d identity 16 2 2 1)) (\<lambda>(l, d).
     rbind (no_panic (persist_window demo_enc_meta l d)) (\<lambda>(l, d).
     rbind (ledger_open demo_dec_meta d) (\<lambda>(l', d'). Inr (w_credits (l_window l), w_credits (l_window l'))))))"


text \<open>
  A row whose identity never reached the disk is credited to a stranger.  Opening skips the row
  but leaves it in the file; the next new identity takes the row's index, and the open after that
  counts the row's work for it.
\<close>

theorem dangling_row_adopted:
  "credit_and_reopen (demo_disk (credit_write demo_row @ credit_write (demo_row\<lparr>cr_ident := 1\<rparr>))) ''b'' =
     Inr ([demo_row, \<lparr>cr_ts = 2, cr_ident = 1, cr_work = 16, cr_height = 2, cr_source = 1\<rparr>],
          [demo_row, demo_row\<lparr>cr_ident := 1\<rparr>, \<lparr>cr_ts = 2, cr_ident = 1, cr_work = 16, cr_height = 2, cr_source = 1\<rparr>])"
  by code_simp

end
