(* ===== verification/Records.thy ===== *)
theory Records
  imports Ledger Ordered_Map Text
begin

text \<open>
  What the pool remembers beside the window (\<open>tides/src/lib.rs\<close>: \<open>BlockRecord\<close>, \<open>Carry\<close>, \<open>BlockLog\<close>).
  The carry ledger is a \<open>BTreeMap\<close> of what each identity is owed; the block log is a file of JSON
  lines, whose codec is a parameter.  Shown: a run of payments and debts moves exactly the amounts
  it names, and the log reads back as the latest record of every block in first-seen order.
\<close>

section \<open>Block records\<close>

record block_record =
  br_ts :: u64
  br_height :: u32
  br_hash :: string
  br_finder :: "string option"
  br_coinbase_value :: u64
  br_kind :: string
  br_owed_sats :: u64
  br_split :: "(string \<times> u64) list"
  br_pool_sats :: u64
  br_settled :: bool
  br_submit :: string
  br_gateway :: string
  br_unpaid :: "(string \<times> u64) list"
  br_carry_paid :: "(string \<times> u64) list"
  br_snapshot :: string
  br_carried :: bool

section \<open>The carry ledger\<close>

type_synonym carry = "(string, u64) btree"

definition carry_total :: "carry \<Rightarrow> u64" where
  "carry_total c = foldl sat_add 0 (map snd c)"

definition carry_add :: "string \<Rightarrow> u64 \<Rightarrow> carry \<Rightarrow> carry" where
  "carry_add identity sats c =
     (if sats = 0 then c
      else bt_put identity (sat_add (case map_of c identity of Some e \<Rightarrow> e | None \<Rightarrow> 0) sats) c)"

definition carry_settle :: "string \<Rightarrow> u64 \<Rightarrow> carry \<Rightarrow> carry" where
  "carry_settle identity sats c =
     (case map_of c identity of
        None \<Rightarrow> c
      | Some e \<Rightarrow>
          let e = sat_sub e sats in
          if e = 0 then bt_del identity c else bt_put identity e c)"

text \<open>\<open>unwrap_or_default\<close>: a missing or unreadable file is an empty ledger.\<close>

definition carry_open :: "(bytes \<Rightarrow> carry option) \<Rightarrow> bytes option \<Rightarrow> carry" where
  "carry_open dec_carry file = (case Option.bind file dec_carry of Some c \<Rightarrow> c | None \<Rightarrow> [])"

definition carry_save :: "(carry \<Rightarrow> bytes) \<Rightarrow> carry \<Rightarrow> bytes option" where
  "carry_save enc_carry c = Some (enc_carry c)"

section \<open>The block log\<close>

definition log_append :: "(block_record \<Rightarrow> bytes) \<Rightarrow> block_record \<Rightarrow> bytes option \<Rightarrow> bytes option" where
  "log_append enc_record r file = Some ((case file of Some b \<Rightarrow> b | None \<Rightarrow> []) @ enc_record r @ [10])"

fun read_records ::
    "(bytes \<Rightarrow> block_record option) \<Rightarrow> bytes list \<Rightarrow> block_record list \<times> (string \<rightharpoonup> nat) \<Rightarrow> fault + block_record list" where
  "read_records dec_record [] (out, index) = Inr out"
| "read_records dec_record (l # ls) (out, index) =
     (if \<not> is_utf8 l then Inl Invalid_data
      else if trim (bytes_str l) = '''' then read_records dec_record ls (out, index)
      else (case dec_record l of
        None \<Rightarrow> read_records dec_record ls (out, index)
      | Some r \<Rightarrow>
          (case index (br_hash r) of
             Some i \<Rightarrow> read_records dec_record ls (out[i := r], index)
           | None \<Rightarrow> read_records dec_record ls (out @ [r], index(br_hash r \<mapsto> length out)))))"

definition read_all :: "(bytes \<Rightarrow> block_record option) \<Rightarrow> bytes option \<Rightarrow> fault + block_record list" where
  "read_all dec_record file =
     (case file of None \<Rightarrow> Inr [] | Some b \<Rightarrow> read_records dec_record (lines_of b) ([], Map.empty))"

section \<open>What is owed\<close>

definition owed :: "carry \<Rightarrow> string \<Rightarrow> nat" where
  "owed c i = (case map_of c i of Some e \<Rightarrow> unat e | None \<Rightarrow> 0)"

definition carry_ok :: "carry \<Rightarrow> bool" where
  "carry_ok c \<longleftrightarrow> bt_ok c \<and> (\<forall>e \<in> set c. snd e \<noteq> 0)"

lemma carry_ok_alt: "carry_ok c \<longleftrightarrow> bt_ok c \<and> (\<forall>i. map_of c i \<noteq> Some 0)"
proof -
  have "(\<forall>e \<in> set c. snd e \<noteq> 0) \<longleftrightarrow> (\<forall>i. map_of c i \<noteq> Some 0)" if "bt_ok c"
    using bt_ok_distinct [OF that] by (force dest: map_of_SomeD)
  then show ?thesis by (auto simp: carry_ok_def)
qed

lemma sat_add_pos: "sats \<noteq> 0 \<Longrightarrow> sat_add a sats \<noteq> 0" for sats :: u64
  using unat_sat_add [of a sats] by (auto simp: word_unat_eq_iff)

lemma carry_add_ok: "carry_ok c \<Longrightarrow> carry_ok (carry_add i s c)"
  unfolding carry_ok_alt by (simp add: carry_add_def bt.ok_put bt.get_put sat_add_pos)

lemma carry_settle_ok: "carry_ok c \<Longrightarrow> carry_ok (carry_settle i s c)"
  unfolding carry_ok_alt
  by (auto simp: carry_settle_def Let_def bt.ok_put bt.ok_del bt.get_put bt.get_del split: option.splits)

lemma owed_add: "carry_ok c \<Longrightarrow> owed (carry_add i s c) k = (if k = i then min (owed c i + unat s) (2 ^ 64 - 1) else owed c k)"
  using unat_lt [of s] unat_lt [of "the (map_of c i)"]
  by (auto simp: carry_ok_def owed_def carry_add_def bt.get_put unat_sat_add split: option.splits)

lemma owed_settle: "carry_ok c \<Longrightarrow> owed (carry_settle i s c) k = (if k = i then owed c i - unat s else owed c k)"
  by (auto simp: carry_ok_def owed_def carry_settle_def Let_def bt.get_put bt.get_del unat_sat_sub
      word_unat_eq_iff split: option.splits)

section \<open>Settling a block\<close>

text \<open>All the payments, then all the debts: an identity is left with what it was owed, less what was paid, plus the rest.\<close>

definition settle_all :: "(string \<times> u64) list \<Rightarrow> carry \<Rightarrow> carry" where
  "settle_all xs = fold (\<lambda>(i, s). carry_settle i s) xs"

definition add_all :: "(string \<times> u64) list \<Rightarrow> carry \<Rightarrow> carry" where
  "add_all xs = fold (\<lambda>(i, s). carry_add i s) xs"

definition sum_for :: "string \<Rightarrow> (string \<times> u64) list \<Rightarrow> nat" where
  "sum_for i xs = (\<Sum>e\<leftarrow>filter (\<lambda>e. fst e = i) xs. unat (snd e))"

lemma sum_for_simps [simp]:
  "sum_for i [] = 0" "sum_for i ((k, s) # xs) = (if k = i then unat s else 0) + sum_for i xs"
  by (simp_all add: sum_for_def)

lemma settle_all_owed: "carry_ok c \<Longrightarrow> carry_ok (settle_all xs c) \<and> owed (settle_all xs c) i = owed c i - sum_for i xs"
proof (induction xs arbitrary: c)
  case (Cons e xs)
  obtain k s where e: "e = (k, s)" by fastforce
  have "carry_ok (carry_settle k s c)" using Cons.prems by (rule carry_settle_ok)
  from Cons.IH [OF this] Cons.prems show ?case by (simp add: e settle_all_def owed_settle)
qed (simp add: settle_all_def)

lemma add_all_owed:
  "carry_ok c \<Longrightarrow> owed c i + sum_for i xs < 2 ^ 64 \<Longrightarrow>
    carry_ok (add_all xs c) \<and> owed (add_all xs c) i = owed c i + sum_for i xs"
proof (induction xs arbitrary: c)
  case (Cons e xs)
  obtain k s where e: "e = (k, s)" by fastforce
  have "carry_ok (carry_add k s c)" using Cons.prems(1) by (rule carry_add_ok)
  moreover have "owed (carry_add k s c) i = owed c i + (if k = i then unat s else 0)"
    using Cons.prems by (auto simp: e owed_add)
  ultimately show ?case using Cons.IH [of "carry_add k s c"] Cons.prems(2) by (simp add: e add_all_def)
qed (simp add: add_all_def)

section \<open>Reading the log back\<close>

text \<open>The latest record of every block, in the order the blocks were first seen.\<close>

definition latest :: "block_record list \<Rightarrow> block_record list" where
  "latest rs = map (\<lambda>h. last (filter (\<lambda>r. br_hash r = h) rs)) (rev (remdups (rev (map br_hash rs))))"

definition seen_hashes :: "block_record list \<Rightarrow> string list" where
  "seen_hashes rs = rev (remdups (rev (map br_hash rs)))"

lemma seen_hashes_snoc:
  "seen_hashes (rs @ [r]) = (if br_hash r \<in> br_hash ` set rs then seen_hashes rs else seen_hashes rs @ [br_hash r])"
  by (auto simp: seen_hashes_def)

lemma seen_hashes_props: "distinct (seen_hashes rs)" "set (seen_hashes rs) = br_hash ` set rs"
  by (simp_all add: seen_hashes_def)

lemma latest_nth: "i < length (seen_hashes rs) \<Longrightarrow> latest rs ! i = last (filter (\<lambda>r. br_hash r = seen_hashes rs ! i) rs)"
  by (simp add: latest_def seen_hashes_def)

lemma latest_length: "length (latest rs) = length (seen_hashes rs)"
  by (simp add: latest_def seen_hashes_def)

lemma latest_snoc:
  "latest (rs @ [r]) =
     (if br_hash r \<in> br_hash ` set rs then (latest rs)[at := r] else latest rs @ [r])"
  if "br_hash r \<in> br_hash ` set rs \<longrightarrow> at < length (seen_hashes rs) \<and> seen_hashes rs ! at = br_hash r"
proof (cases "br_hash r \<in> br_hash ` set rs")
  case True
  then have i: "at < length (seen_hashes rs)" "seen_hashes rs ! at = br_hash r" using that by simp_all
  have s: "seen_hashes (rs @ [r]) = seen_hashes rs" using True by (simp add: seen_hashes_snoc)
  have "latest (rs @ [r]) = (latest rs)[at := r]"
  proof (rule nth_equalityI)
    show "length (latest (rs @ [r])) = length ((latest rs)[at := r])" by (simp add: latest_length s)
  next
    fix k
    assume "k < length (latest (rs @ [r]))"
    then have k: "k < length (seen_hashes rs)" by (simp add: latest_length s)
    then have "seen_hashes rs ! k = br_hash r \<longleftrightarrow> k = at"
      using i seen_hashes_props(1) [of rs] nth_eq_iff_index_eq by metis
    then show "latest (rs @ [r]) ! k = (latest rs)[at := r] ! k"
      using k by (auto simp: latest_nth s latest_length nth_list_update)
  qed
  then show ?thesis using True by simp
next
  case False
  then have "filter (\<lambda>x. br_hash x = br_hash r) rs = []" by (metis (mono_tags, lifting) filter_empty_conv imageI)
  moreover have "last (filter (\<lambda>x. br_hash x = h) (rs @ [r])) = last (filter (\<lambda>x. br_hash x = h) rs)" if "h \<in> br_hash ` set rs" for h
    using that False by auto
  ultimately show ?thesis
    using False seen_hashes_snoc [of rs r] seen_hashes_props(2) [of rs]
    by (simp add: latest_def seen_hashes_def [symmetric])
qed

definition index_ok :: "block_record list \<Rightarrow> (string \<rightharpoonup> nat) \<Rightarrow> bool" where
  "index_ok rs index \<longleftrightarrow>
     (\<forall>h i. index h = Some i \<longrightarrow> i < length (seen_hashes rs) \<and> seen_hashes rs ! i = h) \<and>
     (\<forall>h. index h = None \<longleftrightarrow> h \<notin> br_hash ` set rs)"

lemma index_ok_known:
  assumes "index_ok rs index" and "seen_hashes rs' = seen_hashes rs" and "br_hash ` set rs' = br_hash ` set rs"
  shows "index_ok rs' index"
  using assms(1) unfolding index_ok_def assms(2,3) .

text \<open>What the codec must do for the log to read back: no line break, and not a blank line.\<close>

definition line_codec :: "(block_record \<Rightarrow> bytes) \<Rightarrow> (bytes \<Rightarrow> block_record option) \<Rightarrow> block_record list \<Rightarrow> bool" where
  "line_codec enc_record dec_record rs \<longleftrightarrow>
     (\<forall>r \<in> set rs. dec_record (enc_record r) = Some r \<and> is_utf8 (enc_record r) \<and> trim (bytes_str (enc_record r)) \<noteq> '''' \<and>
       10 \<notin> set (enc_record r) \<and> strip_cr (enc_record r) = enc_record r)"

lemma read_records_ok:
  assumes "line_codec enc_record dec_record new" and "index_ok rs index"
  shows "read_records dec_record (map enc_record new) (latest rs, index) = Inr (latest (rs @ new))"
  using assms
proof (induction new arbitrary: rs index)
  case (Cons r new)
  have c: "dec_record (enc_record r) = Some r" "is_utf8 (enc_record r)" "trim (bytes_str (enc_record r)) \<noteq> ''''"
    using Cons.prems(1) by (simp_all add: line_codec_def)
  have rest: "line_codec enc_record dec_record new" using Cons.prems(1) by (simp add: line_codec_def)
  show ?case
  proof (cases "index (br_hash r)")
    case None
    then have new: "br_hash r \<notin> br_hash ` set rs" using Cons.prems(2) by (auto simp: index_ok_def)
    then have "latest (rs @ [r]) = latest rs @ [r]" by (subst latest_snoc [where at = 0]) simp_all
    moreover have "index_ok (rs @ [r]) (index(br_hash r \<mapsto> length (latest rs)))"
      using Cons.prems(2) new unfolding index_ok_def seen_hashes_snoc
      by (auto simp: latest_length nth_append less_SucI)
    ultimately show ?thesis using c None Cons.IH [OF rest, of "rs @ [r]"] by simp
  next
    case (Some i)
    note ix = Cons.prems(2) [unfolded index_ok_def, THEN conjunct1] Cons.prems(2) [unfolded index_ok_def, THEN conjunct2]
    have i: "i < length (seen_hashes rs) \<and> seen_hashes rs ! i = br_hash r" using ix(1) Some by blast
    have known: "br_hash r \<in> br_hash ` set rs" using spec [OF ix(2), of "br_hash r"] Some by simp
    have upd: "latest (rs @ [r]) = (latest rs)[i := r]"
      using i known by (subst latest_snoc [where at = i]) simp_all
    have "seen_hashes (rs @ [r]) = seen_hashes rs" using known by (simp add: seen_hashes_snoc)
    moreover have "br_hash ` set (rs @ [r]) = br_hash ` set rs" using known by auto
    ultimately have "index_ok (rs @ [r]) index" by (rule index_ok_known [OF Cons.prems(2)])
    then show ?thesis using upd c Some Cons.IH [OF rest, of "rs @ [r]"] by simp
  qed
qed simp

lemma log_bytes: "fold (log_append enc_record) rs (Some b) = Some (b @ concat (map (\<lambda>r. enc_record r @ [10]) rs))"
  by (induction rs arbitrary: b) (simp_all add: log_append_def)

text \<open>
  The block log is the history of its appends.  Reading a log that was written by appending
  records one by one yields, for every block, the record appended last, in the order the blocks
  first appeared, whatever the order in which updates were interleaved.
\<close>

theorem log_reads_latest:
  assumes "line_codec enc_record dec_record rs"
  shows "read_all dec_record (fold (log_append enc_record) rs None) = Inr (latest rs)"
proof (cases rs)
  case Nil
  then show ?thesis by (simp add: read_all_def latest_def)
next
  case (Cons r rs')
  have "fold (log_append enc_record) rs None = Some (concat (map (\<lambda>l. l @ [10]) (map enc_record rs)))"
    using log_bytes [of enc_record rs' "enc_record r @ [10]"] by (simp add: Cons log_append_def o_def)
  moreover have "lines_of (concat (map (\<lambda>l. l @ [10]) (map enc_record rs))) = map enc_record rs"
    by (rule lines_of_terminated) (use assms in \<open>simp add: line_codec_def\<close>)
  moreover have "index_ok [] Map.empty" "latest [] = []" by (simp_all add: index_ok_def latest_def)
  ultimately show ?thesis using read_records_ok [OF assms, of "[]" Map.empty] by (simp add: read_all_def)
qed

definition demo_record :: "string \<Rightarrow> u64 \<Rightarrow> block_record" where
  "demo_record h ts = \<lparr>br_ts = ts, br_height = 1, br_hash = h, br_finder = None, br_coinbase_value = 0, br_kind = '''',
     br_owed_sats = 0, br_split = [], br_pool_sats = 0, br_settled = False, br_submit = '''', br_gateway = '''',
     br_unpaid = [], br_carry_paid = [], br_snapshot = '''', br_carried = False\<rparr>"

definition demo_enc_record :: "block_record \<Rightarrow> bytes" where
  "demo_enc_record r = str_bytes (br_hash r) @ [48 + ucast (br_ts r)]"

definition demo_dec_record :: "bytes \<Rightarrow> block_record option" where
  "demo_dec_record l = Some (demo_record (bytes_str (butlast l)) (ucast (last l - 48)))"

theorem log_reads_latest_witness:
  "read_all demo_dec_record (fold (log_append demo_enc_record)
     [demo_record ''x'' 1, demo_record ''y'' 2, demo_record ''x'' 3] None) =
     Inr [demo_record ''x'' 3, demo_record ''y'' 2]"
proof -
  have "line_codec demo_enc_record demo_dec_record [demo_record ''x'' 1, demo_record ''y'' 2, demo_record ''x'' 3]"
    by code_simp
  from log_reads_latest [OF this] show ?thesis
    by (simp add: latest_def demo_record_def)
qed

end
