(* ===== verification/Controls.thy ===== *)
theory Controls
  imports Net Address Ordered_Map
begin

text \<open>
  The runtime controls (\<open>primed/src/controls.rs\<close>): fees, fee overrides and bans read from a JSON file,
  whose parser is a parameter.  Shown: controls in force never charge more than everything, and the
  ban list matches exactly the addresses that agree with a listed network on its prefix.
\<close>

section \<open>The file and the validated controls\<close>

record controls_file =
  cf_fee_bps :: "u32 option"
  cf_stratum_fee_bps :: "u32 option"
  cf_fee_overrides :: "(string, u32) btree"
  cf_banned_identities :: "string list"
  cf_banned_ips :: "string list"
  cf_updated :: "string option"

record controls =
  co_fee_bps :: "u32 option"
  co_stratum_fee_bps :: "u32 option"
  co_fee_overrides :: "(string, u32) btree"
  co_banned_identities :: "string set"
  co_banned_nets :: "(ip \<times> u8) list"
  co_updated :: "string option"
  co_mtime :: "nat option"

definition controls_default :: controls where
  "controls_default = \<lparr>co_fee_bps = None, co_stratum_fee_bps = None, co_fee_overrides = [],
     co_banned_identities = {}, co_banned_nets = [], co_updated = None, co_mtime = None\<rparr>"

datatype controls_error = Unreadable | Malformed | Fee_over_100 | Override_over_100 string | Not_an_address string

text \<open>\<open>split_once('/')\<close>\<close>

definition split_slash :: "string \<Rightarrow> (string \<times> string) option" where
  "split_slash s =
     (case dropWhile (\<lambda>c. c \<noteq> CHR ''/'') s of
        [] \<Rightarrow> None
      | _ # rest \<Rightarrow> Some (takeWhile (\<lambda>c. c \<noteq> CHR ''/'') s, rest))"

definition parse_net :: "string \<Rightarrow> (ip \<times> u8) option" where
  "parse_net s = do {
     (addr, bits) \<leftarrow> (case split_slash s of
        Some (a, b) \<Rightarrow> do { addr \<leftarrow> parse_ip a; n \<leftarrow> parse_unsigned 256 b; Some (addr, of_nat n) }
      | None \<Rightarrow> do { addr \<leftarrow> parse_ip s; Some (addr, if is_ipv4 addr then 32 else 128) });
     let max_bits = (if is_ipv4 addr then 32 else 128);
     if bits \<le> max_bits then Some (addr, bits) else None
   }"

text \<open>\<open>MAX << (w - bits)\<close>: the subtraction panics below zero.\<close>

definition prefix_mask :: "'a::len itself \<Rightarrow> u8 \<Rightarrow> 'a word option" where
  "prefix_mask _ bits =
     (if bits = 0 then Some 0
      else if unat bits > LENGTH('a) then None
      else Some (push_bit (LENGTH('a) - unat bits) (- 1)))"

fun in_net :: "ip \<Rightarrow> ip \<Rightarrow> u8 \<Rightarrow> bool option" where
  "in_net (V4 a) (V4 n) bits = do { mask \<leftarrow> prefix_mask TYPE(32) bits; Some (and a mask = and n mask) }"
| "in_net (V6 a) (V6 n) bits = do { mask \<leftarrow> prefix_mask TYPE(128) bits; Some (and a mask = and n mask) }"
| "in_net _ _ _ = Some False"

fun any_net :: "ip \<Rightarrow> (ip \<times> u8) list \<Rightarrow> bool option" where
  "any_net addr [] = Some False"
| "any_net addr ((net, bits) # nets) = do {
     hit \<leftarrow> in_net addr net bits;
     if hit then Some True else any_net addr nets
   }"

definition ip_banned :: "controls \<Rightarrow> ip \<Rightarrow> bool option" where
  "ip_banned c addr = any_net addr (co_banned_nets c)"

definition identity_banned :: "controls \<Rightarrow> string \<Rightarrow> bool" where
  "identity_banned c identity = (identity \<in> co_banned_identities c)"

section \<open>Loading\<close>

fun load_overrides :: "bech32 \<Rightarrow> (string \<times> u32) list \<Rightarrow> (string, u32) btree \<Rightarrow> controls_error + (string, u32) btree" where
  "load_overrides bech32 [] m = Inr m"
| "load_overrides bech32 ((i, bps) # es) m =
     (if bps > 10000 then Inl (Override_over_100 i)
      else load_overrides bech32 es (bt_put (canonical_identity bech32 (identity_of i)) bps m))"

fun load_nets :: "string list \<Rightarrow> controls_error + (ip \<times> u8) list" where
  "load_nets [] = Inr []"
| "load_nets (s # ss) = rbind (ok_or (parse_net s) (Not_an_address s)) (\<lambda>n. rbind (load_nets ss) (\<lambda>ns. Inr (n # ns)))"

definition fee_over_100 :: "controls_file \<Rightarrow> bool" where
  "fee_over_100 f =
     list_ex (\<lambda>b. case b of Some bps \<Rightarrow> bps > 10000 | None \<Rightarrow> False) [cf_fee_bps f, cf_stratum_fee_bps f]"

text \<open>
  The file as the system reports it: its modification time, if that is known, and its text, if it can
  be read.  \<open>None\<close> is a file that does not exist; then there are no controls.
\<close>

definition controls_load ::
    "bech32 \<Rightarrow> (string \<Rightarrow> controls_file option) \<Rightarrow> (nat option \<times> string option) option \<Rightarrow>
       controls_error + controls option" where
  "controls_load bech32 parse file =
     (case file of
        None \<Rightarrow> Inr None
      | Some (mtime, contents) \<Rightarrow>
          rbind (ok_or contents Unreadable) (\<lambda>body.
          rbind (ok_or (parse body) Malformed) (\<lambda>f.
            if fee_over_100 f then Inl Fee_over_100
            else rbind (load_overrides bech32 (cf_fee_overrides f) []) (\<lambda>overrides.
            rbind (load_nets (cf_banned_ips f)) (\<lambda>nets.
              Inr (Some \<lparr>co_fee_bps = cf_fee_bps f, co_stratum_fee_bps = cf_stratum_fee_bps f,
                co_fee_overrides = overrides,
                co_banned_identities = set (map (\<lambda>i. canonical_identity bech32 (identity_of i)) (cf_banned_identities f)),
                co_banned_nets = nets, co_updated = cf_updated f, co_mtime = mtime\<rparr>))))))"

text \<open>\<open>controls_watcher\<close> in \<open>main.rs\<close>: one look at the file against the controls in force.\<close>

definition controls_watch ::
    "bech32 \<Rightarrow> (string \<Rightarrow> controls_file option) \<Rightarrow> (nat option \<times> string option) option \<Rightarrow> controls \<Rightarrow> controls" where
  "controls_watch bech32 parse file c =
     (let current = co_mtime c; mtime = Option.bind file fst in
      if mtime = current then c
      else (case controls_load bech32 parse file of
        Inr (Some c') \<Rightarrow> c'
      | Inr None \<Rightarrow> if current \<noteq> None then controls_default else c
      | Inl _ \<Rightarrow> c))"

section \<open>What controls in force satisfy\<close>

fun ip_width :: "ip \<Rightarrow> nat" where
  "ip_width (V4 _) = 32"
| "ip_width (V6 _) = 128"

definition net_ok :: "ip \<times> u8 \<Rightarrow> bool" where
  "net_ok n \<longleftrightarrow> unat (snd n) \<le> ip_width (fst n)"

definition controls_ok :: "controls \<Rightarrow> bool" where
  "controls_ok c \<longleftrightarrow>
     (\<forall>b. co_fee_bps c = Some b \<longrightarrow> b \<le> 10000) \<and> (\<forall>b. co_stratum_fee_bps c = Some b \<longrightarrow> b \<le> 10000) \<and>
     bt_ok (co_fee_overrides c) \<and> (\<forall>i b. map_of (co_fee_overrides c) i = Some b \<longrightarrow> b \<le> 10000) \<and>
     list_all net_ok (co_banned_nets c)"

lemma load_overrides_ok:
  "load_overrides bech32 es m = Inr m' \<Longrightarrow> bt_ok m \<Longrightarrow> (\<forall>i b. map_of m i = Some b \<longrightarrow> b \<le> 10000) \<Longrightarrow>
    bt_ok m' \<and> (\<forall>i b. map_of m' i = Some b \<longrightarrow> b \<le> 10000)"
proof (induction es arbitrary: m)
  case (Cons e es)
  obtain i bps where e: "e = (i, bps)" by fastforce
  let ?m = "bt_put (canonical_identity bech32 (identity_of i)) bps m"
  have "bps \<le> 10000" and l: "load_overrides bech32 es ?m = Inr m'" using Cons.prems(1) by (auto simp: e split: if_splits)
  then have "bt_ok ?m \<and> (\<forall>i b. map_of ?m i = Some b \<longrightarrow> b \<le> 10000)"
    using Cons.prems(2,3) by (auto simp: bt.ok_put bt.get_put)
  then show ?case using Cons.IH [OF l] by blast
qed simp

lemma parse_net_ok: "parse_net s = Some n \<Longrightarrow> net_ok n"
proof -
  assume "parse_net s = Some n"
  then obtain a b where n: "n = (a, b)" "b \<le> (if is_ipv4 a then 32 else 128)"
    by (auto simp: parse_net_def Let_def split: Option.bind_splits if_splits)
  have "unat (32 :: u8) = 32" "unat (128 :: u8) = 128" by simp_all
  then show ?thesis using n by (cases a) (simp_all add: net_ok_def word_le_nat_alt)
qed

lemma load_nets_ok: "load_nets ss = Inr ns \<Longrightarrow> list_all net_ok ns"
  by (induction ss arbitrary: ns) (auto simp: rbind_Inr ok_or_Inr intro: parse_net_ok)

lemma controls_load_ok:
  assumes "controls_load bech32 parse file = Inr (Some c)"
  shows "controls_ok c"
proof -
  from assms obtain f overrides nets where
    fees: "\<not> fee_over_100 f"
    and o: "load_overrides bech32 (cf_fee_overrides f) [] = Inr overrides" and n: "load_nets (cf_banned_ips f) = Inr nets"
    and c: "co_fee_bps c = cf_fee_bps f" "co_stratum_fee_bps c = cf_stratum_fee_bps f" "co_fee_overrides c = overrides"
      "co_banned_nets c = nets"
    by (auto simp: controls_load_def rbind_Inr ok_or_Inr split: option.splits if_splits)
  have "bt_ok overrides \<and> (\<forall>i b. map_of overrides i = Some b \<longrightarrow> b \<le> 10000)"
    using load_overrides_ok [OF o] by simp
  then show ?thesis
    using fees load_nets_ok [OF n] by (auto simp: controls_ok_def c fee_over_100_def)
qed

text \<open>
  Controls in force stay valid.  Whatever the control plane writes into the file, and whether it
  parses or not, one look at the file leaves controls whose fees and overrides are at most 100
  percent and whose networks have a prefix their address family allows; a file that is refused leaves the controls that were
  in force, bans included.
\<close>

theorem controls_stay_valid:
  assumes "controls_ok c"
  shows "controls_ok (controls_watch bech32 parse file c) \<and>
    (isl (controls_load bech32 parse file) \<longrightarrow> controls_watch bech32 parse file c = c)"
  using assms controls_load_ok [of bech32 parse "file"]
  by (auto simp: controls_watch_def Let_def controls_default_def controls_ok_def split: sum.splits option.splits)

definition demo_file :: "u32 \<Rightarrow> controls_file" where
  "demo_file bps = \<lparr>cf_fee_bps = Some bps, cf_stratum_fee_bps = None, cf_fee_overrides = [(''ann.rig'', 50)],
     cf_banned_identities = [''bob''], cf_banned_ips = [''10.0.0.0/8'', ''2001:db8::/32''], cf_updated = None\<rparr>"

lemma demo_net: "parse_net ''10.0.0.0/8'' = Some (V4 0x0A000000, 8)"
  "parse_net ''2001:db8::/32'' = Some (V6 0x20010DB8000000000000000000000000, 32)"
  "parse_net ''10.0.0.0/33'' = None" "parse_net ''300.1.1.1'' = None"
  by code_simp+

theorem controls_stay_valid_witness:
  "controls_ok (controls_watch (\<lambda>_. None) (\<lambda>_. Some (demo_file 20000)) (Some (Some 7, Some ''{}'')) controls_default) \<and>
   controls_watch (\<lambda>_. None) (\<lambda>_. Some (demo_file 20000)) (Some (Some 7, Some ''{}'')) controls_default = controls_default"
proof -
  have ok: "controls_ok controls_default" by (simp add: controls_ok_def controls_default_def)
  have "isl (controls_load (\<lambda>_. None) (\<lambda>_. Some (demo_file 20000)) (Some (Some 7, Some ''{}'')))"
    by (simp add: controls_load_def demo_file_def fee_over_100_def)
  with controls_stay_valid [OF ok] show ?thesis by blast
qed

section \<open>The ban list\<close>

text \<open>Two addresses of one family agree on the leading bits of the prefix.\<close>

fun same_prefix :: "ip \<Rightarrow> ip \<Rightarrow> nat \<Rightarrow> bool" where
  "same_prefix (V4 a) (V4 n) bits \<longleftrightarrow> unat a div 2 ^ (32 - bits) = unat n div 2 ^ (32 - bits)"
| "same_prefix (V6 a) (V6 n) bits \<longleftrightarrow> unat a div 2 ^ (128 - bits) = unat n div 2 ^ (128 - bits)"
| "same_prefix _ _ _ \<longleftrightarrow> False"

lemma and_high_mask: "and a (push_bit k (- 1)) = push_bit k (drop_bit k a)" for a :: "'a::len word"
  by (rule bit_word_eqI) (auto simp: bit_simps)

lemma high_bits_eq:
  "and a (push_bit k (- 1)) = and n (push_bit k (- 1)) \<longleftrightarrow> unat a div 2 ^ k = unat n div 2 ^ k" for a n :: "'a::len word"
proof -
  have "drop_bit k a = drop_bit k n \<longleftrightarrow> unat a div 2 ^ k = unat n div 2 ^ k"
    unfolding word_unat_eq_iff unsigned_drop_bit_eq by (simp add: drop_bit_eq_div take_bit_nat_eq_self)
  moreover have "push_bit k (drop_bit k a) = push_bit k (drop_bit k n) \<longleftrightarrow> drop_bit k a = drop_bit k n"
  proof
    assume eq: "push_bit k (drop_bit k a) = push_bit k (drop_bit k n)"
    show "drop_bit k a = drop_bit k n"
    proof (rule bit_word_eqI)
      fix i assume "i < LENGTH('a)"
      have "bit (push_bit k (drop_bit k a)) (i + k) = bit (push_bit k (drop_bit k n)) (i + k)" using eq by simp
      then show "bit (drop_bit k a) i = bit (drop_bit k n) i"
        by (cases "i + k < LENGTH('a)") (auto simp: bit_simps add.commute dest: bit_imp_le_length)
    qed
  qed simp
  ultimately show ?thesis by (simp only: and_high_mask)
qed

lemma in_net_ok: "net_ok (net, bits) \<Longrightarrow> in_net addr net bits = Some (same_prefix addr net (unat bits))"
proof (cases "bits = 0")
  case True
  have "unat a < 2 ^ 32" "unat b < 2 ^ 128" for a :: u32 and b :: u128 using unat_lt [of a] unat_lt [of b] by simp_all
  then show ?thesis by (cases addr; cases net) (simp_all add: True prefix_mask_def)
next
  case False
  assume "net_ok (net, bits)"
  then show ?thesis using False by (cases addr; cases net) (simp_all add: prefix_mask_def net_ok_def high_bits_eq [unfolded push_bit_minus_one_eq_not_mask])
qed

text \<open>
  C36: The ban list bans exactly the listed networks.  With valid controls the check never panics, and
  an address is refused just when a listed network of its family has the same leading bits.
\<close>

theorem ban_list_exact:
  assumes "controls_ok c"
  shows "ip_banned c addr = Some (list_ex (\<lambda>(net, bits). same_prefix addr net (unat bits)) (co_banned_nets c))"
proof -
  have "any_net addr ns = Some (list_ex (\<lambda>(net, bits). same_prefix addr net (unat bits)) ns)" if "list_all net_ok ns" for ns
    using that by (induction ns) (auto simp: in_net_ok)
  then show ?thesis using assms by (simp add: ip_banned_def controls_ok_def)
qed

theorem ban_list_exact_witness:
  "ip_banned (controls_default\<lparr>co_banned_nets := [(V4 0x0A000000, 8)]\<rparr>) (V4 0x0A010203) = Some True"
proof -
  have "controls_ok (controls_default\<lparr>co_banned_nets := [(V4 0x0A000000, 8)]\<rparr>)"
    by (simp add: controls_ok_def controls_default_def net_ok_def)
  from ban_list_exact [OF this, of "V4 0x0A010203"] show ?thesis by simp
qed

end
