(* ===== verification/Frame.thy ===== *)
theory Frame
  imports Cursor
begin

unbundle bit_operations_syntax

text \<open>
  The frame header and its key schedule (\<open>wire/src/frame.rs\<close>): a 4-byte little-endian bit field
  XORed with a per-direction rolling key, and the one-way \<open>feedback\<close> mixer that advances the key
  after every header.  What is shown: packing loses nothing but the bits that do not fit their
  field; two ends that start from one key stay in step over any sequence of headers; and the
  length check after unpacking is never the one to fail.
\<close>

section \<open>The key schedule\<close>

definition CLIENT_INITIAL_KEY :: u32 where "CLIENT_INITIAL_KEY = 0xDC871829"

definition feedback :: "u32 \<Rightarrow> u32" where
  "feedback i =
     (let k = i * 0xcc9e2d51;
          k = word_rotl 15 k;
          k = k * 0x1b873593;
          h = 0xb10cfeed XOR k;
          h = word_rotl 13 h;
          h = h * 5 + 0xe6546b64;
          h = h XOR 4;
          h = h XOR drop_bit 16 h;
          h = h * 0x85ebca6b;
          h = h XOR drop_bit 13 h;
          h = h * 0xc2b2ae35;
          h = h XOR drop_bit 16 h
      in h)"

text \<open>A key stream is its current key; \<open>advance\<close> returns the key to use and the next stream.\<close>

definition key_advance :: "u32 \<Rightarrow> u32 \<times> u32" where
  "key_advance k = (k, feedback k)"

definition key_from_seed :: "u32 \<Rightarrow> u32 \<times> u32" where
  "key_from_seed seed = (feedback seed, feedback (NOT seed))"

section \<open>The header\<close>

record header =
  h_len :: u32
  h_signed :: bool
  h_sealed :: bool
  h_channel :: bool
  h_cmd :: u8

definition HEADER_SIZE :: nat where "HEADER_SIZE = 4"

definition header_new :: "u8 \<Rightarrow> nat \<Rightarrow> header" where
  "header_new cmd len =
     \<lparr>h_len = of_nat len, h_signed = False, h_sealed = False, h_channel = False, h_cmd = cmd\<rparr>"

definition header_to_u32 :: "header \<Rightarrow> u32" where
  "header_to_u32 h =
     (h_len h AND 0x003fffff)
     OR push_bit 24 (of_bool (h_signed h))
     OR push_bit 25 (of_bool (h_sealed h))
     OR push_bit 26 (of_bool (h_channel h))
     OR push_bit 27 (ucast (h_cmd h AND 0x1f))"

definition header_from_u32 :: "u32 \<Rightarrow> header" where
  "header_from_u32 v =
     \<lparr>h_len = v AND 0x003fffff,
      h_signed = (v AND push_bit 24 1 \<noteq> 0),
      h_sealed = (v AND push_bit 25 1 \<noteq> 0),
      h_channel = (v AND push_bit 26 1 \<noteq> 0),
      h_cmd = ucast (drop_bit 27 v)\<rparr>"

definition header_encode :: "header \<Rightarrow> u32 \<Rightarrow> bytes \<times> u32" where
  "header_encode h keys =
     (let (k, keys') = key_advance keys in (le32 (header_to_u32 h XOR k), keys'))"

definition header_decode :: "bytes \<Rightarrow> u32 \<Rightarrow> (wire_error + header) \<times> u32" where
  "header_decode bs keys =
     (let (k, keys') = key_advance keys;
          h = header_from_u32 (of_le bs XOR k)
      in (if MAX_CMD_LEN < unat (h_len h) then Inl TooLong else Inr h, keys'))"

text \<open>One direction of a connection: the headers one end sends and the other end reads, in order.\<close>

fun encode_headers :: "header list \<Rightarrow> u32 \<Rightarrow> bytes list \<times> u32" where
  "encode_headers [] keys = ([], keys)"
| "encode_headers (h # hs) keys =
     (let (b, keys) = header_encode h keys; (bs, keys) = encode_headers hs keys in (b # bs, keys))"

fun decode_headers :: "bytes list \<Rightarrow> u32 \<Rightarrow> (wire_error + header list) \<times> u32" where
  "decode_headers [] keys = (Inr [], keys)"
| "decode_headers (b # bs) keys =
     (case header_decode b keys of
        (Inl e, keys) \<Rightarrow> (Inl e, keys)
      | (Inr h, keys) \<Rightarrow>
          (let (r, keys) = decode_headers bs keys in (rbind r (\<lambda>hs. Inr (h # hs)), keys)))"

section \<open>Packing\<close>

definition header_fits :: "header \<Rightarrow> bool" where
  "header_fits h \<longleftrightarrow> unat (h_len h) < 2 ^ 22 \<and> unat (h_cmd h) < 2 ^ 5"

definition header_masked :: "header \<Rightarrow> header" where
  "header_masked h = h\<lparr>h_len := h_len h AND 0x003fffff, h_cmd := h_cmd h AND 0x1f\<rparr>"

lemma and_mask22: "(w :: u32) AND 0x003fffff = take_bit 22 w"
  by (simp add: take_bit_eq_mask mask_eq_exp_minus_1)

lemma and_mask5: "(w :: u8) AND 0x1f = take_bit 5 w"
  by (simp add: take_bit_eq_mask mask_eq_exp_minus_1)

lemma and_bit_nonzero: "((v :: u32) AND push_bit n 1 \<noteq> 0) = bit v n"
  by (simp add: push_bit_eq_mult and_exp_eq_0_iff_not_bit)

lemmas bit_tests = and_bit_nonzero [of _ 24, simplified] and_bit_nonzero [of _ 25, simplified]
  and_bit_nonzero [of _ 26, simplified]

lemmas header_bits = and_mask22 and_mask5 bit_tests

lemma header_from_to_masked: "header_from_u32 (header_to_u32 h) = header_masked h"
proof -
  let ?v = "header_to_u32 h"
  have v: "?v = take_bit 22 (h_len h) OR push_bit 24 (of_bool (h_signed h))
      OR push_bit 25 (of_bool (h_sealed h)) OR push_bit 26 (of_bool (h_channel h))
      OR push_bit 27 (ucast (take_bit 5 (h_cmd h)))"
    by (simp add: header_to_u32_def header_bits)
  have "take_bit 22 ?v = take_bit 22 (h_len h)"
    by (rule bit_eqI) (auto simp: v bit_simps)
  moreover have "bit ?v 24 = h_signed h" "bit ?v 25 = h_sealed h" "bit ?v 26 = h_channel h"
    by (auto simp: v bit_simps)
  moreover have "(ucast (drop_bit 27 ?v) :: u8) = take_bit 5 (h_cmd h)"
    by (rule bit_eqI) (auto simp: v bit_simps)
  ultimately show ?thesis
    by (cases h) (simp add: header_from_u32_def header_masked_def header_bits)
qed

lemma header_masked_fits: "header_fits h \<Longrightarrow> header_masked h = h"
  by (cases h) (simp add: header_fits_def header_masked_def header_bits word_unat_eq_iff
      unsigned_take_bit_eq take_bit_nat_eq_self)

lemma header_to_from:
  assumes "\<not> bit v 22" and "\<not> bit v 23"
  shows "header_to_u32 (header_from_u32 v) = v"
proof (rule bit_eqI)
  fix n
  assume "possible_bit TYPE(32 word) n"
  then have n: "n < 32" by simp
  have "n < 22 \<or> n = 22 \<or> n = 23 \<or> n = 24 \<or> n = 25 \<or> n = 26 \<or> (27 \<le> n \<and> n - 27 < 5 \<and> n - 27 < 8)"
    using n by arith
  then show "bit (header_to_u32 (header_from_u32 v)) n = bit v n"
    by (elim disjE) (use assms n in \<open>simp_all add: header_to_u32_def header_from_u32_def header_bits bit_simps\<close>)
qed

lemma header_from_u32_len: "unat (h_len (header_from_u32 v)) < 2 ^ 22"
  using take_bit_nat_less_exp [of 22 "unat v"]
  by (simp add: header_from_u32_def header_bits unsigned_take_bit_eq)

section \<open>Properties\<close>

lemma header_decode_encode:
  "header_decode (fst (header_encode h k)) k = (Inr (header_masked h), snd (header_encode h k))"
proof -
  have "unat (h_len (header_masked h)) < 2 ^ 22"
    using header_from_u32_len [of "header_to_u32 h"] by (simp add: header_from_to_masked)
  then show ?thesis
    by (simp add: header_decode_def header_encode_def key_advance_def MAX_CMD_LEN_def
        xor.assoc header_from_to_masked)
qed

lemma decode_encode_headers:
  "decode_headers (fst (encode_headers hs k)) k =
     (Inr (map header_masked hs), snd (encode_headers hs k))"
proof (induction hs arbitrary: k)
  case Nil
  show ?case by simp
next
  case (Cons h hs)
  then show ?case
    using header_decode_encode [of h k] by (simp add: case_prod_beta Let_def)
qed

text \<open>
  The two ends of a connection never lose step.  Whatever headers one end sends, starting from
  any key, the other end with the same key reads them back in order, cut to the 22-bit length and
  5-bit command of the wire, and both ends finish on the same key; headers that fit their fields
  come back exactly.
\<close>

theorem headers_stay_in_step:
  "decode_headers (fst (encode_headers hs k)) k = (Inr (map header_masked hs), snd (encode_headers hs k)) \<and>
   (list_all header_fits hs \<longrightarrow> map header_masked hs = hs)"
  using decode_encode_headers [of hs k]
  by (auto simp: list_all_iff header_masked_fits intro: map_idI)

theorem headers_stay_in_step_witness:
  "decode_headers (fst (encode_headers [header_new CMD_HELLO 300, header_new CMD_MINING 70] 5)) 5 =
     (Inr [header_new CMD_HELLO 300, header_new CMD_MINING 70],
      snd (encode_headers [header_new CMD_HELLO 300, header_new CMD_MINING 70] 5))"
proof -
  have "list_all header_fits [header_new CMD_HELLO 300, header_new CMD_MINING 70]"
    by (simp add: header_fits_def header_new_def CMD_HELLO_def CMD_MINING_def)
  then show ?thesis using headers_stay_in_step [of "[header_new CMD_HELLO 300, header_new CMD_MINING 70]" 5] by simp
qed

text \<open>
  No header is ever refused as too long.  Whatever four bytes arrive under whatever key, \<open>decode\<close>
  succeeds with a length below 2^22, because the length field has 22 bits; the limit check in
  \<open>decode\<close>, and any later check against the same limit, cannot fire.
\<close>

theorem header_never_too_long:
  "\<exists>h. fst (header_decode bs k) = Inr h \<and> unat (h_len h) < MAX_CMD_LEN"
  using header_from_u32_len [of "of_le bs XOR k"]
  by (simp add: header_decode_def key_advance_def MAX_CMD_LEN_def)

end
