(* ===== verification/Crypto.thy ===== *)
theory Crypto
  imports Frame
begin

unbundle bit_operations_syntax

text \<open>
  The key sets, nonces and boxed channel (\<open>wire/src/crypto.rs\<close>).  The NaCl primitives come from
  third-party crates, so they are a parameter: the record \<open>nacl\<close> holds the operations the code
  calls and \<open>nacl_ok\<close> states their documented laws.  Shown: a message nonce is a 192-bit counter,
  and the two ends of a session decrypt whatever the other end encrypts, in any interleaving of
  the two directions.
\<close>

section \<open>The primitives\<close>

definition SIGN_PK :: nat where "SIGN_PK = 32"
definition BOX_PK :: nat where "BOX_PK = 32"
definition SIG :: nat where "SIG = 64"
definition NONCE :: nat where "NONCE = 24"
definition MAC :: nat where "MAC = 16"
definition SEAL_OVERHEAD :: nat where "SEAL_OVERHEAD = 32 + MAC"

text \<open>
  Signing keys are seeds, box keys are secret scalars, both as bytes.  Sealing draws an ephemeral
  key, passed as the first argument.  \<open>n_verify\<close> is false for a public key or a signature that does
  not parse as well as for one that does not match.
\<close>

record nacl =
  n_sign_pk :: "bytes \<Rightarrow> bytes"
  n_box_pk :: "bytes \<Rightarrow> bytes"
  n_sign :: "bytes \<Rightarrow> bytes \<Rightarrow> bytes"
  n_verify :: "bytes \<Rightarrow> bytes \<Rightarrow> bytes \<Rightarrow> bool"
  n_seal :: "bytes \<Rightarrow> bytes \<Rightarrow> bytes \<Rightarrow> bytes"
  n_unseal :: "bytes \<Rightarrow> bytes \<Rightarrow> bytes option"
  n_shared :: "bytes \<Rightarrow> bytes \<Rightarrow> bytes"
  n_encrypt :: "bytes \<Rightarrow> bytes \<Rightarrow> bytes \<Rightarrow> bytes"
  n_decrypt :: "bytes \<Rightarrow> bytes \<Rightarrow> bytes \<Rightarrow> bytes \<Rightarrow> bytes option"

definition nacl_ok :: "nacl \<Rightarrow> bool" where
  "nacl_ok N \<longleftrightarrow>
     (\<forall>s. length s = 32 \<longrightarrow> length (n_sign_pk N s) = SIGN_PK \<and> length (n_box_pk N s) = BOX_PK) \<and>
     (\<forall>s m. length s = 32 \<longrightarrow> length (n_sign N s m) = SIG \<and> n_verify N (n_sign_pk N s) m (n_sign N s m)) \<and>
     (\<forall>r s m. length s = 32 \<longrightarrow> n_unseal N s (n_seal N r (n_box_pk N s) m) = Some m) \<and>
     (\<forall>s t. length s = 32 \<longrightarrow> length t = 32 \<longrightarrow> n_shared N (n_box_pk N s) t = n_shared N (n_box_pk N t) s) \<and>
     (\<forall>k n m. length (n_encrypt N k n m) = MAC + length m \<and>
        n_decrypt N k n (take MAC (n_encrypt N k n m)) (drop MAC (n_encrypt N k n m)) = Some m)"

section \<open>Key sets\<close>

record key_set =
  ks_sign :: bytes
  ks_box :: bytes

definition from_secret_bytes :: "bytes \<Rightarrow> key_set" where
  "from_secret_bytes b = \<lparr>ks_sign = take 32 b, ks_box = drop 32 b\<rparr>"

definition secret_bytes :: "key_set \<Rightarrow> bytes" where
  "secret_bytes k = ks_sign k @ ks_box k"

definition sign_pk :: "nacl \<Rightarrow> key_set \<Rightarrow> bytes" where
  "sign_pk N k = n_sign_pk N (ks_sign k)"

definition box_pk :: "nacl \<Rightarrow> key_set \<Rightarrow> bytes" where
  "box_pk N k = n_box_pk N (ks_box k)"

definition ks_signature :: "nacl \<Rightarrow> key_set \<Rightarrow> bytes \<Rightarrow> bytes" where
  "ks_signature N k m = n_sign N (ks_sign k) m"

definition unseal :: "nacl \<Rightarrow> key_set \<Rightarrow> bytes \<Rightarrow> wire_error + bytes" where
  "unseal N k sealed = ok_or (n_unseal N (ks_box k) sealed) Decrypt"

definition precompute :: "nacl \<Rightarrow> key_set \<Rightarrow> bytes \<Rightarrow> bytes" where
  "precompute N k remote_box_pk = n_shared N remote_box_pk (ks_box k)"

definition seal_to :: "nacl \<Rightarrow> bytes \<Rightarrow> bytes \<Rightarrow> bytes \<Rightarrow> bytes" where
  "seal_to N rand remote_box_pk m = n_seal N rand remote_box_pk m"

definition verify_sig :: "nacl \<Rightarrow> bytes \<Rightarrow> bytes \<Rightarrow> bytes \<Rightarrow> wire_error + unit" where
  "verify_sig N pk m sig = (if n_verify N pk m sig then Inr () else Inl Signature)"

definition verify_trailing :: "nacl \<Rightarrow> bytes \<Rightarrow> bytes \<Rightarrow> wire_error + bytes" where
  "verify_trailing N pk payload =
     (if length payload < SIG then Inl Short
      else let m = take (length payload - SIG) payload; sig = drop (length payload - SIG) payload
           in rbind (verify_sig N pk m sig) (\<lambda>_. Inr m))"

definition key_set_ok :: "key_set \<Rightarrow> bool" where
  "key_set_ok k \<longleftrightarrow> length (ks_sign k) = 32 \<and> length (ks_box k) = 32"

lemma secret_bytes_from: "length b = 64 \<Longrightarrow> secret_bytes (from_secret_bytes b) = b \<and> key_set_ok (from_secret_bytes b)"
  by (simp add: secret_bytes_def from_secret_bytes_def key_set_ok_def)

lemma from_secret_bytes_of: "key_set_ok k \<Longrightarrow> from_secret_bytes (secret_bytes k) = k"
  by (cases k) (simp add: secret_bytes_def from_secret_bytes_def key_set_ok_def)

section \<open>Nonces\<close>

fun nonce_words :: "nat \<Rightarrow> u32 \<Rightarrow> u32 list" where
  "nonce_words 0 nk = []"
| "nonce_words (Suc n) nk = (let w = feedback (nk - 42) in w # nonce_words n (NOT w))"

definition session_nonces :: "u32 \<Rightarrow> bytes \<Rightarrow> bytes \<times> bytes" where
  "session_nonces seed client_session_sign_pk =
     (let pk7 = of_le (take 4 (drop 7 client_session_sign_pk));
          words = nonce_words (NONCE div 4) ((seed - 42) XOR pk7)
      in (concat (map le32 words), concat (map (\<lambda>w. le32 (w XOR 0x57575757)) words)))"

text \<open>The loop over the six words, which stops at the first that does not wrap to zero.\<close>

fun bump_words :: "nat \<Rightarrow> bytes \<Rightarrow> bytes" where
  "bump_words 0 n = n"
| "bump_words (Suc k) n =
     (let w = of_le (take 4 n) + 1 :: u32 in
      le32 w @ (if w \<noteq> 0 then drop 4 n else bump_words k (drop 4 n)))"

definition bump_nonce :: "bytes \<Rightarrow> bytes" where
  "bump_nonce n = bump_words (NONCE div 4) n"

section \<open>The channel\<close>

record channel =
  ch_bx :: bytes
  ch_send_nonce :: bytes
  ch_recv_nonce :: bytes

definition channel_new :: "bytes \<Rightarrow> bytes \<Rightarrow> bytes \<Rightarrow> channel" where
  "channel_new bx send_nonce recv_nonce = \<lparr>ch_bx = bx, ch_send_nonce = send_nonce, ch_recv_nonce = recv_nonce\<rparr>"

definition channel_encrypt :: "nacl \<Rightarrow> channel \<Rightarrow> bytes \<Rightarrow> bytes \<times> channel" where
  "channel_encrypt N c plain =
     (n_encrypt N (ch_bx c) (ch_send_nonce c) plain, c\<lparr>ch_send_nonce := bump_nonce (ch_send_nonce c)\<rparr>)"

definition channel_decrypt :: "nacl \<Rightarrow> channel \<Rightarrow> bytes \<Rightarrow> (wire_error + bytes) \<times> channel" where
  "channel_decrypt N c b =
     (if length b < MAC then (Inl Short, c)
      else case n_decrypt N (ch_bx c) (ch_recv_nonce c) (take MAC b) (drop MAC b) of
        None \<Rightarrow> (Inl Decrypt, c)
      | Some plain \<Rightarrow> (Inr plain, c\<lparr>ch_recv_nonce := bump_nonce (ch_recv_nonce c)\<rparr>))"

section \<open>A nonce is a counter\<close>

lemma of_le_32: "length b = 4 \<Longrightarrow> unat (of_le b :: u32) = le_nat b"
  using le_nat_less [of b] unfolding of_le_def by (intro unat_of_nat_lt) simp

declare bump_words.simps(2) [simp del]

lemma bump_words_value:
  "length n = 4 * k \<Longrightarrow> length (bump_words k n) = 4 * k \<and> le_nat (bump_words k n) = (le_nat n + 1) mod 256 ^ (4 * k)"
proof (induction k n rule: bump_words.induct)
  case (2 k n)
  let ?lo = "take 4 n" and ?hi = "drop 4 n"
  define w :: u32 where "w = of_le ?lo + 1"
  have len: "length ?lo = 4" "length ?hi = 4 * k" using "2.prems" by simp_all
  have n: "le_nat n = le_nat ?lo + 256 ^ 4 * le_nat ?hi"
    using le_nat_app [of ?lo ?hi] len(1) by simp
  have lo: "unat (of_le ?lo :: u32) = le_nat ?lo" by (rule of_le_32 [OF len(1)])
  have hi: "le_nat ?hi < 256 ^ (4 * k)" using le_nat_less [of ?hi] len(2) by simp
  have p: "(256 :: nat) ^ (4 * Suc k) = 256 ^ 4 * 256 ^ (4 * k)" by (simp add: power_add)
  show ?case
  proof (cases "w = 0")
    case False
    have "unat w = (le_nat ?lo + 1) mod 2 ^ 32" by (simp add: w_def unat_word_ariths lo)
    moreover have "le_nat ?lo < 2 ^ 32" using le_nat_less [of ?lo] len(1) by simp
    ultimately have w: "unat w = le_nat ?lo + 1"
      using False by (cases "le_nat ?lo + 1 = 2 ^ 32") (auto simp: unat_eq_0)
    have b: "bump_words (Suc k) n = le32 w @ ?hi" using False by (simp add: bump_words.simps(2) w_def Let_def)
    have v: "le_nat (bump_words (Suc k) n) = le_nat n + 1"
      unfolding b le_nat_app by (simp add: le_nat_words w n)
    have "le_nat (bump_words (Suc k) n) < 256 ^ (4 * Suc k)"
      unfolding b using le_nat_less [of "le32 w @ ?hi"] len(2) by simp
    then show ?thesis using v len by (simp add: b)
  next
    case True
    have w0: "unat (of_le ?lo + 1 :: u32) = 0" using True by (simp add: w_def)
    have "(le_nat ?lo + 1) mod 2 ^ 32 = 0" using w0 by (simp add: unat_word_ariths lo)
    moreover have "le_nat ?lo < 2 ^ 32" using le_nat_less [of ?lo] len(1) by simp
    ultimately have l: "le_nat ?lo + 1 = 256 ^ 4"
      by (cases "le_nat ?lo + 1 = 2 ^ 32") auto
    have b: "bump_words (Suc k) n = le32 w @ bump_words k ?hi" using True by (simp add: bump_words.simps(2) w_def Let_def)
    have ih: "length (bump_words k ?hi) = 4 * k" "le_nat (bump_words k ?hi) = (le_nat ?hi + 1) mod 256 ^ (4 * k)"
      using "2.IH" [OF w_def] True len(2) by simp_all
    have "le_nat (bump_words (Suc k) n) = 256 ^ 4 * ((le_nat ?hi + 1) mod 256 ^ (4 * k))"
      unfolding b le_nat_app by (simp add: le_nat_words True ih)
    also have "\<dots> = (256 ^ 4 * (le_nat ?hi + 1)) mod 256 ^ (4 * Suc k)"
      unfolding p by (rule mult_mod_right)
    also have "256 ^ 4 * (le_nat ?hi + 1) = le_nat n + 1" unfolding n using l by (simp add: algebra_simps)
    finally show ?thesis using ih len by (simp add: b)
  qed
qed simp

lemma bump_nonce_value:
  "length n = NONCE \<Longrightarrow> length (bump_nonce n) = NONCE \<and> le_nat (bump_nonce n) = (le_nat n + 1) mod 2 ^ 192"
  using bump_words_value [of n 6] by (simp add: bump_nonce_def NONCE_def)

lemma le32_concat_length: "length (concat (map (\<lambda>w. le32 (f w)) ws)) = 4 * length ws"
  by (induction ws) simp_all

lemma nonce_words_length [simp]: "length (nonce_words n nk) = n"
  by (induction n nk rule: nonce_words.induct) (simp_all add: Let_def)

lemma session_nonces_length:
  "session_nonces seed pk = (a, b) \<Longrightarrow> length a = NONCE \<and> length b = NONCE"
  using le32_concat_length [of "\<lambda>w. w"] le32_concat_length [of "\<lambda>w. w XOR 0x57575757"]
  by (auto simp: session_nonces_def Let_def NONCE_def)

section \<open>The channel in both directions\<close>

text \<open>What the two ends say, in the order it happens: \<open>True\<close> marks a message of the server.\<close>

fun exchange :: "nacl \<Rightarrow> channel \<Rightarrow> channel \<Rightarrow> (bool \<times> bytes) list \<Rightarrow>
    (wire_error + bytes) list \<times> channel \<times> channel" where
  "exchange N s c [] = ([], s, c)"
| "exchange N s c ((from_server, m) # ms) =
     (if from_server then
        (let (b, s) = channel_encrypt N s m; (r, c) = channel_decrypt N c b; (rs, s, c) = exchange N s c ms
         in (r # rs, s, c))
      else
        (let (b, c) = channel_encrypt N c m; (r, s) = channel_decrypt N s b; (rs, s, c) = exchange N s c ms
         in (r # rs, s, c)))"

definition paired :: "channel \<Rightarrow> channel \<Rightarrow> bool" where
  "paired s c \<longleftrightarrow> ch_bx s = ch_bx c \<and> ch_send_nonce s = ch_recv_nonce c \<and> ch_recv_nonce s = ch_send_nonce c \<and>
     length (ch_send_nonce s) = NONCE \<and> length (ch_recv_nonce s) = NONCE"

lemma transfer:
  assumes "nacl_ok N" and "ch_bx s = ch_bx c" and "ch_send_nonce s = ch_recv_nonce c"
  shows "channel_decrypt N c (fst (channel_encrypt N s m)) =
    (Inr m, c\<lparr>ch_recv_nonce := bump_nonce (ch_recv_nonce c)\<rparr>)"
proof -
  have "length (n_encrypt N (ch_bx c) (ch_recv_nonce c) m) = MAC + length m"
    "n_decrypt N (ch_bx c) (ch_recv_nonce c) (take MAC (n_encrypt N (ch_bx c) (ch_recv_nonce c) m))
       (drop MAC (n_encrypt N (ch_bx c) (ch_recv_nonce c) m)) = Some m"
    using assms(1) unfolding nacl_ok_def by blast+
  then show ?thesis using assms(2,3) by (simp add: channel_encrypt_def channel_decrypt_def)
qed

lemma exchange_paired:
  assumes "nacl_ok N" and "paired s c" and "exchange N s c ms = (rs, s', c')"
  shows "rs = map (Inr \<circ> snd) ms \<and> paired s' c' \<and> ch_bx s' = ch_bx s \<and>
    le_nat (ch_send_nonce s') = (le_nat (ch_send_nonce s) + length (filter fst ms)) mod 2 ^ 192 \<and>
    le_nat (ch_recv_nonce s') = (le_nat (ch_recv_nonce s) + length (filter (Not \<circ> fst) ms)) mod 2 ^ 192"
  using assms(2,3)
proof (induction ms arbitrary: s c rs)
  case Nil
  then have "length (ch_send_nonce s) = NONCE" "length (ch_recv_nonce s) = NONCE" by (auto simp: paired_def)
  then have "le_nat (ch_send_nonce s) < 2 ^ 192" "le_nat (ch_recv_nonce s) < 2 ^ 192"
    using le_nat_less [of "ch_send_nonce s"] le_nat_less [of "ch_recv_nonce s"] by (simp_all add: NONCE_def)
  then show ?case using Nil by simp
next
  case (Cons x ms)
  obtain from_server m where x: "x = (from_server, m)" by fastforce
  note p = Cons.prems(1) [unfolded paired_def]
  show ?case
  proof (cases from_server)
    case True
    let ?s = "s\<lparr>ch_send_nonce := bump_nonce (ch_send_nonce s)\<rparr>" and ?c = "c\<lparr>ch_recv_nonce := bump_nonce (ch_recv_nonce c)\<rparr>"
    have l: "length (ch_send_nonce s) = NONCE" using p by blast
    note bv = conjunct2 [OF bump_nonce_value [OF l]]
    have pr: "paired ?s ?c" using p bump_nonce_value [of "ch_send_nonce s"] by (auto simp: paired_def)
    obtain qs where e: "exchange N ?s ?c ms = (qs, s', c')" "rs = Inr m # qs"
      using Cons.prems(2) True x p transfer [OF assms(1), of s c m]
      by (auto simp: channel_encrypt_def case_prod_beta Let_def prod_eq_iff)
    show ?thesis
      using Cons.IH [OF pr e(1)] e(2) True x by (simp add: bv mod_simps)
  next
    case False
    let ?c = "c\<lparr>ch_send_nonce := bump_nonce (ch_send_nonce c)\<rparr>" and ?s = "s\<lparr>ch_recv_nonce := bump_nonce (ch_recv_nonce s)\<rparr>"
    have l: "length (ch_recv_nonce s) = NONCE" using p by blast
    note bv = conjunct2 [OF bump_nonce_value [OF l]]
    have pr: "paired ?s ?c" using p bump_nonce_value [of "ch_recv_nonce s"] by (auto simp: paired_def)
    obtain qs where e: "exchange N ?s ?c ms = (qs, s', c')" "rs = Inr m # qs"
      using Cons.prems(2) False x p transfer [OF assms(1), of c s m]
      by (auto simp: channel_encrypt_def case_prod_beta Let_def prod_eq_iff)
    show ?thesis
      using Cons.IH [OF pr e(1)] e(2) False x by (simp add: bv mod_simps)
  qed
qed


text \<open>An instance of the laws: no secrecy, but every law holds.\<close>

definition demo_nacl :: nacl where
  "demo_nacl = \<lparr>n_sign_pk = \<lambda>s. s, n_box_pk = \<lambda>s. s, n_sign = \<lambda>s m. s @ s, n_verify = \<lambda>pk m sig. sig = pk @ pk,
     n_seal = \<lambda>r pk m. pk @ m, n_unseal = \<lambda>sk b. if take 32 b = sk then Some (drop 32 b) else None,
     n_shared = \<lambda>pk sk. map2 (XOR) pk sk, n_encrypt = \<lambda>k n m. replicate MAC 0 @ m,
     n_decrypt = \<lambda>k n tag body. Some body\<rparr>"

lemma map2_xor_commute: "length xs = length ys \<Longrightarrow> map2 (XOR) xs ys = map2 (XOR) ys (xs :: bytes)"
  by (induction xs ys rule: list_induct2) (simp_all add: xor.commute)

lemma demo_nacl_ok: "nacl_ok demo_nacl"
  by (simp add: nacl_ok_def demo_nacl_def SIGN_PK_def BOX_PK_def SIG_def MAC_def map2_xor_commute)


end
