(* ===== verification/Handshake.thy ===== *)
theory Handshake
  imports Crypto Utf8
begin

text \<open>
  The two-message handshake (\<open>wire/src/handshake.rs\<close>): the client hello, sealed to the pool and signed
  by the gateway's identity key, with the marker that tells the two client generations apart, and
  the server's signed reply.  Shown: a hello and a reply say what their sender put into them, and an
  accepted hello was signed, over every field it carries, by the identity it names.
\<close>

definition MAX_USER_AGENT :: nat where "MAX_USER_AGENT = 512"
definition MAX_MOTD :: nat where "MAX_MOTD = 511"
definition RESUME_TOKEN :: nat where "RESUME_TOKEN = 40"
definition RESUME_MARKER :: bytes where "RESUME_MARKER = [0x44, 0x52, 0x53, 1]"

datatype generation = Ocean | Convoy

record client_hello =
  ch_identity_sign_pk :: bytes
  ch_identity_box_pk :: bytes
  ch_session_sign_pk :: bytes
  ch_session_box_pk :: bytes
  ch_user_agent :: string
  ch_seed :: u32
  ch_generation :: generation
  ch_resume_token :: "bytes option"

definition read_extension :: "bytes \<Rightarrow> (generation \<times> bytes option) reader" where
  "read_extension body c =
     (if 5 \<le> c_remaining c \<and> take 4 (drop (pos c) body) = RESUME_MARKER
      then rbind (c_take 4 c) (\<lambda>(_, c). rbind (c_u8 c) (\<lambda>(flag, c).
        if flag = 1 then rbind (c_array RESUME_TOKEN c) (\<lambda>(t, c). Inr ((Convoy, Some t), c))
        else Inr ((Convoy, None), c)))
      else Inr ((Ocean, None), c))"

definition parse_client_hello :: "nacl \<Rightarrow> key_set \<Rightarrow> bytes \<Rightarrow> wire_error + client_hello" where
  "parse_client_hello N pool sealed =
     rbind (unseal N pool sealed) (\<lambda>plain.
       if length plain < 4 * 32 + SIG then Inl Short
       else let identity_sign_pk = take 32 plain in
         rbind (verify_trailing N identity_sign_pk plain) (\<lambda>body.
         rbind (c_take 32 (cursor_new body)) (\<lambda>(_, c).
         rbind (c_array 32 c) (\<lambda>(identity_box_pk, c).
         rbind (c_array 32 c) (\<lambda>(session_sign_pk, c).
         rbind (c_array 32 c) (\<lambda>(session_box_pk, c).
         rbind (c_cstr MAX_USER_AGENT c) (\<lambda>(ua, c).
         rbind (c_u8 c) (\<lambda>(sep, c).
           if sep \<noteq> 0xFE then Inl (Malformed ''hello separator'')
           else rbind (c_u32 c) (\<lambda>(seed, c).
           rbind (read_extension body c) (\<lambda>((gen, token), _).
             Inr \<lparr>ch_identity_sign_pk = identity_sign_pk, ch_identity_box_pk = identity_box_pk,
               ch_session_sign_pk = session_sign_pk, ch_session_box_pk = session_box_pk,
               ch_user_agent = bytes_str (from_utf8_lossy ua), ch_seed = seed, ch_generation = gen,
               ch_resume_token = token\<rparr>))))))))))"

definition convoy_hello_extension :: "bytes option \<Rightarrow> bytes" where
  "convoy_hello_extension token =
     RESUME_MARKER @ (case token of Some t \<Rightarrow> 1 # t | None \<Rightarrow> [0])"

definition build_server_hello ::
    "nacl \<Rightarrow> bytes \<Rightarrow> key_set \<Rightarrow> key_set \<Rightarrow> client_hello \<Rightarrow> string \<Rightarrow> bytes" where
  "build_server_hello N rand pool session hello motd =
     (let motd = str_bytes motd;
          n = min (length motd) MAX_MOTD;
          m = ch_identity_sign_pk hello @ ch_identity_box_pk hello @ ch_session_sign_pk hello @
              ch_session_box_pk hello @ sign_pk N session @ box_pk N session @ take n motd @ [0];
          m = m @ ks_signature N pool m
      in seal_to N rand (ch_session_box_pk hello) m)"

definition build_client_hello ::
    "nacl \<Rightarrow> bytes \<Rightarrow> bytes \<Rightarrow> key_set \<Rightarrow> key_set \<Rightarrow> string \<Rightarrow> u32 \<Rightarrow> bytes \<Rightarrow> bytes" where
  "build_client_hello N rand pool_box_pk ident session user_agent seed pad =
     (let m = sign_pk N ident @ box_pk N ident @ sign_pk N session @ box_pk N session @
              str_bytes user_agent @ [0, 0xFE] @ le32 seed @ pad;
          m = m @ ks_signature N ident m
      in seal_to N rand pool_box_pk m)"

definition parse_server_hello :: "nacl \<Rightarrow> bytes \<Rightarrow> key_set \<Rightarrow> bytes \<Rightarrow> wire_error + (bytes \<times> bytes \<times> string)" where
  "parse_server_hello N pool_sign_pk session sealed =
     rbind (unseal N session sealed) (\<lambda>plain.
     rbind (verify_trailing N pool_sign_pk plain) (\<lambda>body.
     rbind (c_take 128 (cursor_new body)) (\<lambda>(_, c).
     rbind (c_array 32 c) (\<lambda>(ssk, c).
     rbind (c_array 32 c) (\<lambda>(sbk, c).
     rbind (c_cstr MAX_MOTD c) (\<lambda>(motd, c).
       Inr (ssk, sbk, bytes_str (from_utf8_lossy motd))))))))"

section \<open>Signed and sealed\<close>

lemma nacl_lengths:
  assumes "nacl_ok N" and "key_set_ok k"
  shows "length (sign_pk N k) = 32" "length (box_pk N k) = 32" "length (ks_signature N k m) = SIG"
  using assms by (simp_all add: nacl_ok_def key_set_ok_def sign_pk_def box_pk_def ks_signature_def SIGN_PK_def BOX_PK_def)

lemma unseal_seal:
  "nacl_ok N \<Longrightarrow> key_set_ok k \<Longrightarrow> unseal N k (seal_to N r (box_pk N k) m) = Inr m"
  by (simp add: nacl_ok_def key_set_ok_def unseal_def seal_to_def box_pk_def)

lemma verify_trailing_signed:
  assumes "nacl_ok N" and "key_set_ok k"
  shows "verify_trailing N (sign_pk N k) (m @ ks_signature N k m) = Inr m"
proof -
  have "n_verify N (sign_pk N k) m (ks_signature N k m)"
    using assms by (simp add: nacl_ok_def key_set_ok_def sign_pk_def ks_signature_def)
  then show ?thesis
    using nacl_lengths(3) [OF assms, of m] by (simp add: verify_trailing_def Let_def verify_sig_def)
qed

lemma verify_trailing_Inr:
  "verify_trailing N pk plain = Inr body \<Longrightarrow>
     \<exists>sig. plain = body @ sig \<and> length sig = SIG \<and> n_verify N pk body sig"
  by (auto simp: verify_trailing_def Let_def verify_sig_def rbind_Inr split: if_splits
      intro!: exI [of _ "drop (length plain - SIG) plain"])

text \<open>What the bytes after the seed mean.\<close>

definition hello_pad :: "bytes \<Rightarrow> wire_error + (generation \<times> bytes option)" where
  "hello_pad pad =
     (if 5 \<le> length pad \<and> take 4 pad = RESUME_MARKER then
        if pad ! 4 = 1 then
          if length pad < 5 + RESUME_TOKEN then Inl Short
          else Inr (Convoy, Some (take RESUME_TOKEN (drop 5 pad)))
        else Inr (Convoy, None)
      else Inr (Ocean, None))"

lemma read_extension_pad:
  "rbind (read_extension (pre @ pad) (at_pos pre pad)) (\<lambda>(x, _). Inr x) = hello_pad pad"
proof (cases "5 \<le> length pad \<and> take 4 pad = RESUME_MARKER")
  case False
  then show ?thesis by (auto simp: read_extension_def hello_pad_def cursor_simps)
next
  case True
  define flag tail where "flag = pad ! 4" and "tail = drop 5 pad"
  have "pad = take 4 pad @ drop 4 pad" by simp
  also have "drop 4 pad = pad ! 4 # drop 5 pad" using True Cons_nth_drop_Suc [of 4 pad] by simp
  finally have pad: "pad = RESUME_MARKER @ flag # tail" using True by (simp add: flag_def tail_def)
  have t: "c_take 4 (at_pos pre pad) = Inr (RESUME_MARKER, at_pos (pre @ RESUME_MARKER) (flag # tail))"
    unfolding pad by (rule c_take_at) (simp add: RESUME_MARKER_def)
  have ext: "read_extension (pre @ pad) (at_pos pre pad) =
      (if flag = 1 then rbind (c_array RESUME_TOKEN (at_pos (pre @ RESUME_MARKER @ [flag]) tail)) (\<lambda>(t, c). Inr ((Convoy, Some t), c))
       else Inr ((Convoy, None), at_pos (pre @ RESUME_MARKER @ [flag]) tail))"
    using True by (simp add: read_extension_def cursor_simps t)
  have len: "length tail = length pad - 5" by (simp add: tail_def)
  show ?thesis
  proof (cases "length tail < RESUME_TOKEN")
    case short: True
    then show ?thesis using True len
      by (auto simp: ext hello_pad_def flag_def c_array_def c_take_short)
  next
    case False
    then have "c_array RESUME_TOKEN (at_pos (pre @ RESUME_MARKER @ [flag]) tail) =
        Inr (take RESUME_TOKEN tail, at_pos (pre @ RESUME_MARKER @ [flag] @ take RESUME_TOKEN tail) (drop RESUME_TOKEN tail))"
      using c_take_at [of "take RESUME_TOKEN tail" RESUME_TOKEN "pre @ RESUME_MARKER @ [flag]" "drop RESUME_TOKEN tail"]
      by (simp add: c_array_def)
    then show ?thesis using True False len
      by (auto simp: ext hello_pad_def flag_def tail_def)
  qed
qed

section \<open>Properties\<close>

definition ua_ok :: "nat \<Rightarrow> string \<Rightarrow> bool" where
  "ua_ok n s \<longleftrightarrow> length s \<le> n \<and> 0 \<notin> set (str_bytes s) \<and> is_utf8 (str_bytes s)"

lemma client_hello_parse:
  assumes N: "nacl_ok N" and keys: "key_set_ok pool" "key_set_ok ident" "key_set_ok session"
    and ua: "ua_ok MAX_USER_AGENT ua"
  shows "parse_client_hello N pool (build_client_hello N r (box_pk N pool) ident session ua seed pad) =
    (case hello_pad pad of Inl e \<Rightarrow> Inl e
     | Inr (gen, token) \<Rightarrow> Inr \<lparr>ch_identity_sign_pk = sign_pk N ident, ch_identity_box_pk = box_pk N ident,
         ch_session_sign_pk = sign_pk N session, ch_session_box_pk = box_pk N session, ch_user_agent = ua,
         ch_seed = seed, ch_generation = gen, ch_resume_token = token\<rparr>)"
proof -
  define head where "head = sign_pk N ident @ box_pk N ident @ sign_pk N session @ box_pk N session @
    str_bytes ua @ [0, 0xFE] @ le32 seed"
  note l = nacl_lengths [OF N keys(2)] nacl_lengths [OF N keys(3)]
  have sealed: "unseal N pool (build_client_hello N r (box_pk N pool) ident session ua seed pad) =
      Inr ((head @ pad) @ ks_signature N ident (head @ pad))"
    unfolding build_client_hello_def Let_def by (simp add: unseal_seal [OF N keys(1)] head_def)
  have tk: "take 32 ((head @ pad) @ x) = sign_pk N ident" for x using l by (simp add: head_def)
  have len: "\<not> length ((head @ pad) @ ks_signature N ident (head @ pad)) < 4 * 32 + SIG"
    using l by (simp add: head_def)
  have u: "length (str_bytes ua) \<le> MAX_USER_AGENT" "0 \<notin> set (str_bytes ua)" "from_utf8_lossy (str_bytes ua) = str_bytes ua"
    using ua by (simp_all add: ua_ok_def from_utf8_lossy_id)
  have ext: "rbind (read_extension (head @ pad) (at_pos head pad)) (\<lambda>((gen, token), _). Inr (f gen token)) =
      (case hello_pad pad of Inl e \<Rightarrow> Inl e | Inr (gen, token) \<Rightarrow> Inr (f gen token))" for f :: "_ \<Rightarrow> _ \<Rightarrow> client_hello"
    unfolding read_extension_pad [of head pad, symmetric]
    by (cases "read_extension (head @ pad) (at_pos head pad)") (auto split: prod.split)
  have c: "c_take 32 (cursor_new (head @ pad)) = Inr (sign_pk N ident, at_pos (sign_pk N ident) (box_pk N ident @
      sign_pk N session @ box_pk N session @ str_bytes ua @ 0 # 0xFE # le32 seed @ pad))"
    unfolding cursor_new_at head_def using c_take_at [of "sign_pk N ident" 32 "[]"] l by simp
  show ?thesis
    unfolding parse_client_hello_def sealed rbind_simps tk if_not_P [OF len] Let_def
      verify_trailing_signed [OF N keys(2)] c
    by (simp add: array_read l c_cstr_at [OF u(2,1)] u(3) cursor_simps ext [unfolded head_def, simplified] head_def)
qed

text \<open>
  C33: The pool reads from a hello exactly what the gateway put there.  Given primitives that keep
  their laws, for any keys, any user agent of at most 512 bytes without NUL, any seed and any bytes
  after it: the parsed hello names the gateway's two public key pairs, the user agent and the seed,
  and the bytes after the seed decide the generation: the marker with a token of 40 bytes, the
  marker alone, or anything else, with a cut-off token refused as short.
\<close>

theorem client_hello_round_trip:
  assumes N: "nacl_ok N" and keys: "key_set_ok pool" "key_set_ok ident" "key_set_ok session"
    and ua: "ua_ok MAX_USER_AGENT ua"
  shows "parse_client_hello N pool (build_client_hello N r (box_pk N pool) ident session ua seed pad) =
    (case hello_pad pad of Inl e \<Rightarrow> Inl e
     | Inr (gen, token) \<Rightarrow> Inr \<lparr>ch_identity_sign_pk = sign_pk N ident, ch_identity_box_pk = box_pk N ident,
         ch_session_sign_pk = sign_pk N session, ch_session_box_pk = box_pk N session, ch_user_agent = ua,
         ch_seed = seed, ch_generation = gen, ch_resume_token = token\<rparr>) \<and>
    (\<forall>rest. hello_pad (convoy_hello_extension None @ rest) = Inr (Convoy, None)) \<and>
    (\<forall>t rest. length t = RESUME_TOKEN \<longrightarrow> hello_pad (convoy_hello_extension (Some t) @ rest) = Inr (Convoy, Some t))"
  using client_hello_parse [OF assms, of r seed pad]
  by (simp add: hello_pad_def convoy_hello_extension_def RESUME_MARKER_def)

definition demo_keys :: "u8 \<Rightarrow> key_set" where
  "demo_keys b = \<lparr>ks_sign = replicate 32 b, ks_box = replicate 32 b\<rparr>"

lemma demo_keys_ok: "key_set_ok (demo_keys b)"
  by (simp add: key_set_ok_def demo_keys_def)

lemma demo_ua_ok: "ua_ok MAX_USER_AGENT ''v0.4''" "ua_ok MAX_MOTD ''v0.4''"
proof -
  have "is_utf8 (str_bytes ''v0.4'')" by (rule ascii_is_utf8) (simp add: str_bytes_def of_char_of)
  then show "ua_ok MAX_USER_AGENT ''v0.4''" "ua_ok MAX_MOTD ''v0.4''"
    by (simp_all add: ua_ok_def MAX_USER_AGENT_def MAX_MOTD_def str_bytes_def)
qed

theorem client_hello_round_trip_witness:
  "map_sum id ch_resume_token (parse_client_hello demo_nacl (demo_keys 1)
     (build_client_hello demo_nacl [] (box_pk demo_nacl (demo_keys 1)) (demo_keys 2) (demo_keys 3) ''v0.4'' 9
       (convoy_hello_extension (Some (replicate RESUME_TOKEN 5)) @ [7]))) = Inr (Some (replicate RESUME_TOKEN 5))"
  using client_hello_round_trip [OF demo_nacl_ok demo_keys_ok demo_keys_ok demo_keys_ok demo_ua_ok(1)] by simp

text \<open>
  The gateway reads from the reply exactly what the pool put there.  Given primitives that keep
  their laws, a reply to a hello with the gateway's session box key opens for that gateway, carries
  the pool's signature, and yields the server session's two public keys and the message of the day.
\<close>

theorem server_hello_round_trip:
  assumes N: "nacl_ok N" and keys: "key_set_ok pool" "key_set_ok server" "key_set_ok session"
    and hello: "length (ch_identity_sign_pk h) = 32" "length (ch_identity_box_pk h) = 32"
      "length (ch_session_sign_pk h) = 32" "ch_session_box_pk h = box_pk N session"
    and motd: "ua_ok MAX_MOTD motd"
  shows "parse_server_hello N (sign_pk N pool) session (build_server_hello N r pool server h motd) =
    Inr (sign_pk N server, box_pk N server, motd)"
proof -
  define echo where "echo = ch_identity_sign_pk h @ ch_identity_box_pk h @ ch_session_sign_pk h @ ch_session_box_pk h"
  define m where "m = echo @ sign_pk N server @ box_pk N server @ str_bytes motd @ [0]"
  have l: "length echo = 128" "length (sign_pk N server) = 32" "length (box_pk N server) = 32"
    using hello nacl_lengths [OF N keys(3)] nacl_lengths [OF N keys(2)] by (simp_all add: echo_def)
  have u: "length (str_bytes motd) \<le> MAX_MOTD" "0 \<notin> set (str_bytes motd)" "from_utf8_lossy (str_bytes motd) = str_bytes motd"
    using motd by (simp_all add: ua_ok_def from_utf8_lossy_id)
  have sealed: "unseal N session (build_server_hello N r pool server h motd) = Inr (m @ ks_signature N pool m)"
    using u(1) unfolding build_server_hello_def Let_def hello(4)
    by (simp add: unseal_seal [OF N keys(3)] m_def echo_def hello(4))
  have c: "c_take 128 (cursor_new m) = Inr (echo, at_pos echo (sign_pk N server @ box_pk N server @ str_bytes motd @ 0 # []))"
    unfolding cursor_new_at m_def using c_take_at [of echo 128 "[]"] l by simp
  show ?thesis
    unfolding parse_server_hello_def sealed rbind_simps verify_trailing_signed [OF N keys(1)] c
    by (simp add: array_read l c_cstr_at [OF u(2,1)] u(3))
qed

theorem server_hello_round_trip_witness:
  "parse_server_hello demo_nacl (sign_pk demo_nacl (demo_keys 1)) (demo_keys 3)
     (build_server_hello demo_nacl [] (demo_keys 1) (demo_keys 4)
       \<lparr>ch_identity_sign_pk = replicate 32 2, ch_identity_box_pk = replicate 32 2, ch_session_sign_pk = replicate 32 3,
        ch_session_box_pk = replicate 32 3, ch_user_agent = ''v0.4'', ch_seed = 9, ch_generation = Ocean,
        ch_resume_token = None\<rparr> ''v0.4'') =
   Inr (replicate 32 4, replicate 32 4, ''v0.4'')"
proof -
  have pk: "sign_pk demo_nacl (demo_keys b) = replicate 32 b" "box_pk demo_nacl (demo_keys b) = replicate 32 b" for b
    by (simp_all add: sign_pk_def box_pk_def demo_nacl_def demo_keys_def)
  show ?thesis
    using server_hello_round_trip [OF demo_nacl_ok demo_keys_ok [of 1] demo_keys_ok [of 4] demo_keys_ok [of 3] _ _ _ _ demo_ua_ok(2)]
    by (simp add: pk)
qed

text \<open>
  C34: An accepted hello is authentic.  Whatever bytes arrive and whatever the primitives do, when a
  hello is accepted, it opened with the pool's box key, and the identity signing key it names
  verifies a signature over everything before the signature, which starts with the four public keys
  the hello reports; a resume token is only ever reported for the Convoy generation, and has 40 bytes.
\<close>

theorem client_hello_authentic:
  assumes "parse_client_hello N pool sealed = Inr h"
  shows "\<exists>body sig. n_unseal N (ks_box pool) sealed = Some (body @ sig) \<and> length sig = SIG \<and>
    n_verify N (ch_identity_sign_pk h) body sig \<and>
    take 128 body = ch_identity_sign_pk h @ ch_identity_box_pk h @ ch_session_sign_pk h @ ch_session_box_pk h \<and>
    list_all (\<lambda>k. length k = 32) [ch_identity_sign_pk h, ch_identity_box_pk h, ch_session_sign_pk h, ch_session_box_pk h] \<and>
    (\<forall>t. ch_resume_token h = Some t \<longrightarrow> ch_generation h = Convoy \<and> length t = RESUME_TOKEN)"
proof -
  from assms obtain plain where p: "n_unseal N (ks_box pool) sealed = Some plain" "\<not> length plain < 4 * 32 + SIG"
    by (auto simp: parse_client_hello_def rbind_Inr unseal_def ok_or_Inr split: if_splits)
  from assms p obtain body where body: "verify_trailing N (take 32 plain) plain = Inr body"
    by (auto simp: parse_client_hello_def rbind_Inr unseal_def ok_or_Inr Let_def)
  from assms p body obtain k0 c0 k1 c1 k2 c2 k3 c3 ua c4 sep c5 seed c6 gen token c7 where
    r: "c_take 32 (cursor_new body) = Inr (k0, c0)" "c_array 32 c0 = Inr (k1, c1)" "c_array 32 c1 = Inr (k2, c2)"
      "c_array 32 c2 = Inr (k3, c3)" "read_extension body c6 = Inr ((gen, token), c7)"
    and h: "h = \<lparr>ch_identity_sign_pk = take 32 plain, ch_identity_box_pk = k1, ch_session_sign_pk = k2,
      ch_session_box_pk = k3, ch_user_agent = bytes_str (from_utf8_lossy ua), ch_seed = seed,
      ch_generation = gen, ch_resume_token = token\<rparr>"
    by (auto simp: parse_client_hello_def rbind_Inr unseal_def Let_def split: if_splits)
  from verify_trailing_Inr [OF body] obtain sig where
    sig: "plain = body @ sig" "length sig = SIG" "n_verify N (take 32 plain) body sig" by blast
  have "consumes (cursor_new body) (k0 @ k1 @ k2 @ k3) c3"
    by (rule consumes_append [OF c_take_consumes [OF r(1)] consumes_append [OF arrc.get_exact [OF r(2)]
          consumes_append [OF arrc.get_exact [OF r(3)] arrc.get_exact [OF r(4)]]]])
  then have "drop (pos (cursor_new body)) (buf (cursor_new body)) = (k0 @ k1 @ k2 @ k3) @ drop (pos c3) (buf (cursor_new body))"
    unfolding consumes_def by blast
  then have b: "body = (k0 @ k1 @ k2 @ k3) @ drop (pos c3) body" by (simp only: cursor_new_def cursor.select_convs drop_0)
  have l: "length k0 = 32" "length k1 = 32" "length k2 = 32" "length k3 = 32"
    using c_take_length r(1-4) unfolding c_array_def by blast+
  have t128: "take 128 body = k0 @ k1 @ k2 @ k3"
    using arg_cong [OF b, of "take 128"] by (simp add: l)
  have "take 32 (take 128 body) = k0" unfolding t128 by (simp add: l)
  moreover have "128 \<le> length body" using p(2) sig(1,2) by simp
  ultimately have "k0 = take 32 plain" using sig(1) by (simp add: min_def)
  moreover note t128
  moreover have "token = Some t \<Longrightarrow> gen = Convoy \<and> length t = RESUME_TOKEN" for t
    using r(5) by (auto simp: read_extension_def rbind_Inr c_array_def dest!: c_take_length split: if_splits)
  ultimately show ?thesis
    using p(1) sig l by (intro exI [of _ body] exI [of _ sig]) (simp add: h)
qed

theorem client_hello_authentic_witness:
  "\<exists>body. n_verify demo_nacl (replicate 32 2) body (replicate 32 2 @ replicate 32 2)"
proof -
  have "parse_client_hello demo_nacl (demo_keys 1)
     (build_client_hello demo_nacl [] (box_pk demo_nacl (demo_keys 1)) (demo_keys 2) (demo_keys 3) ''v0.4'' 9 []) =
     Inr \<lparr>ch_identity_sign_pk = replicate 32 2, ch_identity_box_pk = replicate 32 2, ch_session_sign_pk = replicate 32 3,
        ch_session_box_pk = replicate 32 3, ch_user_agent = ''v0.4'', ch_seed = 9, ch_generation = Ocean,
        ch_resume_token = None\<rparr>" 
    using client_hello_parse [OF demo_nacl_ok demo_keys_ok [of 1] demo_keys_ok [of 2] demo_keys_ok [of 3] demo_ua_ok(1), of "[]" 9 "[]"]
    by (simp add: hello_pad_def sign_pk_def box_pk_def demo_nacl_def demo_keys_def)
  from client_hello_authentic [OF this] show ?thesis by (auto simp: demo_nacl_def)
qed

end
