(* ===== verification/Float64.thy ===== *)
theory Float64
  imports Prelude Complex_Main
begin

text \<open>
  The double precision numbers the program computes with (Rust's \<open>f64\<close>, in \<open>primed/src/node.rs\<close>,
  \<open>state.rs\<close> and \<open>stats.rs\<close>): a finite number is its exact rational, and an operation computes exactly and
  rounds once, to the nearest number of 53 bits and to the even one of two.  The sign of a zero and the
  bits of a NaN are not kept; nothing here divides by zero.  Shown: rounding is within half a unit in
  the last place, and leaves alone what fits into 53 bits.
\<close>

section \<open>Numbers\<close>

datatype f64 = NaN | Inf bool | Fin rat

text \<open>The base-two logarithm, rounded down.\<close>

fun ilog2 :: "nat \<Rightarrow> nat" where
  "ilog2 n = (if n < 2 then 0 else Suc (ilog2 (n div 2)))"

declare ilog2.simps [simp del]

definition binade :: "rat \<Rightarrow> int" where
  "binade q =
     (let (n, d) = quotient_of \<bar>q\<bar>; k = int (ilog2 (nat n)) - int (ilog2 (nat d)) in
      if \<bar>q\<bar> < 2 powi k then k - 1 else k)"

definition round_even :: "rat \<Rightarrow> int" where
  "round_even q =
     (let f = \<lfloor>q\<rfloor>; r = q - of_int f in
      if r < 1 / 2 then f else if r > 1 / 2 then f + 1 else if even f then f else f + 1)"

definition ulp :: "rat \<Rightarrow> rat" where
  "ulp q = 2 powi max (binade q - 52) (- 1074)"

definition rnd :: "rat \<Rightarrow> f64" where
  "rnd q =
     (if q = 0 then Fin 0
      else let r = of_int (round_even (q / ulp q)) * ulp q in
        if \<bar>r\<bar> \<ge> 2 ^ 1024 then Inf (q < 0) else Fin r)"

section \<open>Operations\<close>

fun fmul :: "f64 \<Rightarrow> f64 \<Rightarrow> f64" where
  "fmul (Fin a) (Fin b) = rnd (a * b)"
| "fmul (Inf s) (Fin b) = (if b = 0 then NaN else Inf (s \<noteq> (b < 0)))"
| "fmul (Fin a) (Inf s) = (if a = 0 then NaN else Inf (s \<noteq> (a < 0)))"
| "fmul (Inf s) (Inf t) = Inf (s \<noteq> t)"
| "fmul _ _ = NaN"

fun fdiv :: "f64 \<Rightarrow> f64 \<Rightarrow> f64" where
  "fdiv (Fin a) (Fin b) = (if b = 0 then (if a = 0 then NaN else Inf (a < 0)) else rnd (a / b))"
| "fdiv (Inf s) (Fin b) = Inf (s \<noteq> (b < 0))"
| "fdiv (Fin a) (Inf s) = Fin 0"
| "fdiv _ _ = NaN"

text \<open>\<open>powi\<close>, which is exact for the powers of two it is used on.\<close>

definition fpowi :: "rat \<Rightarrow> int \<Rightarrow> f64" where
  "fpowi q n = rnd (q powi n)"

text \<open>\<open>f64::round\<close>: halves away from zero.\<close>

definition fround :: "f64 \<Rightarrow> f64" where
  "fround x = (case x of Fin q \<Rightarrow> Fin (if q < 0 then - of_int \<lfloor>1 / 2 - q\<rfloor> else of_int \<lfloor>q + 1 / 2\<rfloor>) | _ \<Rightarrow> x)"

text \<open>Comparisons are false of a NaN, and \<open>f64::max\<close> ignores one.\<close>

fun fless :: "f64 \<Rightarrow> f64 \<Rightarrow> bool" where
  "fless (Fin a) (Fin b) = (a < b)"
| "fless (Inf s) (Fin b) = s"
| "fless (Fin a) (Inf s) = (\<not> s)"
| "fless (Inf s) (Inf t) = (s \<and> \<not> t)"
| "fless _ _ = False"

definition fmax :: "f64 \<Rightarrow> f64 \<Rightarrow> f64" where
  "fmax a b = (if a = NaN then b else if b = NaN then a else if fless a b then b else a)"

definition ffinite :: "f64 \<Rightarrow> bool" where
  "ffinite x = (case x of Fin _ \<Rightarrow> True | _ \<Rightarrow> False)"

text \<open>Conversions; \<open>as u64\<close> cuts off and saturates.\<close>

definition f64_of_nat :: "nat \<Rightarrow> f64" where
  "f64_of_nat n = rnd (of_nat n)"

definition f64_to_u64 :: "f64 \<Rightarrow> u64" where
  "f64_to_u64 x =
     (case x of
        NaN \<Rightarrow> 0
      | Inf s \<Rightarrow> if s then 0 else - 1
      | Fin q \<Rightarrow> if q \<le> 0 then 0 else if q \<ge> 2 ^ 64 then - 1 else of_int \<lfloor>q\<rfloor>)"

text \<open>The number of 64 bits: sign, exponent and fraction.\<close>

definition f64_of_bits :: "u64 \<Rightarrow> f64" where
  "f64_of_bits b =
     (let s = 2 ^ 63 \<le> unat b; e = unat b div 2 ^ 52 mod 2 ^ 11; f = unat b mod 2 ^ 52;
          sign = (if s then - 1 else 1)
      in if e = 2047 then (if f = 0 then Inf s else NaN)
         else if e = 0 then Fin (sign * of_nat f * 2 powi (- 1074))
         else Fin (sign * of_nat (2 ^ 52 + f) * 2 powi (int e - 1075)))"

section \<open>Rounding\<close>

lemma ilog2_bounds:
  assumes "0 < n"
  shows "2 ^ ilog2 n \<le> n \<and> n < 2 ^ Suc (ilog2 n)"
  using assms
proof (induction n rule: ilog2.induct)
  case (1 n)
  show ?case
  proof (cases "n < 2")
    case True
    then show ?thesis using "1.prems" by (simp add: ilog2.simps [of n])
  next
    case False
    then have "2 ^ ilog2 (n div 2) \<le> n div 2 \<and> n div 2 < 2 ^ Suc (ilog2 (n div 2))" using "1.IH" by simp
    moreover have "2 * p \<le> n \<and> n < 4 * p" if "p \<le> n div 2 \<and> n div 2 < 2 * p" for p using that by linarith
    ultimately show ?thesis using False by (simp add: ilog2.simps [of n])
  qed
qed

lemma binade_bounds:
  assumes "q \<noteq> 0"
  shows "2 powi binade q \<le> \<bar>q\<bar>" and "\<bar>q\<bar> < 2 powi (binade q + 1)"
proof -
  obtain n d where nd: "quotient_of \<bar>q\<bar> = (n, d)" by fastforce
  have q: "\<bar>q\<bar> = of_int n / of_int d" using quotient_of_div [OF nd] .
  have d: "d > 0" using quotient_of_denom_pos [OF nd] .
  have n: "n > 0" using assms q d by (metis of_int_0_less_iff zero_less_abs_iff zero_less_divide_iff not_less_iff_gr_or_eq)
  let ?a = "ilog2 (nat n)" and ?b = "ilog2 (nat d)"
  have "2 ^ ?a \<le> nat n \<and> nat n < 2 ^ Suc ?a" "2 ^ ?b \<le> nat d \<and> nat d < 2 ^ Suc ?b"
    using ilog2_bounds [of "nat n"] ilog2_bounds [of "nat d"] n d by simp_all
  then have N: "(2::int) ^ ?a \<le> n" "n < 2 ^ Suc ?a" and D: "(2::int) ^ ?b \<le> d" "d < 2 ^ Suc ?b"
    by (simp_all add: nat_less_iff le_nat_iff n d less_imp_le)
  have N': "(2::rat) ^ ?a \<le> of_int n" "of_int n < (2::rat) ^ Suc ?a" and D': "(2::rat) ^ ?b \<le> of_int d" "of_int d < (2::rat) ^ Suc ?b"
    using N D by (metis of_int_le_iff of_int_less_iff of_int_numeral of_int_power)+
  have dp: "(0::rat) < of_int d" using d by simp
  let ?k = "int ?a - int ?b"
  have k: "(2::rat) powi (?k + 1) = 2 * 2 ^ ?a / 2 ^ ?b" "(2::rat) powi (?k - 1) = 2 ^ ?a / (2 * 2 ^ ?b)"
    using power_int_add [of "2::rat" ?k 1] power_int_diff [of "2::rat" ?k 1] power_int_diff [of "2::rat" "int ?a" "int ?b"]
    by simp_all
  have up: "\<bar>q\<bar> < 2 powi (?k + 1)"
  proof -
    have "of_int n * 2 ^ ?b < (2::rat) ^ Suc ?a * of_int d"
      using N'(2) D'(1) by (intro mult_less_le_imp_less) (simp_all add: n less_imp_le)
    then show ?thesis unfolding q k using dp by (simp add: field_simps)
  qed
  have low: "2 powi (?k - 1) \<le> \<bar>q\<bar>"
  proof -
    have "(2::rat) ^ ?a * of_int d \<le> of_int n * 2 ^ Suc ?b"
      using N'(1) D'(2) dp by (intro mult_mono) (simp_all add: n less_imp_le)
    then show ?thesis unfolding q k using dp by (simp add: field_simps)
  qed
  have b: "binade q = (if \<bar>q\<bar> < 2 powi ?k then ?k - 1 else ?k)" by (simp add: binade_def nd Let_def)
  show "2 powi binade q \<le> \<bar>q\<bar>" using low by (simp add: b)
  show "\<bar>q\<bar> < 2 powi (binade q + 1)" using up by (simp add: b)
qed

lemma round_even_near: "\<bar>of_int (round_even q) - q\<bar> \<le> 1 / 2"
  unfolding round_even_def Let_def
  using of_int_floor_le [of q] floor_correct [of q] by (auto simp: abs_le_iff)

lemma round_even_int [simp]: "round_even (of_int n) = n"
  by (simp add: round_even_def)

lemma ulp_pos [simp]: "0 < ulp q"
  by (simp add: ulp_def)

lemma abs_ulp [simp]: "\<bar>ulp q\<bar> = ulp q"
  using ulp_pos [of q] by (rule abs_of_pos)

text \<open>What is rounded is off by at most half a unit in the last place.\<close>

lemma rounded_near: "\<bar>of_int (round_even (q / ulp q)) * ulp q - q\<bar> \<le> ulp q / 2"
proof -
  have "of_int (round_even (q / ulp q)) * ulp q - q = (of_int (round_even (q / ulp q)) - q / ulp q) * ulp q"
    using less_imp_neq [OF ulp_pos [of q]] by (simp add: left_diff_distrib)
  then have "\<bar>of_int (round_even (q / ulp q)) * ulp q - q\<bar> = \<bar>of_int (round_even (q / ulp q)) - q / ulp q\<bar> * ulp q"
    by (simp only: abs_mult abs_ulp)
  also have "\<dots> \<le> 1 / 2 * ulp q" by (rule mult_right_mono [OF round_even_near]) (simp add: less_imp_le)
  finally show ?thesis by simp
qed

lemma rnd_half_ulp: "rnd q = Fin r \<Longrightarrow> \<bar>r - q\<bar> \<le> ulp q / 2"
  using rounded_near [of q] by (auto simp: rnd_def Let_def less_imp_le split: if_splits)

lemma powi_mono: "m \<le> n \<Longrightarrow> (2::rat) powi m \<le> 2 powi n"
  by (rule power_int_increasing) simp_all

lemma powi_less_cancel: "(2::rat) powi m < 2 powi n \<Longrightarrow> m < n"
  using powi_mono [of n m] by (meson not_less)

text \<open>Between the smallest normal number and half the largest, the error is relative.\<close>

lemma rnd_relative:
  assumes "2 powi (- 1022) \<le> \<bar>q\<bar>" and "\<bar>q\<bar> \<le> 2 ^ 1023"
  shows "\<exists>r. rnd q = Fin r \<and> \<bar>r - q\<bar> \<le> \<bar>q\<bar> / 2 ^ 53"
proof -
  have "(0::rat) < 2 powi (- 1022)" by simp
  then have nz: "q \<noteq> 0" using assms(1) by linarith
  have "(2::rat) powi (- 1022) < 2 powi (binade q + 1)" using assms(1) binade_bounds(2) [OF nz] by (rule le_less_trans)
  then have "- 1022 \<le> binade q" using powi_less_cancel by fastforce
  then have "max (binade q - 52) (- 1074) = binade q - 52" by simp
  then have "ulp q = 2 powi (binade q - 52)" unfolding ulp_def by (simp only:)
  then have u: "ulp q = 2 powi binade q / 2 ^ 52" using power_int_diff [of "2::rat" "binade q" 52] by simp
  then have le: "ulp q \<le> \<bar>q\<bar> / 2 ^ 52" using binade_bounds(1) [OF nz] by (simp add: divide_right_mono)
  show ?thesis
  proof (cases "rnd q")
    case (Fin r)
    then show ?thesis using rnd_half_ulp [OF Fin] le by (intro exI [of _ r]) (simp add: field_simps)
  next
    case NaN
    then show ?thesis by (simp add: rnd_def Let_def split: if_splits)
  next
    case (Inf s)
    let ?r = "of_int (round_even (q / ulp q)) * ulp q"
    have big: "\<bar>?r\<bar> \<ge> 2 ^ 1024" using Inf nz by (auto simp: rnd_def Let_def split: if_splits)
    have "\<bar>?r\<bar> \<le> \<bar>q\<bar> + \<bar>q\<bar> / 2 ^ 53" using rounded_near [of q] le abs_triangle_ineq2 [of ?r q] by simp
    moreover have "\<bar>q\<bar> + \<bar>q\<bar> / 2 ^ 53 < 2 ^ 1024"
      using assms(2) by simp
    ultimately show ?thesis using big by linarith
  qed
qed

text \<open>What fits into 53 bits is exact.\<close>

lemma rnd_exact:
  assumes "\<bar>m\<bar> < 2 ^ 53" and "- 1074 \<le> k" and "\<bar>of_int m * 2 powi k\<bar> < (2::rat) ^ 1024"
  shows "rnd (of_int m * 2 powi k) = Fin (of_int m * 2 powi k)"
proof (cases "m = 0")
  case True
  then show ?thesis by (simp add: rnd_def)
next
  case False
  let ?q = "of_int m * 2 powi k :: rat"
  have nz: "?q \<noteq> 0" using False by simp
  have "of_int \<bar>m\<bar> < (2::rat) ^ 53" using assms(1) by (metis of_int_less_iff of_int_numeral of_int_power)
  then have "\<bar>?q\<bar> < 2 ^ 53 * 2 powi k" by (simp add: abs_mult)
  also have "\<dots> = 2 powi (53 + k)" using power_int_add [of "2::rat" 53 k] by simp
  finally have "binade ?q < 53 + k" using binade_bounds(1) [OF nz] powi_less_cancel le_less_trans by blast
  then have "max (binade ?q - 52) (- 1074) \<le> k" using assms(2) by simp
  then obtain n where n: "k = max (binade ?q - 52) (- 1074) + int n" using zle_iff_zadd by blast
  have "2 powi k = ulp ?q * 2 ^ n" unfolding ulp_def by (subst (1) n) (simp add: power_int_add)
  then have d: "?q = of_int (m * 2 ^ n) * ulp ?q" by (metis mult.assoc mult.commute of_int_mult of_int_numeral of_int_power)
  have "?q / ulp ?q = of_int (m * 2 ^ n)" using ulp_pos [of ?q] d by (metis less_irrefl nonzero_mult_div_cancel_right)
  then have "of_int (round_even (?q / ulp ?q)) * ulp ?q = ?q" using d by (simp only: round_even_int)
  then show ?thesis using nz assms(3) unfolding rnd_def Let_def by simp
qed

end
