(* ===== verification/State.thy ===== *)
theory State
  imports Snapshot Records Controls Handshake Frame Float64
begin

text \<open>
  What every session shares (\<open>primed/src/state.rs\<close>): the tip, the table of clients, the counters, the
  set of credited shares, the connection limits, the worker table, the live split parameters, the
  block list and the carry ledger.  A mutex is the atomic step of the operation that holds it; the
  clock is an argument; log output is left out.  \<open>None\<close> is a panic of checked arithmetic.  Shown: a
  share is credited once, the connection counts are exact, the worker windows are right, and a
  settled block moves its amounts into the carry ledger exactly once.
\<close>

section \<open>Records\<close>

text \<open>An \<open>Instant\<close> is its nanoseconds.\<close>

type_synonym instant = nat

record tip =
  tp_height :: u32
  tp_hash :: string
  tp_difficulty :: f64
  tp_seen_at :: instant
  tp_seen_ts :: u64

record client_info =
  ci_id :: u64
  ci_remote :: string
  ci_user_agent :: string
  ci_generation :: string
  ci_gateway :: string
  ci_fee_path :: string
  ci_connected_ts :: u64
  ci_identity :: string
  ci_accepted :: u64
  ci_rejected :: u64
  ci_work :: u64
  ci_last_share_ts :: u64
  ci_coinbasers :: u64
  ci_block_candidates :: u64
  ci_last_reject :: "string option"
  ci_cb_split :: u64
  ci_cb_partial :: u64
  ci_cb_pool_only :: u64
  ci_cb_foreign :: u64

record totals =
  to_connections :: u64
  to_accepted :: u64
  to_rejected :: u64
  to_work :: u64
  to_coinbasers :: u64
  to_block_candidates :: u64
  to_blocks_submitted :: u64
  to_handshake_failures :: u64
  to_connections_refused :: u64

section \<open>Credited shares\<close>

record seen_shares =
  ss_by_height :: "(u32, bytes list) btree"
  ss_total :: nat

datatype seen = Fresh | Duplicate | Full

definition MAX_PER_HEIGHT :: nat where "MAX_PER_HEIGHT = 1000000"
definition MAX_TOTAL :: nat where "MAX_TOTAL = 2500000"

definition seen_new :: seen_shares where
  "seen_new = \<lparr>ss_by_height = [], ss_total = 0\<rparr>"

text \<open>\<open>entry(height).or_default()\<close> leaves an empty set behind even when the share is refused.\<close>

definition seen_insert :: "seen_shares \<Rightarrow> u32 \<Rightarrow> bytes \<Rightarrow> seen \<times> seen_shares" where
  "seen_insert s height hash =
     (let set_h = (case map_of (ss_by_height s) height of Some x \<Rightarrow> x | None \<Rightarrow> []);
          s = s\<lparr>ss_by_height := bt_put height set_h (ss_by_height s)\<rparr> in
      if hash \<in> set set_h then (Duplicate, s)
      else if length set_h \<ge> MAX_PER_HEIGHT \<or> ss_total s \<ge> MAX_TOTAL then (Full, s)
      else (Fresh, s\<lparr>ss_by_height := bt_put height (hash # set_h) (ss_by_height s), ss_total := ss_total s + 1\<rparr>))"

text \<open>The loop over the first entry; the subtraction of its size is checked.\<close>

fun prune_entries :: "u32 \<Rightarrow> (u32, bytes list) btree \<Rightarrow> nat \<Rightarrow> ((u32, bytes list) btree \<times> nat) option" where
  "prune_entries min_height [] n = Some ([], n)"
| "prune_entries min_height ((h, hs) # m) n =
     (if h \<ge> min_height then Some ((h, hs) # m, n)
      else if length hs \<le> n then prune_entries min_height m (n - length hs) else None)"

definition prune_below :: "u32 \<Rightarrow> seen_shares \<Rightarrow> seen_shares option" where
  "prune_below min_height s = do {
     (m, n) \<leftarrow> prune_entries min_height (ss_by_height s) (ss_total s);
     Some (s\<lparr>ss_by_height := m, ss_total := n\<rparr>)
   }"

definition seen_len :: "seen_shares \<Rightarrow> nat" where
  "seen_len s = ss_total s"

definition seen_heights :: "seen_shares \<Rightarrow> nat" where
  "seen_heights s = length (ss_by_height s)"

section \<open>Connections\<close>

record connections =
  cn_per_ip :: "ip \<rightharpoonup> u32"
  cn_total :: u32

definition connections_new :: connections where
  "connections_new = \<lparr>cn_per_ip = Map.empty, cn_total = 0\<rparr>"

definition admit :: "connections \<Rightarrow> ip \<Rightarrow> u32 \<Rightarrow> u32 \<Rightarrow> ((string + unit) \<times> connections) option" where
  "admit c addr max_total max_per_ip =
     (if cn_total c \<ge> max_total then Some (Inl ''connection limit reached'', c)
      else
        let n = (case cn_per_ip c addr of Some n \<Rightarrow> n | None \<Rightarrow> 0);
            c = c\<lparr>cn_per_ip := (cn_per_ip c)(addr \<mapsto> n)\<rparr> in
        if n \<ge> max_per_ip then Some (Inl ''per-address connection limit reached'', c)
        else do {
          n \<leftarrow> checked_add n 1;
          t \<leftarrow> checked_add (cn_total c) 1;
          Some (Inr (), c\<lparr>cn_per_ip := (cn_per_ip c)(addr \<mapsto> n), cn_total := t\<rparr>)
        })"

definition release :: "connections \<Rightarrow> ip \<Rightarrow> connections" where
  "release c addr =
     (let c = (case cn_per_ip c addr of
          None \<Rightarrow> c
        | Some n \<Rightarrow>
            let n = sat_sub n 1 in
            c\<lparr>cn_per_ip := (if n = 0 then (cn_per_ip c)(addr := None) else (cn_per_ip c)(addr \<mapsto> n))\<rparr>)
      in c\<lparr>cn_total := sat_sub (cn_total c) 1\<rparr>)"

section \<open>Workers\<close>

record worker_stat =
  ws_gateway :: string
  ws_accepted :: u64
  ws_work :: u64
  ws_last_share_ts :: u64
  ws_recent :: "(u64 \<times> u64) list"

definition worker_default :: worker_stat where
  "worker_default = \<lparr>ws_gateway = '''', ws_accepted = 0, ws_work = 0, ws_last_share_ts = 0, ws_recent = []\<rparr>"

definition WORKER_RATE_S :: u64 where "WORKER_RATE_S = 600"
definition WORKER_EXPIRE_S :: u64 where "WORKER_EXPIRE_S = 3600"

type_synonym workers = "string \<times> string \<rightharpoonup> worker_stat"

text \<open>Popping the front while it is older than the rate window.\<close>

definition drop_old :: "u64 \<Rightarrow> (u64 \<times> u64) list \<Rightarrow> (u64 \<times> u64) list" where
  "drop_old ts = dropWhile (\<lambda>(t, _). sat_sub ts t > WORKER_RATE_S)"

definition credit_worker :: "workers \<Rightarrow> string \<Rightarrow> string \<Rightarrow> string \<Rightarrow> u64 \<Rightarrow> u64 \<Rightarrow> workers option" where
  "credit_worker w identity worker gateway work ts =
     (let e = (case w (identity, worker) of Some e \<Rightarrow> e | None \<Rightarrow> worker_default) in do {
        accepted \<leftarrow> checked_add (ws_accepted e) 1;
        total_work \<leftarrow> checked_add (ws_work e) work;
        Some (w((identity, worker) \<mapsto> \<lparr>ws_gateway = gateway, ws_accepted = accepted, ws_work = total_work,
          ws_last_share_ts = ts, ws_recent = drop_old ts (ws_recent e @ [(ts, work)])\<rparr>))
      })"

definition expire_workers :: "workers \<Rightarrow> u64 \<Rightarrow> workers" where
  "expire_workers w ts =
     (\<lambda>k. case w k of
        None \<Rightarrow> None
      | Some e \<Rightarrow>
          if sat_sub ts (ws_last_share_ts e) \<le> WORKER_EXPIRE_S
          then Some (e\<lparr>ws_recent := drop_old ts (ws_recent e)\<rparr>) else None)"

section \<open>The shared state\<close>

text \<open>What comes from outside: cryptography, address and JSON codecs, hashes, and how an address is printed.\<close>

record ext =
  x_nacl :: nacl
  x_sha256 :: hash_fun
  x_blake2b :: hash_fun
  x_bech32 :: bech32
  x_base58 :: base58
  x_hex :: "bytes \<Rightarrow> string"
  x_to_vec :: "json \<Rightarrow> bytes"
  x_enc_record :: "block_record \<Rightarrow> bytes"
  x_enc_carry :: "carry \<Rightarrow> bytes"
  x_enc_meta :: "meta \<Rightarrow> bytes"
  x_show_addr :: "ip \<times> u16 \<Rightarrow> string"

text \<open>The fields of \<open>Shared\<close> that never change, and those that do.\<close>

record env =
  en_cfg :: config
  en_pool :: key_set
  en_pool_script :: bytes
  en_network :: network
  en_base_split :: split_params
  en_started :: instant
  en_started_ts :: u64

record shared =
  sh_controls :: controls
  sh_workers :: workers
  sh_ledger :: ledger
  sh_disk :: disk
  sh_carry :: carry
  sh_carry_file :: "bytes option"
  sh_snapshots :: dir
  sh_last_snapshot :: string
  sh_blocks :: "block_record list"
  sh_block_log :: "bytes option"
  sh_clients :: "u64 \<rightharpoonup> client_info"
  sh_seen :: seen_shares
  sh_connections :: connections
  sh_tip :: "tip option"
  sh_totals :: totals
  sh_next_client_id :: u64

text \<open>The parameters \<open>main\<close> starts from: room for one output and 64 script bytes beside the payees.\<close>

definition base_split_of :: "config \<Rightarrow> split_params" where
  "base_split_of c = \<lparr>sp_fee_bps = cfg_fee_bps c, sp_stratum_fee_bps = cfg_stratum_fee_bps c,
     sp_min_payout = cfg_min_payout c, sp_max_outputs = 511, sp_output_budget_bytes = 14000 - 9 - 64,
     sp_max_payees = cfg_max_payees c, sp_fee_overrides = Map.empty\<rparr>"

text \<open>The work of the window at a network difficulty.\<close>

definition window_target :: "config \<Rightarrow> f64 \<Rightarrow> u64" where
  "window_target cfg difficulty =
     max (f64_to_u64 (fmax (fround (fmul difficulty (Fin (of_nat (unat (cfg_window cfg)))))) (Fin 1))) (cfg_window_min_work cfg)"

definition live_split_params :: "env \<Rightarrow> shared \<Rightarrow> split_params" where
  "live_split_params en sh =
     (let c = sh_controls sh; p = en_base_split en;
          p = (case co_fee_bps c of Some b \<Rightarrow> p\<lparr>sp_fee_bps := b\<rparr> | None \<Rightarrow> p);
          p = (case co_stratum_fee_bps c of Some b \<Rightarrow> p\<lparr>sp_stratum_fee_bps := b\<rparr> | None \<Rightarrow> p)
      in p\<lparr>sp_fee_overrides := map_of (co_fee_overrides c)\<rparr>)"

definition save_carry :: "ext \<Rightarrow> shared \<Rightarrow> shared" where
  "save_carry x sh = sh\<lparr>sh_carry_file := carry_save (x_enc_carry x) (sh_carry sh)\<rparr>"

definition client_update :: "u64 \<Rightarrow> (client_info \<Rightarrow> client_info option) \<Rightarrow> shared \<Rightarrow> shared option" where
  "client_update cid f sh =
     (case sh_clients sh cid of
        None \<Rightarrow> Some sh
      | Some c \<Rightarrow> do { c \<leftarrow> f c; Some (sh\<lparr>sh_clients := (sh_clients sh)(cid \<mapsto> c)\<rparr>) })"

definition record_block :: "ext \<Rightarrow> block_record \<Rightarrow> shared \<Rightarrow> shared" where
  "record_block x r sh =
     (let sh = sh\<lparr>sh_block_log := log_append (x_enc_record x) r (sh_block_log sh)\<rparr>;
          b = sh_blocks sh @ [r]
      in sh\<lparr>sh_blocks := (if length b > 10000 then drop (length b - 10000) b else b)\<rparr>)"

text \<open>The first element that satisfies the test is changed; the search of the code runs from the end.\<close>

fun update_first :: "('a \<Rightarrow> bool) \<Rightarrow> ('a \<Rightarrow> 'a) \<Rightarrow> 'a list \<Rightarrow> ('a \<times> 'a list) option" where
  "update_first P f [] = None"
| "update_first P f (y # ys) =
     (if P y then Some (f y, f y # ys)
      else map_option (\<lambda>(z, zs). (z, y # zs)) (update_first P f ys))"

definition update_block ::
    "ext \<Rightarrow> string \<Rightarrow> (block_record \<Rightarrow> block_record) \<Rightarrow> shared \<Rightarrow> block_record option \<times> shared" where
  "update_block x hash f sh =
     (case update_first (\<lambda>r. br_hash r = hash) f (rev (sh_blocks sh)) of
        None \<Rightarrow> (None, sh)
      | Some (r, b) \<Rightarrow>
          (Some r, sh\<lparr>sh_blocks := rev b, sh_block_log := log_append (x_enc_record x) r (sh_block_log sh)\<rparr>))"

definition apply_carry_for_settled :: "ext \<Rightarrow> env \<Rightarrow> string \<Rightarrow> shared \<Rightarrow> shared" where
  "apply_carry_for_settled x en hash sh =
     (if \<not> cfg_carry_forward (en_cfg en) then sh
      else (case find (\<lambda>r. br_hash r = hash \<and> br_settled r \<and> \<not> br_carried r) (rev (sh_blocks sh)) of
        None \<Rightarrow> sh
      | Some r \<Rightarrow>
          let c = fold (\<lambda>(i, sats). carry_settle i sats) (br_carry_paid r) (sh_carry sh);
              c = fold (\<lambda>(i, sats). carry_add i sats) (br_unpaid r) c;
              sh = save_carry x (sh\<lparr>sh_carry := c\<rparr>)
          in snd (update_block x hash (\<lambda>r. r\<lparr>br_carried := True\<rparr>) sh)))"

section \<open>A share is credited once\<close>

definition seen_sizes :: "(u32, bytes list) btree \<Rightarrow> nat" where
  "seen_sizes m = (\<Sum>e\<leftarrow>m. length (snd e))"

definition seen_ok :: "seen_shares \<Rightarrow> bool" where
  "seen_ok s \<longleftrightarrow> bt_ok (ss_by_height s) \<and> ss_total s = seen_sizes (ss_by_height s) \<and> ss_total s \<le> MAX_TOTAL \<and>
     (\<forall>e \<in> set (ss_by_height s). distinct (snd e) \<and> length (snd e) \<le> MAX_PER_HEIGHT)"

definition credited :: "seen_shares \<Rightarrow> u32 \<Rightarrow> bytes list" where
  "credited s h = (case map_of (ss_by_height s) h of Some x \<Rightarrow> x | None \<Rightarrow> [])"

lemma seen_ok_new: "seen_ok seen_new"
  by (simp add: seen_ok_def seen_new_def seen_sizes_def)

lemma credited_ok: "seen_ok s \<Longrightarrow> distinct (credited s h) \<and> length (credited s h) \<le> MAX_PER_HEIGHT"
  by (auto simp: seen_ok_def credited_def split: option.splits dest!: map_of_SomeD)

lemma seen_put:
  assumes "seen_ok s"
  shows "bt_ok (bt_put h x (ss_by_height s)) \<and>
    seen_sizes (bt_put h x (ss_by_height s)) + length (credited s h) = ss_total s + length x \<and>
    map_of (bt_put h x (ss_by_height s)) = (map_of (ss_by_height s))(h \<mapsto> x)"
proof -
  have ok: "bt_ok (ss_by_height s)" and t: "ss_total s = seen_sizes (ss_by_height s)" using assms by (simp_all add: seen_ok_def)
  show ?thesis using bt.ok_put [OF ok] bt.get_put [OF ok] bt_put_sum [OF ok, of length h x] t
    by (simp add: seen_sizes_def credited_def split: option.splits)
qed

lemma seen_insert_ok:
  assumes ok: "seen_ok s" and r: "seen_insert s h x = (r, s')"
  shows "seen_ok s'" and "r = Duplicate \<longleftrightarrow> x \<in> set (credited s h)"
    and "credited s' k = (if r = Fresh \<and> k = h then x # credited s h else credited s k)"
proof -
  define s1 where "s1 = s\<lparr>ss_by_height := bt_put h (credited s h) (ss_by_height s)\<rparr>"
  note c = credited_ok [OF ok, of h]
  note p1 = seen_put [OF ok, of h "credited s h"]
  have old: "\<forall>e \<in> set (ss_by_height s). distinct (snd e) \<and> length (snd e) \<le> MAX_PER_HEIGHT" and
    b: "bt_ok (ss_by_height s)" and m: "ss_total s \<le> MAX_TOTAL" using ok unfolding seen_ok_def by blast+
  have ok1: "seen_ok s1"
    unfolding seen_ok_def using p1 c old m bt_put_set [OF b] by (simp add: s1_def)
  have c1: "credited s1 k = credited s k" for k using p1 by (simp add: s1_def credited_def split: option.splits)
  have e: "seen_insert s h x =
     (if x \<in> set (credited s h) then (Duplicate, s1)
      else if length (credited s h) \<ge> MAX_PER_HEIGHT \<or> ss_total s \<ge> MAX_TOTAL then (Full, s1)
      else (Fresh, s1\<lparr>ss_by_height := bt_put h (x # credited s h) (ss_by_height s1), ss_total := ss_total s1 + 1\<rparr>))"
    by (simp add: seen_insert_def Let_def s1_def credited_def)
  note p2 = seen_put [OF ok1, of h "x # credited s h"]
  have old1: "\<forall>e \<in> set (ss_by_height s1). distinct (snd e) \<and> length (snd e) \<le> MAX_PER_HEIGHT" and
    b1: "bt_ok (ss_by_height s1)" using ok1 unfolding seen_ok_def by blast+
  show "r = Duplicate \<longleftrightarrow> x \<in> set (credited s h)" using r e by (auto split: if_splits)
  show "seen_ok s'"
  proof (cases "r = Fresh")
    case True
    then have s': "s' = s1\<lparr>ss_by_height := bt_put h (x # credited s h) (ss_by_height s1), ss_total := ss_total s1 + 1\<rparr>"
      and n: "x \<notin> set (credited s h)" "length (credited s h) < MAX_PER_HEIGHT" "ss_total s < MAX_TOTAL"
      using r e by (auto split: if_splits)
    have "ss_total s1 = ss_total s" by (simp add: s1_def)
    then show ?thesis unfolding seen_ok_def s' using p2 c n old1 bt_put_set [OF b1] by (simp add: c1)
  next
    case False
    then have "s' = s1" using r e by (auto split: if_splits)
    then show ?thesis using ok1 by simp
  qed
  show "credited s' k = (if r = Fresh \<and> k = h then x # credited s h else credited s k)"
  proof (cases "r = Fresh")
    case True
    then have "ss_by_height s' = bt_put h (x # credited s h) (ss_by_height s1)" using r e by (auto split: if_splits)
    then have "map_of (ss_by_height s') = (map_of (ss_by_height s1))(h \<mapsto> x # credited s h)" using p2 by simp
    then show ?thesis using True c1 [of k] by (simp add: credited_def split: option.splits)
  next
    case False
    then have "s' = s1" using r e by (auto split: if_splits)
    then show ?thesis using False c1 by simp
  qed
qed

lemma prune_entries_ok:
  "bt_ok m \<Longrightarrow> seen_sizes m = n \<Longrightarrow>
    prune_entries low m n = Some (filter (\<lambda>e. low \<le> fst e) m, seen_sizes (filter (\<lambda>e. low \<le> fst e) m))"
proof (induction m arbitrary: n)
  case (Cons e m)
  obtain h hs where e: "e = (h, hs)" by fastforce
  show ?case
  proof (cases "low \<le> h")
    case True
    then have "\<forall>k \<in> set m. low \<le> fst k" using Cons.prems(1) by (force simp: e)
    then show ?thesis using True Cons.prems(2) by (simp add: e)
  next
    case False
    then show ?thesis using Cons.IH [of "seen_sizes m"] Cons.prems by (auto simp: e seen_sizes_def)
  qed
qed (simp add: seen_sizes_def)

lemma filter_sum_le: "(\<Sum>e\<leftarrow>filter P m. f e) \<le> (\<Sum>e\<leftarrow>m. f e :: nat)"
  by (induction m) auto

lemma prune_below_ok:
  assumes "seen_ok s"
  shows "\<exists>s'. prune_below low s = Some s' \<and> seen_ok s' \<and> (\<forall>h \<ge> low. credited s' h = credited s h)"
proof -
  have ok: "bt_ok (ss_by_height s)" and t: "seen_sizes (ss_by_height s) = ss_total s" using assms by (simp_all add: seen_ok_def)
  let ?m = "filter (\<lambda>e. low \<le> fst e) (ss_by_height s)"
  have b: "bt_ok ?m" using ok by (simp add: bt_ok_def sorted_wrt_map sorted_wrt_filter)
  have "seen_sizes ?m \<le> seen_sizes (ss_by_height s)" unfolding seen_sizes_def by (rule filter_sum_le)
  moreover have "map_of ?m h = map_of (ss_by_height s) h" if "low \<le> h" for h
    using that by (rule map_of_filter_key)
  ultimately show ?thesis
    using prune_entries_ok [OF ok t, of low] assms b t by (auto simp: prune_below_def seen_ok_def credited_def)
qed

datatype seen_op = Insert u32 bytes | Prune u32

text \<open>How often one share was found fresh in a history of insertions and prunings.\<close>

fun count_fresh :: "u32 \<Rightarrow> bytes \<Rightarrow> seen_op list \<Rightarrow> seen_shares \<Rightarrow> (nat \<times> seen_shares) option" where
  "count_fresh h x [] s = Some (0, s)"
| "count_fresh h x (Insert k y # ops) s =
     (let (r, s) = seen_insert s k y in
      map_option (\<lambda>(n, s). (n + (if r = Fresh \<and> k = h \<and> y = x then 1 else 0), s)) (count_fresh h x ops s))"
| "count_fresh h x (Prune low # ops) s = Option.bind (prune_below low s) (count_fresh h x ops)"

lemma count_fresh_ok:
  assumes "seen_ok s" and "list_all (\<lambda>op. case op of Prune low \<Rightarrow> low \<le> h | Insert k y \<Rightarrow> True) ops"
  shows "\<exists>n s'. count_fresh h x ops s = Some (n, s') \<and> seen_ok s' \<and> n \<le> 1 \<and> (x \<in> set (credited s h) \<longrightarrow> n = 0)"
  using assms
proof (induction ops arbitrary: s)
  case (Cons op ops)
  have rest: "list_all (\<lambda>op. case op of Prune low \<Rightarrow> low \<le> h | Insert k y \<Rightarrow> True) ops" using Cons.prems(2) by simp
  show ?case
  proof (cases op)
    case (Insert k y)
    obtain r s1 where i: "seen_insert s k y = (r, s1)" by fastforce
    note sp = seen_insert_ok [OF Cons.prems(1) i]
    obtain n s' where n: "count_fresh h x ops s1 = Some (n, s')" "seen_ok s'" "n \<le> 1" "x \<in> set (credited s1 h) \<longrightarrow> n = 0"
      using Cons.IH [OF sp(1) rest] by blast
    show ?thesis
    proof (cases "r = Fresh \<and> k = h \<and> y = x")
      case True
      then have "x \<in> set (credited s1 h)" "x \<notin> set (credited s h)" using sp(2) sp(3) [of h] by auto
      then show ?thesis using n True i by (auto simp: Insert)
    next
      case False
      have "x \<in> set (credited s h) \<longrightarrow> x \<in> set (credited s1 h)" using sp(3) [of h] by auto
      then show ?thesis using n False by (auto simp: Insert i)
    qed
  next
    case (Prune low)
    then have "low \<le> h" using Cons.prems(2) by simp
    then obtain s1 where "prune_below low s = Some s1" "seen_ok s1" "credited s1 h = credited s h"
      using prune_below_ok [OF Cons.prems(1), of low] by blast
    then show ?thesis using Cons.IH [of s1] rest by (simp add: Prune)
  qed
qed simp



section \<open>Connections\<close>

datatype conn_op = Admit ip | Release ip

text \<open>
  The sessions that are open, beside the table: an admitted connection opens one, and a release
  closes one that is open, since its slot is dropped with the session.
\<close>

fun conn_run :: "u32 \<Rightarrow> u32 \<Rightarrow> conn_op list \<Rightarrow> connections \<times> ip list \<Rightarrow> (connections \<times> ip list) option" where
  "conn_run mt mi [] (c, live) = Some (c, live)"
| "conn_run mt mi (Admit a # ops) (c, live) = do {
     (r, c) \<leftarrow> admit c a mt mi;
     conn_run mt mi ops (c, case r of Inl _ \<Rightarrow> live | Inr _ \<Rightarrow> a # live)
   }"
| "conn_run mt mi (Release a # ops) (c, live) =
     (if a \<in> set live then conn_run mt mi ops (release c a, remove1 a live) else conn_run mt mi ops (c, live))"

definition slots_of :: "connections \<Rightarrow> ip \<Rightarrow> nat" where
  "slots_of c a = (case cn_per_ip c a of Some n \<Rightarrow> unat n | None \<Rightarrow> 0)"

definition conn_ok :: "u32 \<Rightarrow> u32 \<Rightarrow> connections \<Rightarrow> ip list \<Rightarrow> bool" where
  "conn_ok mt mi c live \<longleftrightarrow> unat (cn_total c) = length live \<and> length live \<le> unat mt \<and>
     (\<forall>a. slots_of c a = count_list live a \<and> count_list live a \<le> unat mi)"

lemma admit_ok:
  assumes "conn_ok mt mi c live"
  shows "\<exists>r c'. admit c a mt mi = Some (r, c') \<and> conn_ok mt mi c' (case r of Inl _ \<Rightarrow> live | Inr _ \<Rightarrow> a # live) \<and>
    (isl r \<longleftrightarrow> length live = unat mt \<or> count_list live a = unat mi)"
proof -
  note ok = assms [unfolded conn_ok_def]
  define n where "n = (case cn_per_ip c a of Some n \<Rightarrow> n | None \<Rightarrow> 0)"
  have "slots_of c a = count_list live a" using ok by blast
  then have n: "unat n = count_list live a" by (cases "cn_per_ip c a") (simp_all add: slots_of_def n_def)
  show ?thesis
  proof (cases "mt \<le> cn_total c")
    case True
    then show ?thesis using ok assms by (simp add: admit_def word_le_nat_alt)
  next
    case False
    let ?c = "c\<lparr>cn_per_ip := (cn_per_ip c)(a \<mapsto> n)\<rparr>"
    have ok1: "conn_ok mt mi ?c live" using ok n by (auto simp: conn_ok_def slots_of_def)
    have total: "unat (cn_total c) < unat mt" using False by (simp add: word_le_nat_alt)
    show ?thesis
    proof (cases "mi \<le> n")
      case True
      have "count_list live a = unat mi" using True n ok by (metis le_antisym word_le_nat_alt)
      then show ?thesis using True False ok1 by (simp add: admit_def Let_def n_def [symmetric])
    next
      case lt: False
      obtain n1 where n1: "checked_add n 1 = Some n1" "unat n1 = unat n + 1"
        using checked_ex(1) [of n 1] lt unat_lt [of mi] by (auto simp: word_le_nat_alt)
      obtain t1 where t1: "checked_add (cn_total c) 1 = Some t1" "unat t1 = unat (cn_total c) + 1"
        using checked_ex(1) [of "cn_total c" 1] total unat_lt [of mt] by auto
      have "admit c a mt mi = Some (Inr (), c\<lparr>cn_per_ip := (cn_per_ip c)(a \<mapsto> n1), cn_total := t1\<rparr>)"
        using False lt n1 t1 by (simp add: admit_def Let_def n_def [symmetric])
      moreover have "conn_ok mt mi (c\<lparr>cn_per_ip := (cn_per_ip c)(a \<mapsto> n1), cn_total := t1\<rparr>) (a # live)"
        using ok n n1 t1 total lt by (auto simp: conn_ok_def slots_of_def word_le_nat_alt)
      moreover have "length live < unat mt" "count_list live a < unat mi" using ok n total lt by (simp_all add: word_le_nat_alt)
      ultimately show ?thesis by auto
    qed
  qed
qed

lemma count_list_remove1: "count_list (remove1 a xs) b = count_list xs b - (if a = b then 1 else 0)"
  by (induction xs) (auto simp: count_list_0_iff)

lemma release_ok:
  assumes "conn_ok mt mi c live" and "a \<in> set live"
  shows "conn_ok mt mi (release c a) (remove1 a live)"
proof -
  note ok = assms(1) [unfolded conn_ok_def]
  have "count_list live a \<noteq> 0" using assms(2) by (simp add: count_list_0_iff)
  then have "slots_of c a \<noteq> 0" using ok by metis
  moreover have "slots_of c a = count_list live a" using ok by blast
  ultimately obtain n where n: "cn_per_ip c a = Some n" "unat n = count_list live a"
    by (cases "cn_per_ip c a") (simp_all add: slots_of_def)
  have s: "slots_of (release c a) b = slots_of c b - (if a = b then 1 else 0)" for b
    using n unat_sat_sub [of n 1] by (auto simp: release_def Let_def slots_of_def word_unat_eq_iff)
  have t: "unat (cn_total (release c a)) = unat (cn_total c) - 1"
    using n(1) by (simp add: release_def Let_def unat_sat_sub)
  show ?thesis
    unfolding conn_ok_def using ok s t assms(2) count_list_remove1 [of a live]
    by (simp add: length_remove1 diff_le_mono2 le_diff_conv trans_le_add1)
qed

lemma conn_run_ok: "conn_ok mt mi c live \<Longrightarrow> \<exists>c' live'. conn_run mt mi ops (c, live) = Some (c', live') \<and> conn_ok mt mi c' live'"
proof (induction ops arbitrary: c live)
  case (Cons op ops)
  show ?case
  proof (cases op)
    case (Admit a)
    obtain r c' where "admit c a mt mi = Some (r, c')" "conn_ok mt mi c' (case r of Inl _ \<Rightarrow> live | Inr _ \<Rightarrow> a # live)"
      using admit_ok [OF Cons.prems, of a] by blast
    then show ?thesis using Cons.IH by (simp add: Admit)
  next
    case (Release a)
    then show ?thesis using Cons.IH [OF release_ok [OF Cons.prems, of a]] Cons.IH [OF Cons.prems] by simp
  qed
qed simp

text \<open>
  The connection limits are exact.  In every history of admissions and releases the counts never
  overflow and are the numbers of open sessions, in total and of each address; neither limit is
  ever exceeded, and an admission is refused just when one of them is reached.
\<close>

theorem connections_exact:
  "\<exists>c live. conn_run mt mi ops (connections_new, []) = Some (c, live) \<and>
     unat (cn_total c) = length live \<and> length live \<le> unat mt \<and>
     (\<forall>a. slots_of c a = count_list live a \<and> count_list live a \<le> unat mi \<and>
       (\<exists>r c'. admit c a mt mi = Some (r, c') \<and> (isl r \<longleftrightarrow> length live = unat mt \<or> count_list live a = unat mi)))"
proof -
  have "conn_ok mt mi connections_new []" by (simp add: conn_ok_def connections_new_def slots_of_def)
  from conn_run_ok [OF this] obtain c live where
    r: "conn_run mt mi ops (connections_new, []) = Some (c, live)" and ok: "conn_ok mt mi c live" by blast
  show ?thesis using r ok [unfolded conn_ok_def] admit_ok [OF ok] by blast
qed

section \<open>Worker rates\<close>

fun credit_all :: "workers \<Rightarrow> string \<Rightarrow> string \<Rightarrow> string \<Rightarrow> (u64 \<times> u64) list \<Rightarrow> workers option" where
  "credit_all w i k g [] = Some w"
| "credit_all w i k g ((ts, work) # es) = Option.bind (credit_worker w i k g work ts) (\<lambda>w. credit_all w i k g es)"

lemma drop_old_sorted:
  "sorted (map fst es) \<Longrightarrow> drop_old ts es = filter (\<lambda>e. sat_sub ts (fst e) \<le> WORKER_RATE_S) es"
proof (induction es)
  case (Cons e es)
  show ?case
  proof (cases "sat_sub ts (fst e) \<le> WORKER_RATE_S")
    case True
    have "sat_sub ts (fst x) \<le> WORKER_RATE_S" if "x \<in> set es" for x
    proof -
      have "fst e \<le> fst x" using Cons.prems that by auto
      then have "unat (sat_sub ts (fst x)) \<le> unat (sat_sub ts (fst e))" by (simp add: unat_sat_sub word_le_nat_alt)
      then show ?thesis using True by (simp add: word_le_nat_alt)
    qed
    then have "filter (\<lambda>e. sat_sub ts (fst e) \<le> WORKER_RATE_S) es = es" by simp
    then show ?thesis using True by (simp add: drop_old_def case_prod_unfold)
  next
    case False
    then show ?thesis using Cons by (simp add: drop_old_def case_prod_unfold)
  qed
qed (simp add: drop_old_def)

lemma recent_step:
  assumes "sorted (map fst (es @ [(ts, work)]))" and "last_ts \<le> ts"
  shows "drop_old ts (filter (\<lambda>e. sat_sub last_ts (fst e) \<le> WORKER_RATE_S) es @ [(ts, work)]) =
    filter (\<lambda>e. sat_sub ts (fst e) \<le> WORKER_RATE_S) (es @ [(ts, work)])"
proof -
  let ?f = "filter (\<lambda>e. sat_sub last_ts (fst e) \<le> WORKER_RATE_S) es"
  have s: "sorted (map fst (?f @ [(ts, work)]))"
    using assms(1) sorted_filter [of fst es] by (auto simp: sorted_append)
  have "sat_sub last_ts (fst e) \<le> WORKER_RATE_S" if "sat_sub ts (fst e) \<le> WORKER_RATE_S" for e :: "u64 \<times> u64"
  proof -
    have "unat (sat_sub last_ts (fst e)) \<le> unat (sat_sub ts (fst e))"
      using assms(2) by (simp add: unat_sat_sub word_le_nat_alt diff_le_mono)
    then show ?thesis using that by (simp add: word_le_nat_alt)
  qed
  then have "filter (\<lambda>e. sat_sub ts (fst e) \<le> WORKER_RATE_S) ?f = filter (\<lambda>e. sat_sub ts (fst e) \<le> WORKER_RATE_S) es"
    by (auto simp: filter_filter intro: filter_cong)
  then show ?thesis using drop_old_sorted [OF s, of ts] by simp
qed

definition worker_holds :: "workers \<Rightarrow> string \<Rightarrow> string \<Rightarrow> string \<Rightarrow> (u64 \<times> u64) list \<Rightarrow> bool" where
  "worker_holds w i k g es \<longleftrightarrow> (\<exists>e. w (i, k) = Some e \<and> ws_gateway e = g \<and> unat (ws_accepted e) = length es \<and>
     unat (ws_work e) = (\<Sum>c\<leftarrow>es. unat (snd c)) \<and> ws_last_share_ts e = fst (last es) \<and>
     ws_recent e = filter (\<lambda>c. sat_sub (fst (last es)) (fst c) \<le> WORKER_RATE_S) es)"

lemma credit_all_holds:
  assumes "worker_holds w i k g es" "es \<noteq> []" and "sorted (map fst (es @ new))"
    and "length (es @ new) < 2 ^ 64" and "(\<Sum>c\<leftarrow>es @ new. unat (snd c)) < 2 ^ 64"
  shows "\<exists>w'. credit_all w i k g new = Some w' \<and> worker_holds w' i k g (es @ new) \<and>
    (\<forall>key. key \<noteq> (i, k) \<longrightarrow> w' key = w key)"
  using assms
proof (induction new arbitrary: w es)
  case (Cons c new)
  obtain ts work where c: "c = (ts, work)" by fastforce
  obtain e where e: "w (i, k) = Some e" "ws_gateway e = g" "unat (ws_accepted e) = length es"
      "unat (ws_work e) = (\<Sum>c\<leftarrow>es. unat (snd c))" "ws_last_share_ts e = fst (last es)"
      "ws_recent e = filter (\<lambda>c. sat_sub (fst (last es)) (fst c) \<le> WORKER_RATE_S) es"
    using Cons.prems(1) by (auto simp: worker_holds_def)
  obtain a where a: "checked_add (ws_accepted e) 1 = Some a" "unat a = length es + 1"
    using checked_ex(1) [of "ws_accepted e" 1] e(3) Cons.prems(4) by auto
  obtain t where t: "checked_add (ws_work e) work = Some t" "unat t = (\<Sum>c\<leftarrow>es. unat (snd c)) + unat work"
    using checked_ex(1) [of "ws_work e" work] e(4) Cons.prems(5) by (auto simp: c)
  have s: "sorted (map fst (es @ [(ts, work)]))" using Cons.prems(3) by (simp add: c sorted_append)
  have "fst (last es) \<le> ts" using s Cons.prems(2) by (simp add: sorted_append)
  note r = recent_step [OF s this]
  let ?w = "w((i, k) \<mapsto> \<lparr>ws_gateway = g, ws_accepted = a, ws_work = t, ws_last_share_ts = ts,
    ws_recent = drop_old ts (ws_recent e @ [(ts, work)])\<rparr>)"
  have step: "credit_worker w i k g work ts = Some ?w" using e(1) a t by (simp add: credit_worker_def)
  have "worker_holds ?w i k g (es @ [c])" using a t r by (simp add: worker_holds_def c e(6))
  moreover have "sorted (map fst ((es @ [c]) @ new))" "length ((es @ [c]) @ new) < 2 ^ 64"
      "(\<Sum>c\<leftarrow>(es @ [c]) @ new. unat (snd c)) < 2 ^ 64" using Cons.prems(3-5) by simp_all
  ultimately obtain w' where "credit_all ?w i k g new = Some w'" "worker_holds w' i k g ((es @ [c]) @ new)"
      "\<forall>key. key \<noteq> (i, k) \<longrightarrow> w' key = ?w key" using Cons.IH [of ?w "es @ [c]"] by blast
  then show ?case using step by (auto simp: c)
qed simp

text \<open>
  The worker table is the exact account of a worker's shares.  After any run of credits in time
  order, the worker's count and work are those of all of them, the rate window is those of the last
  600 seconds before the newest, and no other worker's row has changed.
\<close>

theorem worker_window_exact:
  assumes "w (i, k) = None" and "es \<noteq> []" and "sorted (map fst es)"
    and "length es < 2 ^ 64" and "(\<Sum>c\<leftarrow>es. unat (snd c)) < 2 ^ 64"
  shows "\<exists>w'. credit_all w i k g es = Some w' \<and> worker_holds w' i k g es \<and> (\<forall>key. key \<noteq> (i, k) \<longrightarrow> w' key = w key)"
proof -
  obtain ts work new where es: "es = (ts, work) # new" using assms(2) by (cases es) auto
  let ?w = "w((i, k) \<mapsto> \<lparr>ws_gateway = g, ws_accepted = 1, ws_work = work, ws_last_share_ts = ts,
    ws_recent = drop_old ts [(ts, work)]\<rparr>)"
  have "checked_add (0 :: u64) 1 = Some 1" "checked_add 0 work = Some work" using unat_lt [of work] by (simp_all add: checked_add_def)
  then have step: "credit_worker w i k g work ts = Some ?w"
    using assms(1) by (simp add: credit_worker_def worker_default_def)
  have "sat_sub ts ts \<le> WORKER_RATE_S" by (simp add: sat_sub_def)
  then have "worker_holds ?w i k g [(ts, work)]" by (simp add: worker_holds_def drop_old_def)
  from credit_all_holds [OF this, of new] assms(3-5) obtain w' where
    "credit_all ?w i k g new = Some w'" "worker_holds w' i k g es" "\<forall>key. key \<noteq> (i, k) \<longrightarrow> w' key = ?w key"
    by (auto simp: es)
  then show ?thesis using step by (auto simp: es)
qed

theorem worker_window_exact_witness:
  "\<exists>w. credit_all Map.empty ''a'' ''rig'' ''gw'' [(100, 4), (650, 8), (900, 2)] = Some w \<and>
     map_option ws_recent (w (''a'', ''rig'')) = Some [(650, 8), (900, 2)]"
proof -
  have s: "sorted (map fst [(100 :: u64, 4 :: u64), (650, 8), (900, 2)])" by simp
  from worker_window_exact [where w = Map.empty and i = "''a''" and k = "''rig''" and g = "''gw''", OF _ _ s]
  show ?thesis by (auto simp: worker_holds_def sat_sub_def WORKER_RATE_S_def)
qed

section \<open>Settling a block once\<close>

lemma update_first_one:
  assumes "distinct (map g ys)" and "r \<in> set ys" and "g r = h"
  shows "\<exists>zs. update_first (\<lambda>y. g y = h) f ys = Some (f r, zs) \<and> zs = map (\<lambda>y. if g y = h then f y else y) ys"
  using assms
proof (induction ys)
  case (Cons y ys)
  show ?case
  proof (cases "g y = h")
    case True
    then have "y = r" using Cons.prems by (auto simp: image_iff)
    moreover have "g z \<noteq> h" if "z \<in> set ys" for z using Cons.prems(1) True that by (auto simp: image_iff)
    then have "map (\<lambda>y. if g y = h then f y else y) ys = ys" by (simp add: map_idI)
    ultimately show ?thesis using True by simp
  next
    case False
    then have "r \<in> set ys" using Cons.prems by auto
    then show ?thesis using Cons False by auto
  qed
qed simp

lemma find_one:
  assumes "distinct (map g ys)" and "r \<in> set ys" and "P r" and "\<And>y. P y \<Longrightarrow> g y = g r"
  shows "find P ys = Some r"
  using assms(1,2)
proof (induction ys)
  case (Cons y ys)
  show ?case
  proof (cases "P y")
    case True
    then have "g y = g r" by (rule assms(4))
    then have "y = r" using Cons.prems by (auto simp: image_iff)
    then show ?thesis using True by simp
  next
    case False
    then have "r \<in> set ys" using Cons.prems(2) assms(3) by auto
    then show ?thesis using Cons False by simp
  qed
qed simp

text \<open>The record of a block after it has been settled.\<close>

definition mark_carried :: "string \<Rightarrow> block_record list \<Rightarrow> block_record list" where
  "mark_carried h = map (\<lambda>r. if br_hash r = h then r\<lparr>br_carried := True\<rparr> else r)"

lemma mark_carried_done: "\<not> list_ex (\<lambda>r. br_hash r = h \<and> br_settled r \<and> \<not> br_carried r) (mark_carried h rs)"
  by (induction rs) (simp_all add: mark_carried_def)

lemma apply_carry_eq:
  assumes "cfg_carry_forward (en_cfg en)" and "distinct (map br_hash (sh_blocks sh))" and "r \<in> set (sh_blocks sh)"
    and "br_hash r = h" and "br_settled r" and "\<not> br_carried r"
  shows "apply_carry_for_settled x en h sh =
    (let c = add_all (br_unpaid r) (settle_all (br_carry_paid r) (sh_carry sh)) in
     sh\<lparr>sh_carry := c, sh_carry_file := Some (x_enc_carry x c), sh_blocks := mark_carried h (sh_blocks sh),
        sh_block_log := log_append (x_enc_record x) (r\<lparr>br_carried := True\<rparr>) (sh_block_log sh)\<rparr>)"
proof -
  let ?P = "\<lambda>r. br_hash r = h \<and> br_settled r \<and> \<not> br_carried r"
  have d: "distinct (map br_hash (rev (sh_blocks sh)))" "r \<in> set (rev (sh_blocks sh))"
    using assms(2,3) by (simp_all add: rev_map [symmetric])
  have f: "find ?P (rev (sh_blocks sh)) = Some r" by (rule find_one [OF d]) (use assms in auto)
  obtain zs where z: "update_first (\<lambda>r. br_hash r = h) (\<lambda>r. r\<lparr>br_carried := True\<rparr>) (rev (sh_blocks sh)) =
      Some (r\<lparr>br_carried := True\<rparr>, zs)" "rev zs = mark_carried h (sh_blocks sh)"
    using update_first_one [OF d assms(4), of "\<lambda>r. r\<lparr>br_carried := True\<rparr>"] by (auto simp: mark_carried_def rev_map)
  show ?thesis
    using assms(1) f z
    by (simp add: apply_carry_for_settled_def update_block_def save_carry_def carry_save_def Let_def
        settle_all_def add_all_def)
qed

lemma apply_carry_none:
  assumes "\<not> list_ex (\<lambda>r. br_hash r = h \<and> br_settled r \<and> \<not> br_carried r) (sh_blocks sh)"
  shows "apply_carry_for_settled x en h sh = sh"
proof -
  have "find (\<lambda>r. br_hash r = h \<and> br_settled r \<and> \<not> br_carried r) (rev (sh_blocks sh)) = None"
    using assms by (auto simp: find_None_iff list_ex_iff)
  then show ?thesis by (simp add: apply_carry_for_settled_def)
qed

text \<open>
  C15: A settled block moves its amounts into the carry ledger once.  With carry-forward on and one
  record per block, settling leaves every identity with what it was owed, less what this block paid of
  it, plus what this block could not pay; the new ledger is saved, the record is marked and logged, and
  settling the same block again changes nothing.
\<close>

theorem settled_block_carried_once:
  assumes "cfg_carry_forward (en_cfg en)" and "distinct (map br_hash (sh_blocks sh))" and "r \<in> set (sh_blocks sh)"
    and "br_hash r = h" and "br_settled r" and "\<not> br_carried r"
    and ok: "carry_ok (sh_carry sh)" and small: "\<And>i. owed (sh_carry sh) i + sum_for i (br_unpaid r) < 2 ^ 64"
  shows "let sh' = apply_carry_for_settled x en h sh in
    carry_ok (sh_carry sh') \<and>
    (\<forall>i. owed (sh_carry sh') i = owed (sh_carry sh) i - sum_for i (br_carry_paid r) + sum_for i (br_unpaid r)) \<and>
    sh_carry_file sh' = Some (x_enc_carry x (sh_carry sh')) \<and> sh_blocks sh' = mark_carried h (sh_blocks sh) \<and>
    apply_carry_for_settled x en h sh' = sh'"
proof -
  let ?c = "settle_all (br_carry_paid r) (sh_carry sh)"
  let ?sh = "apply_carry_for_settled x en h sh"
  note eq = apply_carry_eq [OF assms(1-6), of x, unfolded Let_def]
  have c: "carry_ok ?c" "owed ?c i = owed (sh_carry sh) i - sum_for i (br_carry_paid r)" for i
    using settle_all_owed [OF ok] by blast+
  have lt: "owed ?c i + sum_for i (br_unpaid r) < 2 ^ 64" for i using c(2) [of i] small [of i] by simp
  have a: "carry_ok (add_all (br_unpaid r) ?c)" "owed (add_all (br_unpaid r) ?c) i = owed ?c i + sum_for i (br_unpaid r)" for i
    using add_all_owed [OF c(1) lt] by blast+
  have sh: "sh_carry ?sh = add_all (br_unpaid r) ?c" "sh_blocks ?sh = mark_carried h (sh_blocks sh)"
      "sh_carry_file ?sh = Some (x_enc_carry x (sh_carry ?sh))" by (simp_all add: eq)
  have again: "apply_carry_for_settled x en h ?sh = ?sh"
    by (rule apply_carry_none) (unfold sh, rule mark_carried_done)
  show ?thesis
    unfolding Let_def
  proof (intro conjI allI)
    fix i
    show "owed (sh_carry ?sh) i = owed (sh_carry sh) i - sum_for i (br_carry_paid r) + sum_for i (br_unpaid r)"
      unfolding sh a(2) c(2) ..
    show "carry_ok (sh_carry ?sh)" unfolding sh by (rule a(1))
  qed (rule sh(3) sh(2) again)+
qed

definition demo_ext :: ext where
  "demo_ext = \<lparr>x_nacl = demo_nacl, x_sha256 = (\<lambda>_. replicate 32 0), x_blake2b = (\<lambda>_. replicate 32 0), x_bech32 = demo_bech32,
     x_base58 = (\<lambda>_. None), x_hex = bytes_str, x_to_vec = (\<lambda>_. []), x_enc_record = demo_enc_record,
     x_enc_carry = (\<lambda>c. concat (map (\<lambda>(i, s). str_bytes i @ [61] @ le64 s) c)), x_enc_meta = (\<lambda>_. []), x_show_addr = (\<lambda>_. [])\<rparr>"

definition demo_env :: env where
  "demo_env = \<lparr>en_cfg = demo_loaded, en_pool = \<lparr>ks_sign = replicate 32 1, ks_box = replicate 32 2\<rparr>,
     en_pool_script = [0, 20] @ replicate 20 9, en_network = Mainnet, en_base_split = base_split_of demo_loaded,
     en_started = 0, en_started_ts = 0\<rparr>"

definition demo_shared :: shared where
  "demo_shared = \<lparr>sh_controls = controls_default, sh_workers = Map.empty,
     sh_ledger = \<lparr>l_window = demo_window, l_credits_out = [], l_idents_out = [], l_rows_on_disk = 3, l_dirty = False\<rparr>,
     sh_disk = empty_disk, sh_carry = [(''ann'', 700)], sh_carry_file = None, sh_snapshots = Map.empty,
     sh_last_snapshot = '''', sh_blocks = [], sh_block_log = None, sh_clients = Map.empty, sh_seen = seen_new,
     sh_connections = connections_new, sh_tip = None,
     sh_totals = \<lparr>to_connections = 0, to_accepted = 0, to_rejected = 0, to_work = 0, to_coinbasers = 0,
       to_block_candidates = 0, to_blocks_submitted = 0, to_handshake_failures = 0, to_connections_refused = 0\<rparr>,
     sh_next_client_id = 1\<rparr>"

theorem settled_block_carried_once_witness:
  "\<exists>r. owed (sh_carry (apply_carry_for_settled demo_ext demo_env ''x'' (demo_shared\<lparr>sh_blocks := [r]\<rparr>))) ''ann'' = 240"
proof -
  let ?r = "(demo_record ''x'' 1)\<lparr>br_settled := True, br_carry_paid := [(''ann'', 500)], br_unpaid := [(''ann'', 40)]\<rparr>"
  let ?sh = "demo_shared\<lparr>sh_blocks := [?r]\<rparr>"
  have 1: "cfg_carry_forward (en_cfg demo_env)" "distinct (map br_hash (sh_blocks ?sh))" "?r \<in> set (sh_blocks ?sh)"
      "br_hash ?r = ''x''" "br_settled ?r" "\<not> br_carried ?r" "carry_ok (sh_carry ?sh)"
    by (simp_all add: demo_env_def demo_loaded_def demo_config_def demo_record_def demo_shared_def carry_ok_def)
  have "owed (sh_carry ?sh) i + sum_for i (br_unpaid ?r) < 2 ^ 64" for i
    by (simp add: demo_shared_def owed_def)
  from settled_block_carried_once [OF 1 this] show ?thesis
    by (intro exI [of _ ?r]) (simp add: Let_def demo_shared_def owed_def)
qed


section \<open>The split of the live window\<close>

lemma live_params:
  assumes "config_load toml exists contents = Inr (en_cfg en)" and "en_base_split en = base_split_of (en_cfg en)"
    and "controls_ok (sh_controls sh)"
  shows "bps_ok (live_split_params en sh) \<and> sp_max_outputs (live_split_params en sh) = 511 \<and>
    sp_output_budget_bytes (live_split_params en sh) = 13927"
proof -
  have f: "cfg_fee_bps (en_cfg en) \<le> 10000" "cfg_stratum_fee_bps (en_cfg en) \<le> 10000"
    using loaded_config [OF assms(1)] by simp_all
  have le: "unat b \<le> 10000" if "b \<le> 10000" for b :: u32 using that by (simp add: word_le_nat_alt)
  have o: "\<forall>b \<in> ran (map_of (co_fee_overrides (sh_controls sh))). unat b \<le> 10000"
    using assms(3) le by (auto simp: controls_ok_def ran_def)
  have c: "\<forall>b. co_fee_bps (sh_controls sh) = Some b \<longrightarrow> b \<le> 10000" "\<forall>b. co_stratum_fee_bps (sh_controls sh) = Some b \<longrightarrow> b \<le> 10000"
    using assms(3) by (simp_all add: controls_ok_def)
  show ?thesis
    using o c le f by (cases "co_fee_bps (sh_controls sh)"; cases "co_stratum_fee_bps (sh_controls sh)")
      (simp_all add: live_split_params_def bps_ok_def assms(2) base_split_of_def Let_def)
qed

lemma live_split:
  assumes "config_load toml exists contents = Inr (en_cfg en)" and "en_base_split en = base_split_of (en_cfg en)"
    and "controls_ok (sh_controls sh)" and inv: "window_inv w" and fits: "unat v * (10000 * unat (w_total_work w)) < 2 ^ 128"
  shows "\<exists>s. window_split_with_carry w v (live_split_params en sh) carry script_for = Some s \<and>
    sats_of (s_payees s) + unat (s_pool_sats s) = unat v \<and> length (s_payees s) \<le> 511 \<and> script_bytes (s_payees s) \<le> 13927"
proof -
  note p = live_params [OF assms(1-3)]
  obtain ms where m: "miners w = Some ms" "(\<Sum>m\<leftarrow>ms. unat (m_work m)) = unat (w_total_work w)"
    using miners_exact [OF inv] by blast
  have b: "split_bounds (live_split_params en sh) ms (w_total_work w) v"
    using p m(2) fits by (simp add: split_bounds_def stat_works_def)
  from split_conserved [OF b, of carry script_for] show ?thesis using p m(1) by (auto simp: window_split_with_carry_def)
qed

text \<open>
  C19: The configuration and the controls cannot make the split of the live window fail.  With a
  configuration that loaded, controls in force, a balanced window and an amount that fits, the split
  with any carry ledger is computed without panic, shares out exactly the amount, and stays within
  511 payees and the byte budget.
\<close>

theorem live_split_sound:
  assumes "config_load toml exists contents = Inr (en_cfg en)" and "en_base_split en = base_split_of (en_cfg en)"
    and "controls_ok (sh_controls sh)" and "window_inv w" and "unat v * (10000 * unat (w_total_work w)) < 2 ^ 128"
  shows "\<exists>s. window_split_with_carry w v (live_split_params en sh) carry script_for = Some s \<and>
    sats_of (s_payees s) + unat (s_pool_sats s) = unat v \<and> length (s_payees s) \<le> 511 \<and> script_bytes (s_payees s) \<le> 13927"
  using assms by (rule live_split)

theorem live_split_sound_witness:
  "\<exists>s. window_split_with_carry demo_window 312500000 (live_split_params demo_env demo_shared) [(''ann'', 700)]
       (\<lambda>i. Some [0, 20, 1]) = Some s \<and> sats_of (s_payees s) + unat (s_pool_sats s) = 312500000"
proof -
  have 1: "config_load (\<lambda>_. Some demo_config) (\<lambda>_. False) (Some '''') = Inr (en_cfg demo_env)"
      "en_base_split demo_env = base_split_of (en_cfg demo_env)" "controls_ok (sh_controls demo_shared)"
    by (simp_all add: demo_loads demo_env_def demo_shared_def controls_ok_def controls_default_def)
  have 2: "unat (312500000 :: u64) * (10000 * unat (w_total_work demo_window)) < 2 ^ 128" by (simp add: demo_window_def)
  from live_split_sound [OF 1 demo_window_inv(1) 2, of "[(''ann'', 700)]" "\<lambda>i. Some [0, 20, 1]"] show ?thesis by auto
qed

end
