(* ===== verification/Framing.thy ===== *)
theory Framing
  imports Frame
begin

text \<open>
  Cutting frames out of the byte stream of a session (\<open>InBuf\<close> and the read arm of \<open>Session::serve\<close>
  in \<open>primed/src/session.rs\<close>): the receive buffer, the header that waits for its payload, and the
  loop that hands complete frames to the session.  The handler is an argument, so that the loop can
  be stated once for every session.  Shown: however the network cuts the stream into pieces, the
  handler sees the same frames in the same order.
\<close>

section \<open>Errors of a session\<close>

datatype session_error =
    Io
  | Wire wire_error
  | Bad string
  | Handshake_timeout
  | Idle
  | Reject_flood nat nat

section \<open>The receive buffer\<close>

record inbuf =
  ib_data :: bytes
  ib_pos :: nat

definition inbuf_default :: inbuf where
  "inbuf_default = \<lparr>ib_data = [], ib_pos = 0\<rparr>"

definition inbuf_take :: "nat \<Rightarrow> inbuf \<Rightarrow> (bytes \<times> inbuf) option" where
  "inbuf_take n b =
     (if length (ib_data b) - ib_pos b < n then None
      else Some (take n (drop (ib_pos b) (ib_data b)), b\<lparr>ib_pos := ib_pos b + n\<rparr>))"

text \<open>The reserved capacity is not part of the model.\<close>

definition make_room :: "inbuf \<Rightarrow> inbuf" where
  "make_room b =
     (if 0 < ib_pos b \<and> length (ib_data b) div 2 \<le> ib_pos b
      then \<lparr>ib_data = drop (ib_pos b) (ib_data b), ib_pos = 0\<rparr> else b)"

section \<open>The read loop\<close>

text \<open>What \<open>serve\<close> keeps of the stream: the buffer, the header read ahead, and the receive keys.\<close>

record intake =
  in_buf :: inbuf
  in_pending :: "header option"
  in_keys :: u32

definition next_header :: "intake \<Rightarrow> (session_error + header option) \<times> intake" where
  "next_header i =
     (case in_pending i of
        Some h \<Rightarrow> (Inr (Some h), i)
      | None \<Rightarrow>
          (case inbuf_take HEADER_SIZE (in_buf i) of
             None \<Rightarrow> (Inr None, i)
           | Some (hb, b) \<Rightarrow>
               let (r, keys) = header_decode hb (in_keys i); i = i\<lparr>in_buf := b, in_keys := keys\<rparr> in
               case r of
                 Inl e \<Rightarrow> (Inl (Wire e), i)
               | Inr h \<Rightarrow>
                   if MAX_CMD_LEN < unat (h_len h) then (Inl (Bad ''frame too large''), i)
                   else (Inr (Some h), i\<lparr>in_pending := Some h\<rparr>)))"

text \<open>The next complete frame, if its header and its payload are there.\<close>

definition next_frame :: "intake \<Rightarrow> (session_error + (header \<times> bytes) option) \<times> intake" where
  "next_frame i =
     (case next_header i of
        (Inl e, i) \<Rightarrow> (Inl e, i)
      | (Inr None, i) \<Rightarrow> (Inr None, i)
      | (Inr (Some h), i) \<Rightarrow>
          (case inbuf_take (unat (h_len h)) (in_buf i) of
             None \<Rightarrow> (Inr None, i)
           | Some (payload, b) \<Rightarrow> (Inr (Some (h, payload)), i\<lparr>in_buf := b, in_pending := None\<rparr>)))"

definition unread :: "intake \<Rightarrow> bytes" where
  "unread i = drop (ib_pos (in_buf i)) (ib_data (in_buf i))"

lemma inbuf_take_unread:
  "inbuf_take n (in_buf i) = (if length (unread i) < n then None
     else Some (take n (unread i), (in_buf i)\<lparr>ib_pos := ib_pos (in_buf i) + n\<rparr>))"
  by (simp add: inbuf_take_def unread_def)

definition backlog :: "intake \<Rightarrow> nat" where
  "backlog i = length (unread i) + (if in_pending i = None then 0 else 1)"

lemma next_frame_less: "next_frame i = (Inr (Some f), i') \<Longrightarrow> backlog i' < backlog i"
  by (auto simp: next_frame_def next_header_def inbuf_take_unread backlog_def unread_def HEADER_SIZE_def Let_def
      split: option.splits if_splits prod.splits sum.splits)

text \<open>The loop hands complete frames to the handler until one is missing or the session must end.\<close>

function read_frames ::
    "(header \<Rightarrow> bytes \<Rightarrow> 'r \<Rightarrow> ((session_error + unit) \<times> 'r) option) \<Rightarrow> intake \<Rightarrow> 'r \<Rightarrow>
       ((session_error + unit) \<times> intake \<times> 'r) option" where
  "read_frames handle i r =
     (case next_frame i of
        (Inl e, i') \<Rightarrow> Some (Inl e, i', r)
      | (Inr None, i') \<Rightarrow> Some (Inr (), i', r)
      | (Inr (Some (h, payload)), i') \<Rightarrow>
          (case handle h payload r of
             None \<Rightarrow> None
           | Some (Inl e, r) \<Rightarrow> Some (Inl e, i', r)
           | Some (Inr _, r) \<Rightarrow> read_frames handle i' r))"
  by pat_completeness auto
termination
  by (relation "measure (\<lambda>(_, i, _). backlog i)") (auto intro: next_frame_less [OF sym])

declare read_frames.simps [simp del]

text \<open>The read arm: room is made, the bytes that arrived are appended, and the frames are read.\<close>

definition deliver :: "bytes \<Rightarrow> intake \<Rightarrow> intake" where
  "deliver bs i = (let b = make_room (in_buf i) in i\<lparr>in_buf := b\<lparr>ib_data := ib_data b @ bs\<rparr>\<rparr>)"

definition receive ::
    "(header \<Rightarrow> bytes \<Rightarrow> 'r \<Rightarrow> ((session_error + unit) \<times> 'r) option) \<Rightarrow> bytes \<Rightarrow> intake \<Rightarrow> 'r \<Rightarrow>
       ((session_error + unit) \<times> intake \<times> 'r) option" where
  "receive handle bs i r =
     read_frames handle (deliver bs i) r"

section \<open>The frames do not depend on how the bytes arrive\<close>

text \<open>Only the unread bytes, the waiting header and the keys matter.\<close>

definition intake_ok :: "intake \<Rightarrow> bool" where
  "intake_ok i \<longleftrightarrow> ib_pos (in_buf i) \<le> length (ib_data (in_buf i))"

definition intake_of :: "bytes \<Rightarrow> header option \<Rightarrow> u32 \<Rightarrow> intake" where
  "intake_of bs h k = \<lparr>in_buf = \<lparr>ib_data = bs, ib_pos = 0\<rparr>, in_pending = h, in_keys = k\<rparr>"

definition compacted :: "intake \<Rightarrow> intake" where
  "compacted i = intake_of (unread i) (in_pending i) (in_keys i)"

lemma unread_of [simp]: "unread (intake_of bs h k) = bs" "in_pending (intake_of bs h k) = h" "in_keys (intake_of bs h k) = k"
    "intake_ok (intake_of bs h k)"
  by (simp_all add: intake_of_def unread_def intake_ok_def)

lemma compacted_eq: "compacted i = compacted j \<longleftrightarrow> unread i = unread j \<and> in_pending i = in_pending j \<and> in_keys i = in_keys j"
  by (simp add: compacted_def intake_of_def)

lemma compacted_of [simp]: "compacted (intake_of bs h k) = intake_of bs h k"
  by (simp add: compacted_def)

text \<open>The specification of one frame, on the bytes alone.\<close>

definition payload_at :: "bytes \<Rightarrow> header \<Rightarrow> u32 \<Rightarrow> (session_error + (header \<times> bytes) option) \<times> bytes \<times> header option \<times> u32" where
  "payload_at bs h k =
     (let n = unat (h_len h) in
      if length bs < n then (Inr None, bs, Some h, k) else (Inr (Some (h, take n bs)), drop n bs, None, k))"

definition frame_at ::
    "bytes \<Rightarrow> header option \<Rightarrow> u32 \<Rightarrow> (session_error + (header \<times> bytes) option) \<times> bytes \<times> header option \<times> u32" where
  "frame_at bs waiting k =
     (case waiting of
        Some h \<Rightarrow> payload_at bs h k
      | None \<Rightarrow>
          if length bs < HEADER_SIZE then (Inr None, bs, None, k)
          else case header_decode (take HEADER_SIZE bs) k of
            (Inl e, k) \<Rightarrow> (Inl (Wire e), drop HEADER_SIZE bs, None, k)
          | (Inr h, k) \<Rightarrow>
              if MAX_CMD_LEN < unat (h_len h) then (Inl (Bad ''frame too large''), drop HEADER_SIZE bs, None, k)
              else payload_at (drop HEADER_SIZE bs) h k)"

lemmas frame_at_defs = frame_at_def payload_at_def Let_def

lemma next_frame_at:
  "intake_ok i \<Longrightarrow> next_frame i = (q, i') \<Longrightarrow>
     frame_at (unread i) (in_pending i) (in_keys i) = (q, unread i', in_pending i', in_keys i') \<and> intake_ok i'"
  by (cases "in_pending i")
    (auto simp: next_frame_def next_header_def inbuf_take_unread intake_ok_def unread_def HEADER_SIZE_def frame_at_defs add.commute
      split: option.splits if_splits prod.splits sum.splits)

lemma payload_at_more:
  "payload_at bs h k = (q, bs', h', k') \<Longrightarrow>
     payload_at (bs @ cs) h k = (if q = Inr None then payload_at (bs @ cs) h k else (q, bs' @ cs, h', k')) \<and>
     (q = Inr None \<longrightarrow> bs' = bs \<and> h' = Some h \<and> k' = k)"
  by (auto simp: payload_at_def Let_def split: if_splits)

lemma frame_at_more:
  assumes "frame_at bs h k = (q, bs', h', k')"
  shows "frame_at (bs @ cs) h k = (if q = Inr None then frame_at (bs' @ cs) h' k' else (q, bs' @ cs, h', k'))"
proof (cases h)
  case (Some h1)
  with assms payload_at_more [of bs h1 k q bs' h' k' cs] show ?thesis by (auto simp: frame_at_def)
next
  case None
  show ?thesis
  proof (cases "length bs < HEADER_SIZE")
    case True
    then show ?thesis using assms None by (auto simp: frame_at_def)
  next
    case False
    obtain r k1 where d: "header_decode (take HEADER_SIZE bs) k = (r, k1)" by fastforce
    have t: "take HEADER_SIZE (bs @ cs) = take HEADER_SIZE bs" "drop HEADER_SIZE (bs @ cs) = drop HEADER_SIZE bs @ cs"
      using False by simp_all
    show ?thesis
    proof (cases r)
      case (Inl e)
      then show ?thesis using assms False d t by (auto simp: frame_at_def None)
    next
      case (Inr h1)
      show ?thesis
      proof (cases "MAX_CMD_LEN < unat (h_len h1)")
        case True
        then show ?thesis using assms False d t Inr by (auto simp: frame_at_def None)
      next
        case small: False
        then have p: "payload_at (drop HEADER_SIZE bs) h1 k1 = (q, bs', h', k')"
          using assms False d Inr by (simp add: frame_at_def None)
        have "frame_at (bs @ cs) h k = payload_at (drop HEADER_SIZE bs @ cs) h1 k1"
          using False d t Inr small by (simp add: frame_at_def None)
        then show ?thesis using payload_at_more [OF p, of cs] by (auto simp: frame_at_def)
      qed
    qed
  qed
qed

text \<open>What a caller sees of a run: the error or what is left to read, and the state of the handler.\<close>

definition observe ::
    "((session_error + unit) \<times> intake \<times> 'r) option \<Rightarrow> ((session_error + intake) \<times> 'r) option" where
  "observe x = map_option (\<lambda>(q, i, r). (case q of Inl e \<Rightarrow> Inl e | Inr _ \<Rightarrow> Inr (compacted i), r)) x"

lemma observe_simps [simp]:
  "observe None = None" "observe (Some (Inl e, i, r)) = Some (Inl e, r)" "observe (Some (Inr u, i, r)) = Some (Inr (compacted i), r)"
  by (simp_all add: observe_def)

lemma next_frame_more:
  assumes "intake_ok i" and "intake_ok j" and "unread j = unread i @ cs" and "in_pending j = in_pending i" and "in_keys j = in_keys i"
    and "next_frame i = (q, i')" and "q \<noteq> Inr None"
  obtains j' where "next_frame j = (q, j')" "intake_ok i'" "intake_ok j'" "unread j' = unread i' @ cs"
    "in_pending j' = in_pending i'" "in_keys j' = in_keys i'"
proof -
  obtain q2 j' where j: "next_frame j = (q2, j')" by fastforce
  have "frame_at (unread i @ cs) (in_pending i) (in_keys i) = (q, unread i' @ cs, in_pending i', in_keys i')"
    using frame_at_more [of "unread i" "in_pending i" "in_keys i" q "unread i'" "in_pending i'" "in_keys i'" cs]
      next_frame_at [OF assms(1,6)] assms(7) by simp
  then show thesis
    using that [of j'] next_frame_at [OF assms(2) j] next_frame_at [OF assms(1,6)] assms(3-5) j by simp
qed

lemma next_frame_none:
  assumes "intake_ok i" and "intake_ok j" and "unread j = unread i @ cs" and "in_pending j = in_pending i" and "in_keys j = in_keys i"
    and "next_frame i = (Inr None, i')" and "next_frame j = (q, j')"
    and "next_frame (intake_of (unread i' @ cs) (in_pending i') (in_keys i')) = (q2, j2)"
  shows "q2 = q \<and> unread j2 = unread j' \<and> in_pending j2 = in_pending j' \<and> in_keys j2 = in_keys j' \<and> intake_ok j' \<and> intake_ok j2"
  using frame_at_more [of "unread i" "in_pending i" "in_keys i" "Inr None" "unread i'" "in_pending i'" "in_keys i'" cs]
    next_frame_at [OF assms(1,6)] next_frame_at [OF assms(2,7)] next_frame_at [OF _ assms(8)] assms(3-5) by simp

lemma read_frames_view:
  assumes "intake_ok i" and "intake_ok j" and "compacted j = compacted i"
  shows "observe (read_frames handle j r) = observe (read_frames handle i r)"
  using assms
proof (induction handle i r arbitrary: j rule: read_frames.induct)
  case (1 handle i r)
  obtain q i' where n: "next_frame i = (q, i')" by fastforce
  obtain q2 j' where n2: "next_frame j = (q2, j')" by fastforce
  have c: "unread j = unread i" "in_pending j = in_pending i" "in_keys j = in_keys i" using "1.prems"(3) by (simp_all add: compacted_eq)
  have v: "q2 = q" "compacted j' = compacted i'" "intake_ok i'" "intake_ok j'"
    using next_frame_at [OF "1.prems"(1) n] next_frame_at [OF "1.prems"(2) n2] c by (simp_all add: compacted_eq)
  show ?case
  proof (cases q)
    case (Inr f)
    show ?thesis
    proof (cases f)
      case (Some hp)
      obtain h p where hp: "hp = (h, p)" by fastforce
      show ?thesis
      proof (cases "\<exists>r'. handle h p r = Some (Inr (), r')")
        case True
        then obtain r' where r': "handle h p r = Some (Inr (), r')" by blast
        have "observe (read_frames handle j' r') = observe (read_frames handle i' r')"
          using "1.IH" [OF n [symmetric] Inr Some hp [symmetric] r' refl refl v(3,4,2)] .
        then show ?thesis by (simp add: read_frames.simps [of handle i] read_frames.simps [of handle j] n n2 v(1) Inr Some hp r')
      next
        case False
        then show ?thesis
          by (simp add: read_frames.simps [of handle i] read_frames.simps [of handle j] n n2 v(1) Inr Some hp split: option.splits sum.splits prod.splits)
      qed
    qed (simp add: read_frames.simps [of handle i] read_frames.simps [of handle j] n n2 v Inr)
  qed (simp add: read_frames.simps [of handle i] read_frames.simps [of handle j] n n2 v)
qed

lemma read_frames_step:
  assumes "intake_ok i" "intake_ok j" "next_frame i = (q, i')" "next_frame j = (q, j')" "compacted j' = compacted i'"
    "intake_ok i'" "intake_ok j'"
  shows "observe (read_frames handle j r) = observe (read_frames handle i r)"
  using assms(3-5) read_frames_view [OF assms(6,7,5), of handle]
  by (simp add: read_frames.simps [of handle i] read_frames.simps [of handle j] split: option.splits sum.splits prod.splits)

lemma read_frames_more:
  assumes "intake_ok i" and "intake_ok j" and "unread j = unread i @ cs" and "in_pending j = in_pending i" and "in_keys j = in_keys i"
  shows "observe (read_frames handle j r) =
    (case read_frames handle i r of
       None \<Rightarrow> None
     | Some (Inl e, _, r') \<Rightarrow> Some (Inl e, r')
     | Some (Inr _, i', r') \<Rightarrow> observe (read_frames handle (intake_of (unread i' @ cs) (in_pending i') (in_keys i')) r'))"
  using assms
proof (induction handle i r arbitrary: j rule: read_frames.induct)
  case (1 handle i r)
  obtain q i' where n: "next_frame i = (q, i')" by fastforce
  show ?case
  proof (cases "q = Inr None")
    case True
    let ?l = "intake_of (unread i' @ cs) (in_pending i') (in_keys i')"
    obtain q2 j' where n2: "next_frame j = (q2, j')" by fastforce
    obtain q3 l' where n3: "next_frame ?l = (q3, l')" by fastforce
    note eq = next_frame_none [OF "1.prems" n [unfolded True] n2 n3]
    have "observe (read_frames handle j r) = observe (read_frames handle ?l r)"
      using eq n2 n3 "1.prems"(2) by (intro read_frames_step [where q = q2 and j' = j' and i' = l']) (simp_all add: compacted_eq)
    then show ?thesis by (simp add: read_frames.simps [of handle i] n True)
  next
    case False
    obtain j' where j: "next_frame j = (q, j')" "intake_ok i'" "intake_ok j'" "unread j' = unread i' @ cs"
        "in_pending j' = in_pending i'" "in_keys j' = in_keys i'"
      by (rule next_frame_more [OF "1.prems" n False])
    show ?thesis
    proof (cases q)
      case (Inr f)
      with False obtain h p where f: "f = Some (h, p)" by (cases f) auto
      show ?thesis
      proof (cases "\<exists>r'. handle h p r = Some (Inr (), r')")
        case True
        then obtain r' where r': "handle h p r = Some (Inr (), r')" by blast
        note ih = "1.IH" [OF n [symmetric] Inr f refl r' refl refl j(2-6)]
        show ?thesis by (simp add: read_frames.simps [of handle i] read_frames.simps [of handle j] n j(1) Inr f r' ih)
      next
        case no: False
        then show ?thesis
          by (simp add: read_frames.simps [of handle i] read_frames.simps [of handle j] n j(1) Inr f split: option.splits sum.splits prod.splits)
      qed
    qed (simp add: read_frames.simps [of handle i] read_frames.simps [of handle j] n j(1))
  qed
qed

text \<open>Reading a whole connection, one delivery after the other, until the session ends.\<close>

fun receive_all ::
    "(header \<Rightarrow> bytes \<Rightarrow> 'r \<Rightarrow> ((session_error + unit) \<times> 'r) option) \<Rightarrow> bytes list \<Rightarrow> intake \<Rightarrow> 'r \<Rightarrow>
       ((session_error + unit) \<times> intake \<times> 'r) option" where
  "receive_all handle [] i r = Some (Inr (), i, r)"
| "receive_all handle (bs # bss) i r =
     (case receive handle bs i r of
        None \<Rightarrow> None
      | Some (Inl e, i, r) \<Rightarrow> Some (Inl e, i, r)
      | Some (Inr _, i, r) \<Rightarrow> receive_all handle bss i r)"

lemma delivered:
  assumes "intake_ok i"
  shows "intake_ok (deliver bs i)" "unread (deliver bs i) = unread i @ bs"
    "in_pending (deliver bs i) = in_pending i" "in_keys (deliver bs i) = in_keys i"
  using assms by (auto simp: deliver_def Let_def make_room_def intake_ok_def unread_def)

lemma next_frame_ok: "intake_ok i \<Longrightarrow> next_frame i = (q, i') \<Longrightarrow> intake_ok i'"
  using next_frame_at by blast

lemma read_frames_ok: "read_frames handle i r = Some (q, i', r') \<Longrightarrow> intake_ok i \<Longrightarrow> intake_ok i'"
proof (induction handle i r rule: read_frames.induct)
  case (1 handle i r)
  then show ?case
    using next_frame_ok [OF "1.prems"(2)]
    by (subst (asm) (2) read_frames.simps) (auto split: prod.splits sum.splits option.splits)
qed

lemma receive_ok: "receive handle bs i r = Some (q, i', r') \<Longrightarrow> intake_ok i \<Longrightarrow> intake_ok i'"
  unfolding receive_def by (erule read_frames_ok) (rule delivered(1))

lemma receive_append:
  assumes "intake_ok i"
  shows "observe (receive handle (bs @ cs) i r) =
    (case receive handle bs i r of
       None \<Rightarrow> None
     | Some (Inl e, _, r') \<Rightarrow> Some (Inl e, r')
     | Some (Inr _, i', r') \<Rightarrow> observe (receive handle cs i' r'))"
proof -
  have 1: "observe (read_frames handle (deliver (bs @ cs) i) r) =
    (case read_frames handle (deliver bs i) r of
       None \<Rightarrow> None
     | Some (Inl e, _, r') \<Rightarrow> Some (Inl e, r')
     | Some (Inr _, i', r') \<Rightarrow> observe (read_frames handle (intake_of (unread i' @ cs) (in_pending i') (in_keys i')) r'))"
    using delivered [OF assms, of bs] delivered [OF assms, of "bs @ cs"]
    by (intro read_frames_more) simp_all
  have 2: "observe (read_frames handle (intake_of (unread i' @ cs) (in_pending i') (in_keys i')) r') =
      observe (read_frames handle (deliver cs i') r')" if "intake_ok i'" for i' r'
    using delivered [OF that, of cs] by (intro read_frames_view) (simp_all add: compacted_def)
  have 3: "intake_ok i'" if "read_frames handle (deliver bs i) r = Some (q, i', r')" for q i' r'
    using read_frames_ok [OF that] delivered(1) [OF assms] by blast
  show ?thesis
    unfolding receive_def 1 using 2 3 by (auto split: option.splits sum.splits)
qed

lemma receive_all_append:
  "intake_ok i \<Longrightarrow> observe (receive_all handle (bs # bss) i r) = observe (receive handle (concat (bs # bss)) i r)"
proof (induction bss arbitrary: bs i r)
  case Nil
  then show ?case by (auto split: option.splits sum.splits)
next
  case (Cons cs bss)
  have step: "observe (receive_all handle (cs # bss) i' r') = observe (receive handle (concat (cs # bss)) i' r')"
    if "receive handle bs i r = Some (q, i', r')" for q i' r'
    using Cons.IH receive_ok [OF that Cons.prems] by blast
  have "observe (receive handle (concat (bs # cs # bss)) i r) =
    (case receive handle bs i r of
       None \<Rightarrow> None
     | Some (Inl e, _, r') \<Rightarrow> Some (Inl e, r')
     | Some (Inr _, i', r') \<Rightarrow> observe (receive handle (concat (cs # bss)) i' r'))"
    using receive_append [OF Cons.prems, of handle bs "concat (cs # bss)" r] by simp
  then show ?case
    using step by (subst receive_all.simps) (auto split: option.splits sum.splits simp del: receive_all.simps)
qed

text \<open>
  C13: The session sees the same frames however the network cuts the stream.  For any handler and any
  nonempty division of the bytes into deliveries, the state of the handler, the error that ends the
  session if one does, and otherwise the bytes and the header still waiting and the keys are those
  of one delivery of all bytes; the loop always returns.
\<close>

theorem frames_chunk_free:
  assumes "intake_ok i"
  shows "observe (receive_all handle (bs # bss) i r) = observe (receive handle (concat (bs # bss)) i r)"
  using assms by (rule receive_all_append)

theorem frames_chunk_free_witness:
  "observe (receive_all (\<lambda>h payload seen. Some (Inr (), seen @ [(h_cmd h, payload)])) [[1, 2], [3], [], [4, 5]]
       (intake_of [] None 0) []) =
     observe (receive (\<lambda>h payload seen. Some (Inr (), seen @ [(h_cmd h, payload)])) [1, 2, 3, 4, 5] (intake_of [] None 0) [])"
  using frames_chunk_free [of "intake_of [] None 0" "\<lambda>h payload seen. Some (Inr (), seen @ [(h_cmd h, payload)])" "[1, 2]"
      "[[3], [], [4, 5]]" "[]"] by simp

section \<open>The loop ends with less than a frame\<close>

text \<open>A header that waits announces no more than the largest frame.\<close>

definition waiting_ok :: "intake \<Rightarrow> bool" where
  "waiting_ok i \<longleftrightarrow> (case in_pending i of None \<Rightarrow> True | Some h \<Rightarrow> unat (h_len h) \<le> MAX_CMD_LEN)"

definition short_of_frame :: "intake \<Rightarrow> bool" where
  "short_of_frame i \<longleftrightarrow>
     (case in_pending i of None \<Rightarrow> length (unread i) < HEADER_SIZE | Some h \<Rightarrow> length (unread i) < unat (h_len h))"

lemma next_frame_waiting:
  assumes "next_frame i = (q, i')" and "waiting_ok i"
  shows "waiting_ok i' \<and> (q = Inr None \<longrightarrow> short_of_frame i')"
  using assms
  by (auto simp: next_frame_def next_header_def inbuf_take_unread waiting_ok_def short_of_frame_def Let_def not_less unread_def
      split: option.splits if_splits prod.splits sum.splits)

lemma read_frames_drains:
  "waiting_ok i \<Longrightarrow> (\<And>h payload r. handle h payload r \<noteq> None) \<Longrightarrow>
     \<exists>q i' r'. read_frames handle i r = Some (q, i', r') \<and> waiting_ok i' \<and> (q = Inr () \<longrightarrow> short_of_frame i')"
proof (induction handle i r rule: read_frames.induct)
  case (1 handle i r)
  obtain n i1 where n: "next_frame i = (n, i1)" by fastforce
  note w = next_frame_waiting [OF n "1.prems"(1)]
  show ?case
  proof (cases n)
    case (Inl e)
    then show ?thesis using n w by (simp add: read_frames.simps [of handle i])
  next
    case (Inr f)
    show ?thesis
    proof (cases f)
      case None
      then show ?thesis using n w Inr by (simp add: read_frames.simps [of handle i])
    next
      case (Some g)
      obtain h payload where g: "g = (h, payload)" by fastforce
      obtain q r1 where c: "handle h payload r = Some (q, r1)" using "1.prems"(2) by fastforce
      show ?thesis
      proof (cases q)
        case (Inl e)
        then show ?thesis using n w Inr Some g c by (simp add: read_frames.simps [of handle i])
      next
        case r: (Inr u)
        have "\<exists>q i' r'. read_frames handle i1 r1 = Some (q, i', r') \<and> waiting_ok i' \<and> (q = Inr () \<longrightarrow> short_of_frame i')"
          using "1.IH" [OF n [symmetric] Inr Some g [symmetric] c refl r] w "1.prems"(2) by blast
        then show ?thesis using n Inr Some g c r by (simp add: read_frames.simps [of handle i])
      qed
    qed
  qed
qed

text \<open>
  C29: The read loop comes to rest, and only when less than a frame is left.  For a handler that always
  answers, whatever arrives: the loop returns, and unless the session ends, the bytes that wait are
  fewer than a header, or fewer than the payload their header announces, which is at most four mebibytes; so
  no complete frame is left unhandled, and what a peer can make the buffer hold is bounded.
\<close>

theorem reading_comes_to_rest:
  assumes "\<And>h payload r. handle h payload r \<noteq> None" and "waiting_ok i" and "intake_ok i"
  shows "\<exists>q i' r'. receive handle bs i r = Some (q, i', r') \<and> waiting_ok i' \<and> intake_ok i' \<and>
    (q = Inr () \<longrightarrow> fst (next_frame i') = Inr None \<and> length (unread i') < MAX_CMD_LEN)"
proof -
  have "waiting_ok (deliver bs i)" using assms(2) delivered(3) [OF assms(3)] by (simp add: waiting_ok_def)
  from read_frames_drains [OF this, of handle r] assms(1) obtain q i' r' where
    r: "receive handle bs i r = Some (q, i', r')" "waiting_ok i'" "q = Inr () \<Longrightarrow> short_of_frame i'"
    unfolding receive_def by blast
  have "fst (next_frame i') = Inr None \<and> length (unread i') < MAX_CMD_LEN" if "short_of_frame i'"
    using that r(2)
    by (auto simp: short_of_frame_def waiting_ok_def next_frame_def next_header_def inbuf_take_unread HEADER_SIZE_def MAX_CMD_LEN_def
        split: option.splits)
  then show ?thesis using r receive_ok [OF r(1) assms(3)] by blast
qed

theorem reading_comes_to_rest_witness:
  "\<exists>q i' r'. receive (\<lambda>h payload n. Some (Inr (), n + length payload)) [1, 2, 3, 4, 5] (intake_of [] None 0) 0 = Some (q, i', r') \<and> waiting_ok i'"
  using reading_comes_to_rest [of "\<lambda>h payload n. Some (Inr (), n + length payload)" "intake_of [] None 0" "[1, 2, 3, 4, 5]" 0]
  by (auto simp: waiting_ok_def)

end
