(* ===== verification/Session.thy ===== *)
theory Session
  imports State Framing Mining
begin

text \<open>
  One gateway connection (\<open>primed/src/session.rs\<close>): the handshake, the configuration, the replies to
  coinbaser requests, the verification and crediting of shares, and the blocks a gateway finds.  A
  handler is a function from the state of the session, the shared state and what was sent, to the
  same and the error that ends the session, if one does; \<open>None\<close> is a panic.  All clock readings of one
  handler are one argument.  Shown: what a session can hold is bounded whatever the gateway sends.
\<close>

section \<open>Limits\<close>

type_synonym duration = nat

definition secs :: "nat \<Rightarrow> duration" where "secs n = n * 10 ^ 9"

definition MAX_HELLO :: nat where "MAX_HELLO = 4096"
definition KEEPALIVE :: duration where "KEEPALIVE = secs 20"
definition IDLE_LIMIT :: duration where "IDLE_LIMIT = secs 300"
definition COINBASERS_KEPT :: nat where "COINBASERS_KEPT = 16"
definition PENDING_BLOCK_TTL :: duration where "PENDING_BLOCK_TTL = secs 120"
definition MAX_IDENTITIES :: nat where "MAX_IDENTITIES = 65536"
definition MAX_LIVE_SLOTS :: nat where "MAX_LIVE_SLOTS = 16"
definition COINBASER_BURST :: u32 where "COINBASER_BURST = 32"
definition COINBASER_REFILL :: duration where "COINBASER_REFILL = secs 1"
definition REJECT_FLOOD :: nat where "REJECT_FLOOD = 2000"
definition REJECT_WINDOW :: duration where "REJECT_WINDOW = secs 10"

section \<open>The session\<close>

record issued_coinbaser =
  ic_id :: u8
  ic_value :: u64
  ic_outputs :: "coin_output list"
  ic_payees :: "payee list"
  ic_unpaid :: "(string \<times> u64) list"
  ic_carry_paid :: "(string \<times> u64) list"
  ic_snapshot :: string

record pending_block =
  pb_share :: verified_share
  pb_submit :: pow_submit
  pb_hash_hex :: string
  pb_at :: instant

record session =
  se_id :: u64
  se_remote :: "ip \<times> u16"
  se_send_keys :: u32
  se_channel :: channel
  se_session_key :: key_set
  se_hello :: client_hello
  se_slots :: "job_slot list"
  se_coinbase_bytes :: nat
  se_live_slots :: "nat list"
  se_coinbasers :: "issued_coinbaser list"
  se_next_coinbaser_id :: u8
  se_pending_blocks :: "u8 \<rightharpoonup> pending_block list"
  se_last_send :: instant
  se_last_recv :: instant
  se_gateway_hex :: string
  se_ahead_warned :: "instant option"
  se_coinbaser_tokens :: u32
  se_coinbaser_refill_at :: instant
  se_recent_rejects :: "instant list"
  se_bad_username_warned :: bool

text \<open>
  A run of the session: its state, the shared state, the bytes written to the stream, whether the peer
  has closed it and whether the system refuses to store snapshots, the notices sent to the other
  sessions, and the blocks handed to the node.
\<close>

record run_state =
  rs_session :: session
  rs_shared :: shared
  rs_sent :: bytes
  rs_closed :: bool
  rs_store_fails :: bool
  rs_notices :: "u32 list"
  rs_submits :: "(string \<times> bytes) list"

record clock =
  ck_now :: u64
  ck_instant :: instant

type_synonym sent = "(session_error + unit) \<times> run_state"
type_synonym outcome = "sent option"

text \<open>The \<open>?\<close> operator.\<close>

definition and_then :: "sent \<Rightarrow> (run_state \<Rightarrow> outcome) \<Rightarrow> outcome" where
  "and_then q f = (case q of (Inl e, r) \<Rightarrow> Some (Inl e, r) | (Inr _, r) \<Rightarrow> f r)"

abbreviation with_session :: "(session \<Rightarrow> session) \<Rightarrow> run_state \<Rightarrow> run_state" where
  "with_session f r \<equiv> r\<lparr>rs_session := f (rs_session r)\<rparr>"

abbreviation with_shared :: "(shared \<Rightarrow> shared) \<Rightarrow> run_state \<Rightarrow> run_state" where
  "with_shared f r \<equiv> r\<lparr>rs_shared := f (rs_shared r)\<rparr>"

definition house_stratum :: "config \<Rightarrow> ip \<times> u16 \<Rightarrow> string \<Rightarrow> bool" where
  "house_stratum cfg remote gateway_hex \<longleftrightarrow>
     cfg_house_loopback cfg \<and> is_loopback (fst remote) \<or>
     (let g = to_ascii_lowercase gateway_hex in
      list_ex (\<lambda>h. h \<noteq> '''' \<and> take (length h) g = h) (cfg_house_gateways cfg))"

section \<open>Sending\<close>

definition write_frame :: "header \<Rightarrow> bytes \<Rightarrow> run_state \<Rightarrow> sent" where
  "write_frame h payload r =
     (let (b, keys) = header_encode h (se_send_keys (rs_session r));
          r = with_session (se_send_keys_update (\<lambda>_. keys)) r
      in if rs_closed r then (Inl Io, r) else (Inr (), r\<lparr>rs_sent := rs_sent r @ b @ payload\<rparr>))"

definition send_mining :: "ext \<Rightarrow> clock \<Rightarrow> bytes \<Rightarrow> bool \<Rightarrow> run_state \<Rightarrow> sent" where
  "send_mining x ck plain with_sig r =
     (let se = rs_session r;
          m = (if with_sig then plain @ ks_signature (x_nacl x) (se_session_key se) plain else plain);
          (payload, ch) = channel_encrypt (x_nacl x) (se_channel se) m;
          h = (header_new CMD_MINING (length payload))\<lparr>h_channel := True, h_signed := with_sig\<rparr>;
          (q, r) = write_frame h payload (with_session (se_channel_update (\<lambda>_. ch)) r)
      in case q of
           Inl e \<Rightarrow> (Inl e, r)
         | Inr _ \<Rightarrow> (Inr (), with_session (se_last_send_update (\<lambda>_. ck_instant ck)) r))"

text \<open>The resume token of a version-3 configuration comes from the system's randomness.\<close>

definition send_configure :: "ext \<Rightarrow> env \<Rightarrow> clock \<Rightarrow> bytes \<Rightarrow> run_state \<Rightarrow> sent" where
  "send_configure x en ck token r =
     (let cfg = en_cfg en;
          body = (case ch_generation (se_hello (rs_session r)) of
              Ocean \<Rightarrow> configure_v1 (en_pool_script en) (cfg_prime_id cfg) (cfg_coinbase_tag cfg) (cfg_min_diff cfg)
            | Convoy \<Rightarrow> configure_v3 (en_pool_script en) (ucast (cfg_prime_id cfg)) token (cfg_coinbase_tag cfg) (cfg_min_diff cfg))
      in send_mining x ck body True r)"

section \<open>Rejects\<close>

definition note_reject :: "clock \<Rightarrow> run_state \<Rightarrow> sent" where
  "note_reject ck r =
     (let now = ck_instant ck;
          recent = dropWhile (\<lambda>t. now - t > REJECT_WINDOW) (se_recent_rejects (rs_session r) @ [now]);
          r = with_session (se_recent_rejects_update (\<lambda>_. recent)) r
      in if length recent > REJECT_FLOOD then (Inl (Reject_flood (length recent) 10), r) else (Inr (), r))"

definition count_reject :: "string \<Rightarrow> client_info \<Rightarrow> client_info option" where
  "count_reject name c = do { n \<leftarrow> checked_add (ci_rejected c) 1; Some (c\<lparr>ci_rejected := n, ci_last_reject := Some name\<rparr>) }"

definition reject :: "ext \<Rightarrow> clock \<Rightarrow> pow_submit \<Rightarrow> u16 \<Rightarrow> run_state \<Rightarrow> outcome" where
  "reject x ck s code r =
     (let sh = (rs_shared r)\<lparr>sh_totals := (sh_totals (rs_shared r))\<lparr>to_rejected := to_rejected (sh_totals (rs_shared r)) + 1\<rparr>\<rparr> in do {
        sh \<leftarrow> client_update (se_id (rs_session r)) (count_reject (reject_name code)) sh;
        and_then (send_mining x ck (share_receipt REJECTED code (p_nonce32 s) (p_target_pot s) (p_job_id s)) False
            (r\<lparr>rs_shared := sh\<rparr>))
          (\<lambda>r. Some (note_reject ck r))
      })"

section \<open>Slots\<close>

definition drop_coinbase :: "nat \<Rightarrow> u8 option \<Rightarrow> session \<Rightarrow> session" where
  "drop_coinbase job_id added se =
     (case added of
        None \<Rightarrow> se
      | Some cid \<Rightarrow>
          let held = coinbase_bytes (se_slots se ! job_id);
              slot = forget_coinbase (se_slots se ! job_id) cid;
              left = coinbase_bytes slot
          in se\<lparr>se_slots := (se_slots se)[job_id := slot], se_coinbase_bytes := se_coinbase_bytes se - (held - left)\<rparr>)"

text \<open>The queue of live slots is cut from its front; the slots that leave it lose their sections.\<close>

fun evict_oldest :: "nat list \<Rightarrow> job_slot list \<Rightarrow> nat list \<times> job_slot list" where
  "evict_oldest [] slots = ([], slots)"
| "evict_oldest (old # live) slots =
     (if length (old # live) > MAX_LIVE_SLOTS
      then evict_oldest live (slots[old := evict_sections (slots ! old)])
      else (old # live, slots))"

definition touch_slot :: "nat \<Rightarrow> session \<Rightarrow> session" where
  "touch_slot job_id se =
     (let (live, slots) = evict_oldest (filter (\<lambda>s. s \<noteq> job_id) (se_live_slots se) @ [job_id]) (se_slots se)
      in se\<lparr>se_live_slots := live, se_slots := slots\<rparr>)"

definition issued :: "u8 \<Rightarrow> session \<Rightarrow> issued_coinbaser option" where
  "issued cid se = find (\<lambda>c. ic_id c = cid) (rev (se_coinbasers se))"

section \<open>Coinbasers\<close>

text \<open>
  The token bucket.  The code divides as floating point and cuts off; the result is cut to 32 tokens
  at once, below which the division is exact.
\<close>

definition refill_tokens :: "clock \<Rightarrow> session \<Rightarrow> session" where
  "refill_tokens ck se =
     (let elapsed = ck_instant ck - se_coinbaser_refill_at se in
      if elapsed \<ge> COINBASER_REFILL
      then se\<lparr>se_coinbaser_tokens := min (sat_add (se_coinbaser_tokens se) (of_nat (min (elapsed div COINBASER_REFILL) (2 ^ 32 - 1)))) COINBASER_BURST,
              se_coinbaser_refill_at := ck_instant ck\<rparr>
      else se)"

definition next_id :: "u8 \<Rightarrow> u8" where
  "next_id i = (if i = 255 then 1 else i + 1)"

definition script_for :: "ext \<Rightarrow> env \<Rightarrow> string \<Rightarrow> bytes option" where
  "script_for x en i = to_script (x_bech32 x) (x_base58 x) i (en_network en)"

text \<open>The document of an issued split; the height is that of the next block, if there is a tip.\<close>

definition snapshot_of_split ::
    "ext \<Rightarrow> env \<Rightarrow> clock \<Rightarrow> u64 \<Rightarrow> bytes \<Rightarrow> carry \<Rightarrow> miner_stat list \<Rightarrow> split \<Rightarrow> shared \<Rightarrow> snapshot option" where
  "snapshot_of_split x en ck v prev_hash carry_map ms sp sh = do {
     height \<leftarrow> (case sh_tip sh of None \<Rightarrow> Some 0 | Some t \<Rightarrow> checked_add (tp_height t) 1);
     let p = live_split_params en sh;
     let w = l_window (sh_ledger sh);
     Some (snapshot_build (x_hex x) (x_to_vec x) (x_blake2b x)
       \<lparr>si_tag = cfg_snapshot_tag (en_cfg en), si_height = height, si_prev_hash = x_hex x (rev prev_hash),
        si_ts = ck_now ck, si_value = v, si_fee_bps = sp_fee_bps p, si_stratum_fee_bps = sp_stratum_fee_bps p,
        si_min_payout = sp_min_payout p, si_max_outputs = sp_max_outputs p,
        si_output_budget_bytes = sp_output_budget_bytes p, si_max_payees = sp_max_payees p,
        si_fee_overrides = co_fee_overrides (sh_controls sh), si_window_target = w_target_work w,
        si_window_total = w_total_work w, si_miners = ms, si_carry = carry_map, si_split = sp\<rparr>)
   }"

text \<open>The commitment comes first, if there is one; a directory that cannot be written leaves it out.\<close>

definition commit_output ::
    "ext \<Rightarrow> env \<Rightarrow> snapshot option \<Rightarrow> run_state \<Rightarrow> string \<times> coin_output list \<times> run_state" where
  "commit_output x en snap r =
     (case snap of
        None \<Rightarrow> ('''', [], r)
      | Some s \<Rightarrow>
          if rs_store_fails r then ('''', [], r)
          else (sn_hex (x_hex x) s, [\<lparr>o_sats = 0, o_script = op_return s (cfg_snapshot_tag (en_cfg en))\<rparr>],
            with_shared (\<lambda>sh. sh\<lparr>sh_snapshots := snapshot_store (x_hex x) (sh_snapshots sh) s,
              sh_last_snapshot := sn_hex (x_hex x) s\<rparr>) r))"

text \<open>Then the payees, and last what the pool keeps; the list is never empty.\<close>

definition coinbaser_outputs :: "bytes \<Rightarrow> split \<Rightarrow> coin_output list \<Rightarrow> coin_output list" where
  "coinbaser_outputs pool_script sp commit =
     (let outs = commit @ map (\<lambda>p. \<lparr>o_sats = py_sats p, o_script = py_script p\<rparr>) (s_payees sp) in
      if s_pool_sats sp > 0 \<or> outs = []
      then outs @ [\<lparr>o_sats = max (s_pool_sats sp) 1, o_script = pool_script\<rparr>] else outs)"

definition carried_unpaid :: "split \<Rightarrow> (string \<times> u64) list" where
  "carried_unpaid sp = map (\<lambda>(i, s, _). (i, s)) (filter (\<lambda>(_, _, why). why \<noteq> NoScript) (s_unpaid sp))"

definition keep_coinbaser :: "issued_coinbaser \<Rightarrow> session \<Rightarrow> session" where
  "keep_coinbaser c se =
     (let cs = se_coinbasers se @ [c] in
      se\<lparr>se_coinbasers := (if length cs > COINBASERS_KEPT then drop (length cs - COINBASERS_KEPT) cs else cs)\<rparr>)"

definition count_coinbaser :: "client_info \<Rightarrow> client_info option" where
  "count_coinbaser c = do { n \<leftarrow> checked_add (ci_coinbasers c) 1; Some (c\<lparr>ci_coinbasers := n\<rparr>) }"

text \<open>What follows the token bucket.\<close>

definition issue_coinbaser :: "ext \<Rightarrow> env \<Rightarrow> clock \<Rightarrow> u64 \<Rightarrow> bytes \<Rightarrow> run_state \<Rightarrow> outcome" where
  "issue_coinbaser x en ck v prev_hash r =
     (let cid = se_next_coinbaser_id (rs_session r);
          r = with_session (se_next_coinbaser_id_update next_id) r;
          sh = rs_shared r;
          carry_map = (if cfg_carry_forward (en_cfg en) then sh_carry sh else []) in do {
        sp \<leftarrow> window_split_with_carry (l_window (sh_ledger sh)) v (live_split_params en sh) carry_map (script_for x en);
        ms \<leftarrow> miners (l_window (sh_ledger sh));
        snap \<leftarrow> (if cfg_commit_snapshot (en_cfg en)
                 then map_option Some (snapshot_of_split x en ck v prev_hash carry_map ms sp sh) else Some None);
        let (hex, commit, r) = commit_output x en snap r;
        let outs = coinbaser_outputs (en_pool_script en) sp commit;
        and_then (send_mining x ck (coinbaser_reply v (encode_v2 cid outs)) False r) (\<lambda>r.
          let r = with_session (keep_coinbaser \<lparr>ic_id = cid, ic_value = v, ic_outputs = outs, ic_payees = s_payees sp,
                ic_unpaid = carried_unpaid sp, ic_carry_paid = s_carry_paid sp, ic_snapshot = hex\<rparr>) r;
              t = sh_totals (rs_shared r) in do {
            sh \<leftarrow> client_update (se_id (rs_session r)) count_coinbaser
              ((rs_shared r)\<lparr>sh_totals := t\<lparr>to_coinbasers := to_coinbasers t + 1\<rparr>\<rparr>);
            Some (Inr (), r\<lparr>rs_shared := sh\<rparr>)
          })
      })"

definition on_coinbaser_request :: "ext \<Rightarrow> env \<Rightarrow> clock \<Rightarrow> u64 \<Rightarrow> bytes \<Rightarrow> run_state \<Rightarrow> outcome" where
  "on_coinbaser_request x en ck v prev_hash r =
     (let r = with_session (refill_tokens ck) r in
      if se_coinbaser_tokens (rs_session r) = 0 then Some (note_reject ck r)
      else issue_coinbaser x en ck v prev_hash (with_session (se_coinbaser_tokens_update (\<lambda>n. n - 1)) r))"

section \<open>Blocks\<close>

definition scale :: "u64 \<Rightarrow> u64 \<Rightarrow> u64 \<Rightarrow> u64" where
  "scale sats v issued_value =
     (if issued_value = 0 then sats else ucast ((ucast sats * ucast v :: u128) div ucast issued_value))"

text \<open>What the window is owed when a coinbase did not pay the whole split: the kind of the block, the
  debt, the split, and the amounts that go into the carry ledger.\<close>

definition payee_sats :: "payee list \<Rightarrow> (string \<times> u64) list" where
  "payee_sats ps = map (\<lambda>p. (py_identity p, py_sats p)) ps"

definition block_amounts ::
    "ext \<Rightarrow> env \<Rightarrow> shared \<Rightarrow> verified_share \<Rightarrow> issued_coinbaser option \<Rightarrow>
       (string \<times> u64 \<times> (string \<times> u64) list \<times> (string \<times> u64) list) option" where
  "block_amounts x en sh v c =
     (let unpaid = (case c of Some c \<Rightarrow> ic_unpaid c | None \<Rightarrow> []) in
      case (v_coinbase_kind v, c) of
        (coinbase_kind.Split, Some c) \<Rightarrow> Some (''split'', 0, payee_sats (ic_payees c), unpaid)
      | (coinbase_kind.Split, None) \<Rightarrow> Some (''split'', 0, [], unpaid)
      | (Partial _, Some c) \<Rightarrow>
          let dropped = payee_sats (filter (\<lambda>p. paid_to (v_coinbase v) (py_script p) = 0) (ic_payees c)) in do {
            owed \<leftarrow> checked_sum 0 (map snd dropped);
            Some (''partial'', owed, payee_sats (ic_payees c), unpaid @ dropped)
          }
      | (PoolOnly, Some c) \<Rightarrow>
          let scaled = map (\<lambda>p. (py_identity p, scale (py_sats p) (v_coinbase_value v) (ic_value c))) (ic_payees c) in do {
            owed \<leftarrow> checked_sum 0 (map snd scaled);
            Some (''pool-only'', owed, scaled, unpaid @ scaled)
          }
      | (PoolOnly, None) \<Rightarrow> do {
            sp \<leftarrow> window_split (l_window (sh_ledger sh)) (v_coinbase_value v) (live_split_params en sh) (script_for x en);
            owed \<leftarrow> paid_sats sp;
            Some (''pool-only'', owed, payee_sats (s_payees sp), unpaid @ payee_sats (s_payees sp))
          }
      | (Partial _, None) \<Rightarrow> Some (''unknown'', 0, [], unpaid)
      | (Foreign, _) \<Rightarrow> Some (''unknown'', 0, [], unpaid))"

definition count_candidate :: "client_info \<Rightarrow> client_info option" where
  "count_candidate c = do { n \<leftarrow> checked_add (ci_block_candidates c) 1; Some (c\<lparr>ci_block_candidates := n\<rparr>) }"

definition hold_candidate :: "u8 \<Rightarrow> pending_block \<Rightarrow> session \<Rightarrow> session" where
  "hold_candidate job p se =
     (let held = (case se_pending_blocks se job of None \<Rightarrow> [] | Some ps \<Rightarrow> ps) in
      se\<lparr>se_pending_blocks := (se_pending_blocks se)(job \<mapsto> held @ [p])\<rparr>)"

definition on_block_candidate ::
    "ext \<Rightarrow> env \<Rightarrow> clock \<Rightarrow> pow_submit \<Rightarrow> verified_share \<Rightarrow> string \<Rightarrow> run_state \<Rightarrow> outcome" where
  "on_block_candidate x en ck s v finder r =
     (let hash_hex = x_hex x (rev (v_hash v)); se = rs_session r; t = sh_totals (rs_shared r) in do {
        sh \<leftarrow> client_update (se_id se) count_candidate
          ((rs_shared r)\<lparr>sh_totals := t\<lparr>to_block_candidates := to_block_candidates t + 1\<rparr>\<rparr>);
        let c = (case js_job (se_slots se ! unat (p_job_id s)) of None \<Rightarrow> None | Some j \<Rightarrow> issued (j_coinbaser_id j) se);
        (kind, owed, split_list, unpaid) \<leftarrow> block_amounts x en sh v c;
        let rec = \<lparr>br_ts = ck_now ck, br_height = v_height v, br_hash = hash_hex, br_finder = Some finder,
          br_coinbase_value = v_coinbase_value v, br_kind = kind, br_owed_sats = owed, br_split = split_list,
          br_pool_sats = v_paid_to_pool v, br_settled = False, br_submit = ''pending'', br_gateway = se_gateway_hex se,
          br_unpaid = unpaid, br_carry_paid = (case c of Some c \<Rightarrow> ic_carry_paid c | None \<Rightarrow> []),
          br_snapshot = (case c of Some c \<Rightarrow> ic_snapshot c | None \<Rightarrow> ''''), br_carried = False\<rparr>;
        let r = with_session (hold_candidate (p_job_id s) \<lparr>pb_share = v, pb_submit = s, pb_hash_hex = hash_hex, pb_at = ck_instant ck\<rparr>)
          (r\<lparr>rs_shared := record_block x rec sh\<rparr>);
        and_then (send_mining x ck (request_full_block (p_job_id s)) False r)
          (\<lambda>r. Some (Inr (), r\<lparr>rs_notices := rs_notices r @ [ucast (se_id se)]\<rparr>))
      })"

text \<open>Handing a candidate to the node: the task that is spawned starts with the block's bytes.\<close>

definition submit_candidate :: "bytes list \<Rightarrow> pending_block \<Rightarrow> run_state \<Rightarrow> run_state option" where
  "submit_candidate txns p r =
     map_option (\<lambda>block. r\<lparr>rs_submits := rs_submits r @ [(pb_hash_hex p, block)]\<rparr>) (assemble_block (pb_share p) (pb_submit p) txns)"

fun submit_all :: "bytes list \<Rightarrow> pending_block list \<Rightarrow> run_state \<Rightarrow> run_state option" where
  "submit_all txns [] r = Some r"
| "submit_all txns (p # ps) r = do { r \<leftarrow> submit_candidate txns p r; submit_all txns ps r }"

text \<open>The node's answer, when it comes; a JSON value is given as the node printed it.\<close>

datatype submit_reply = Reply_null | Reply_string string | Reply_other string | Reply_error string

fun submit_outcome :: "submit_reply \<Rightarrow> string" where
  "submit_outcome Reply_null = ''accepted''"
| "submit_outcome (Reply_string s) = s"
| "submit_outcome (Reply_other s) = s"
| "submit_outcome (Reply_error e) = ''rejected: '' @ e"

definition submitted :: "ext \<Rightarrow> string \<Rightarrow> submit_reply \<Rightarrow> shared \<Rightarrow> shared" where
  "submitted x hash_hex reply sh =
     (let t = sh_totals sh; sh = sh\<lparr>sh_totals := t\<lparr>to_blocks_submitted := to_blocks_submitted t + 1\<rparr>\<rparr>
      in snd (update_block x hash_hex (\<lambda>b. b\<lparr>br_submit := submit_outcome reply\<rparr>) sh))"

definition no_transactions :: "ext \<Rightarrow> pending_block list \<Rightarrow> shared \<Rightarrow> shared" where
  "no_transactions x ps sh =
     fold (\<lambda>p sh. snd (update_block x (pb_hash_hex p) (\<lambda>b. b\<lparr>br_submit := ''no-transactions''\<rparr>) sh)) ps sh"

definition on_validation :: "ext \<Rightarrow> job_validation \<Rightarrow> run_state \<Rightarrow> outcome" where
  "on_validation x v r =
     (let job = job_validation_job v; se = rs_session r in
      case se_pending_blocks se job of
        None \<Rightarrow> Some (Inr (), r)
      | Some ps \<Rightarrow>
          let taken = r\<lparr>rs_session := se\<lparr>se_pending_blocks := (se_pending_blocks se)(job := None)\<rparr>\<rparr>;
              finish = (\<lambda>status txns.
                if status \<noteq> VOk then Some (Inr (), with_shared (no_transactions x ps) taken)
                else map_option (\<lambda>r. (Inr (), r)) (submit_all txns ps taken))
          in (case v of
                FullBlock _ status txns \<Rightarrow> finish status txns
              | Transactions _ status txns \<Rightarrow> finish status txns
              | ShortIds _ _ _ _ \<Rightarrow> Some (Inr (), r)))"

section \<open>Shares\<close>

text \<open>The last stage: a verified share that nobody was credited for.\<close>

definition count_accepted :: "string \<Rightarrow> verified_share \<Rightarrow> u64 \<Rightarrow> client_info \<Rightarrow> client_info option" where
  "count_accepted ident v ts c = do {
     n \<leftarrow> checked_add (ci_accepted c) 1;
     w \<leftarrow> checked_add (ci_work c) (v_work v);
     let c = c\<lparr>ci_accepted := n, ci_work := w, ci_last_share_ts := ts, ci_identity := ident\<rparr>;
     case v_coinbase_kind v of
       coinbase_kind.Split \<Rightarrow> do { n \<leftarrow> checked_add (ci_cb_split c) 1; Some (c\<lparr>ci_cb_split := n\<rparr>) }
     | Partial _ \<Rightarrow> do { n \<leftarrow> checked_add (ci_cb_partial c) 1; Some (c\<lparr>ci_cb_partial := n\<rparr>) }
     | PoolOnly \<Rightarrow> do { n \<leftarrow> checked_add (ci_cb_pool_only c) 1; Some (c\<lparr>ci_cb_pool_only := n\<rparr>) }
     | Foreign \<Rightarrow> do { n \<leftarrow> checked_add (ci_cb_foreign c) 1; Some (c\<lparr>ci_cb_foreign := n\<rparr>) }
   }"

definition share_source :: "env \<Rightarrow> session \<Rightarrow> u8" where
  "share_source en se =
     (if house_stratum (en_cfg en) (se_remote se) (se_gateway_hex se) then SOURCE_STRATUM else SOURCE_DATUM)"

text \<open>The ledger, the totals, the worker table and the client's row.\<close>

definition credit_share :: "env \<Rightarrow> clock \<Rightarrow> pow_submit \<Rightarrow> verified_share \<Rightarrow> string \<Rightarrow> session \<Rightarrow> shared \<Rightarrow> shared option" where
  "credit_share en ck s v ident se sh = do {
     let ts = ck_now ck;
     (l, d) \<leftarrow> ledger_credit (sh_ledger sh) (sh_disk sh) ident (v_work v) (v_height v) (ucast ts) (share_source en se);
     let t = sh_totals sh;
     workers \<leftarrow> credit_worker (sh_workers sh) ident (worker_of (p_username s)) (se_gateway_hex se) (v_work v) ts;
     client_update (se_id se) (count_accepted ident v ts)
       (sh\<lparr>sh_ledger := l, sh_disk := d, sh_workers := workers,
           sh_totals := t\<lparr>to_accepted := to_accepted t + 1, to_work := to_work t + v_work v\<rparr>\<rparr>)
   }"

definition accept_share ::
    "ext \<Rightarrow> env \<Rightarrow> clock \<Rightarrow> pow_submit \<Rightarrow> verified_share \<Rightarrow> string \<Rightarrow> run_state \<Rightarrow> outcome" where
  "accept_share x en ck s v ident r =
     (let w = l_window (sh_ledger (rs_shared r)) in
      if length (w_idents w) \<ge> MAX_IDENTITIES \<and> work_of w ident = 0 \<and> script_for x en ident = None
      then reject x ck s REJECT_BAD_USERNAME r
      else do {
        sh \<leftarrow> credit_share en ck s v ident (rs_session r) (rs_shared r);
        let status = (if v_coinbase_kind v = coinbase_kind.Split then ACCEPTED else ACCEPTED_TENTATIVELY);
        and_then (send_mining x ck (share_receipt status 0 (p_nonce32 s) (p_target_pot s) (p_job_id s)) False (r\<lparr>rs_shared := sh\<rparr>))
          (\<lambda>r. if v_is_block_candidate v then on_block_candidate x en ck s v ident r else Some (Inr (), r))
      })"

text \<open>One credit per hash.\<close>

definition claim_share ::
    "ext \<Rightarrow> env \<Rightarrow> clock \<Rightarrow> pow_submit \<Rightarrow> verified_share \<Rightarrow> string \<Rightarrow> run_state \<Rightarrow> outcome" where
  "claim_share x en ck s v ident r =
     (let (fresh, ss) = seen_insert (sh_seen (rs_shared r)) (v_height v) (v_hash v);
          r = with_shared (sh_seen_update (\<lambda>_. ss)) r
      in case fresh of
           Fresh \<Rightarrow> accept_share x en ck s v ident r
         | Duplicate \<Rightarrow> reject x ck s REJECT_DUPLICATE_WORK r
         | Full \<Rightarrow> reject x ck s REJECT_OTHER r)"

definition share_policy :: "env \<Rightarrow> clock \<Rightarrow> issued_coinbaser option \<Rightarrow> policy" where
  "share_policy en ck c =
     \<lparr>pol_pool_script = en_pool_script en, pol_issued = map_option ic_outputs c,
      pol_tolerance = cfg_split_tolerance (en_cfg en), pol_now = ucast (ck_now ck), pol_min_pot = min_pot (en_cfg en)\<rparr>"

definition verify_share ::
    "ext \<Rightarrow> env \<Rightarrow> clock \<Rightarrow> pow_submit \<Rightarrow> u8 \<Rightarrow> session \<Rightarrow> ((u16 + verified_share) \<times> session) option" where
  "verify_share x en ck s coinbaser_id se =
     (let job = unat (p_job_id s) in
      map_option (\<lambda>(q, slot). (q, se\<lparr>se_slots := (se_slots se)[job := slot]\<rparr>))
        (verify (x_sha256 x) (x_blake2b x) (se_slots se ! job) s (share_policy en ck (issued coinbaser_id se))))"

text \<open>Whether a height is too far ahead of the tip, or stale.\<close>

definition height_check :: "env \<Rightarrow> clock \<Rightarrow> tip \<Rightarrow> u32 \<Rightarrow> (bool \<times> bool) option" where
  "height_check en ck t height = do {
     expected \<leftarrow> checked_add (tp_height t) 1;
     ahead \<leftarrow> checked_add expected 1;
     Some (height > ahead,
       height < expected \<and> \<not> (height + 1 = expected \<and> ck_instant ck - tp_seen_at t < secs (unat (cfg_stale_grace_secs (en_cfg en)))))
   }"

definition warn_ahead :: "clock \<Rightarrow> session \<Rightarrow> session" where
  "warn_ahead ck se =
     (if (case se_ahead_warned se of None \<Rightarrow> True | Some t \<Rightarrow> ck_instant ck - t > secs 60)
      then se\<lparr>se_ahead_warned := Some (ck_instant ck)\<rparr> else se)"

definition check_share :: "ext \<Rightarrow> env \<Rightarrow> clock \<Rightarrow> pow_submit \<Rightarrow> string \<Rightarrow> run_state \<Rightarrow> outcome" where
  "check_share x en ck s ident r =
     (case js_job (se_slots (rs_session r) ! unat (p_job_id s)) of
        None \<Rightarrow> reject x ck s REJECT_BAD_JOB_ID r
      | Some j \<Rightarrow> do {
          (ahead, stale) \<leftarrow> (case sh_tip (rs_shared r) of None \<Rightarrow> Some (False, False) | Some t \<Rightarrow> height_check en ck t (j_height j));
          if ahead then reject x ck s REJECT_STALE_BLOCK (with_session (warn_ahead ck) r)
          else if stale then reject x ck s REJECT_STALE_BLOCK r
          else do {
            (q, se) \<leftarrow> verify_share x en ck s (j_coinbaser_id j) (rs_session r);
            let r = r\<lparr>rs_session := se\<rparr>;
            case q of
              Inl code \<Rightarrow> reject x ck s code r
            | Inr v \<Rightarrow> claim_share x en ck s v ident r
          }
        })"

text \<open>The sections of a share, against the limits of its slot and the budget of the session.\<close>

definition absorb_share :: "pow_submit \<Rightarrow> session \<Rightarrow> (u16 + absorbed) \<times> session" where
  "absorb_share s se =
     (let job = unat (p_job_id s); held_before = coinbase_bytes (se_slots se ! job) in
      case absorb (se_slots se ! job) s of
        (Inl code, slot) \<Rightarrow> (Inl code, se\<lparr>se_slots := (se_slots se)[job := slot]\<rparr>)
      | (Inr a, slot) \<Rightarrow>
          let se = se\<lparr>se_slots := (se_slots se)[job := slot]\<rparr> in
          if ab_job_changed a
          then let se = touch_slot job se in
            (Inr a, se\<lparr>se_coinbase_bytes := sum_list (map coinbase_bytes (se_slots se))\<rparr>)
          else (Inr a, se\<lparr>se_coinbase_bytes := se_coinbase_bytes se - held_before + coinbase_bytes slot\<rparr>))"

definition take_sections :: "ext \<Rightarrow> env \<Rightarrow> clock \<Rightarrow> pow_submit \<Rightarrow> string \<Rightarrow> run_state \<Rightarrow> outcome" where
  "take_sections x en ck s ident r =
     (let (q, se) = absorb_share s (rs_session r); r = r\<lparr>rs_session := se\<rparr> in
      case q of
        Inl code \<Rightarrow> reject x ck s code r
      | Inr a \<Rightarrow>
          if ab_coinbase_added a \<noteq> None \<and> se_coinbase_bytes se > cfg_session_coinbase_budget (en_cfg en)
          then reject x ck s REJECT_COINBASE_TOO_LARGE (with_session (drop_coinbase (unat (p_job_id s)) (ab_coinbase_added a)) r)
          else check_share x en ck s ident r)"

definition share_identity :: "ext \<Rightarrow> pow_submit \<Rightarrow> string" where
  "share_identity x s = canonical_identity (x_bech32 x) (identity_of (p_username s))"

definition on_pow :: "ext \<Rightarrow> env \<Rightarrow> clock \<Rightarrow> pow_submit \<Rightarrow> run_state \<Rightarrow> outcome" where
  "on_pow x en ck s r =
     (let ident = share_identity x s; warned = with_session (se_bad_username_warned_update (\<lambda>_. True)) r in
      if unat (p_job_id s) \<ge> length (se_slots (rs_session r)) then reject x ck s REJECT_BAD_JOB_ID r
      else if ident = '''' \<or> length ident > 128 \<or> \<not> list_all graphic (str_bytes ident)
      then reject x ck s REJECT_BAD_USERNAME r
      else if identity_banned (sh_controls (rs_shared r)) ident then reject x ck s REJECT_BAD_USERNAME warned
      else if script_for x en ident = None then reject x ck s REJECT_BAD_USERNAME warned
      else take_sections x en ck s ident r)"

section \<open>Frames\<close>

definition handle_mining :: "ext \<Rightarrow> env \<Rightarrow> clock \<Rightarrow> bytes \<Rightarrow> run_state \<Rightarrow> outcome" where
  "handle_mining x en ck body r =
     (case parse_client body of
        Inr (CoinbaserRequest q) \<Rightarrow> on_coinbaser_request x en ck (cr_value q) (cr_prev_hash q) r
      | Inr (Pow p) \<Rightarrow> on_pow x en ck p r
      | Inr (JobValidation v) \<Rightarrow> on_validation x v r
      | Inr (Unknown _) \<Rightarrow> Some (Inr (), r)
      | Inl _ \<Rightarrow> Some (note_reject ck r))"

definition open_payload :: "ext \<Rightarrow> header \<Rightarrow> bytes \<Rightarrow> session \<Rightarrow> (session_error + bytes) \<times> session" where
  "open_payload x h payload se =
     (let (q, se) =
        (if h_channel h
         then let (q, ch) = channel_decrypt (x_nacl x) (se_channel se) payload in (q, se\<lparr>se_channel := ch\<rparr>)
         else (Inr payload, se))
      in (case rbind q (\<lambda>body. if h_signed h then verify_trailing (x_nacl x) (ch_session_sign_pk (se_hello se)) body else Inr body) of
            Inl e \<Rightarrow> (Inl (Wire e), se)
          | Inr body \<Rightarrow> (Inr body, se)))"

definition handle_frame :: "ext \<Rightarrow> env \<Rightarrow> clock \<Rightarrow> header \<Rightarrow> bytes \<Rightarrow> run_state \<Rightarrow> outcome" where
  "handle_frame x en ck h payload r =
     (if h_sealed h then Some (Inl (Bad ''sealed frame after handshake''), r)
      else
        let (q, se) = open_payload x h payload (rs_session r); r = r\<lparr>rs_session := se\<rparr> in
        case q of
          Inl e \<Rightarrow> Some (Inl e, r)
        | Inr body \<Rightarrow>
            if h_cmd h = CMD_MINING
            then (if h_channel h then handle_mining x en ck body r else Some (Inl (Bad ''plaintext mining frame''), r))
            else if h_cmd h = CMD_HELLO then Some (Inl (Bad ''second hello''), r)
            else Some (Inr (), r))"

text \<open>What wakes the loop of \<open>serve\<close>: bytes, the end of the stream, an error of it, a notice of a new
  block (or that some were missed), the end of the notices, and the five-second tick.\<close>

datatype wakeup = Readable bytes | Stream_error | Notice | Lagged | Notices_closed | Tick

definition expire_pending :: "clock \<Rightarrow> session \<Rightarrow> session" where
  "expire_pending ck se =
     se\<lparr>se_pending_blocks := (\<lambda>job. case se_pending_blocks se job of
        None \<Rightarrow> None
      | Some ps \<Rightarrow>
          let ps = filter (\<lambda>p. ck_instant ck - pb_at p < PENDING_BLOCK_TTL) ps in if ps = [] then None else Some ps)\<rparr>"

definition on_tick :: "ext \<Rightarrow> clock \<Rightarrow> run_state \<Rightarrow> outcome" where
  "on_tick x ck r =
     (let se = rs_session r in
      if ck_instant ck - se_last_recv se > IDLE_LIMIT then Some (Inl Idle, r)
      else and_then
        (if ck_instant ck - se_last_send se > KEEPALIVE
         then (case write_frame (header_new CMD_INFO 0) [] r of
                 (Inl e, r) \<Rightarrow> (Inl e, r)
               | (Inr _, r) \<Rightarrow> (Inr (), with_session (se_last_send_update (\<lambda>_. ck_instant ck)) r))
         else (Inr (), r))
        (\<lambda>r. Some (Inr (), with_session (expire_pending ck) r)))"

definition serve_step ::
    "ext \<Rightarrow> env \<Rightarrow> clock \<Rightarrow> wakeup \<Rightarrow> intake \<Rightarrow> run_state \<Rightarrow> ((session_error + unit) \<times> intake \<times> run_state) option" where
  "serve_step x en ck w i r =
     (case w of
        Readable bs \<Rightarrow>
          if bs = [] then Some (Inl Io, i, r)
          else receive (handle_frame x en ck) bs i (with_session (se_last_recv_update (\<lambda>_. ck_instant ck)) r)
      | Stream_error \<Rightarrow> Some (Inl Io, i, r)
      | Notice \<Rightarrow> (let (q, r) = send_mining x ck block_notify False r in Some (q, i, r))
      | Lagged \<Rightarrow> (let (q, r) = send_mining x ck block_notify False r in Some (q, i, r))
      | Notices_closed \<Rightarrow> Some (Inr (), i, r)
      | Tick \<Rightarrow> map_option (\<lambda>(q, r). (q, i, r)) (on_tick x ck r))"

section \<open>Opening and closing\<close>

text \<open>
  The reader of the handshake: what arrives before the stream ends, under the keys, up to a length;
  the bytes after the frame stay in the stream.
\<close>

definition read_frame :: "bytes \<Rightarrow> u32 \<Rightarrow> nat \<Rightarrow> (session_error + (header \<times> bytes \<times> bytes)) \<times> u32" where
  "read_frame stream keys longest =
     (if length stream < HEADER_SIZE then (Inl Io, keys)
      else let (q, keys) = header_decode (take HEADER_SIZE stream) keys; rest = drop HEADER_SIZE stream in
        (case q of
           Inl e \<Rightarrow> Inl (Wire e)
         | Inr h \<Rightarrow>
             let n = unat (h_len h) in
             if n > longest then Inl (Bad ''frame too large'')
             else if length rest < n then Inl Io
             else Inr (h, take n rest, drop n rest), keys))"

text \<open>The greeting: \<open>None\<close> is a peer that did not send it in time.\<close>

definition read_hello :: "ext \<Rightarrow> env \<Rightarrow> bytes option \<Rightarrow> session_error + (client_hello \<times> bytes)" where
  "read_hello x en arrived =
     rbind (ok_or arrived Handshake_timeout) (\<lambda>stream.
     rbind (fst (read_frame stream CLIENT_INITIAL_KEY MAX_HELLO)) (\<lambda>(h, payload, rest).
       if h_cmd h \<noteq> CMD_HELLO \<or> \<not> h_sealed h \<or> \<not> h_signed h \<or> h_channel h
       then Inl (Bad ''first frame is not a sealed, signed hello'')
       else (case parse_client_hello (x_nacl x) (en_pool en) payload of
               Inl e \<Rightarrow> Inl (Wire e)
             | Inr hello \<Rightarrow> Inr (hello, rest))))"

definition new_session :: "ext \<Rightarrow> clock \<Rightarrow> u64 \<Rightarrow> ip \<times> u16 \<Rightarrow> key_set \<Rightarrow> client_hello \<Rightarrow> session" where
  "new_session x ck sid remote key hello =
     (let (send_nonce, recv_nonce) = session_nonces (ch_seed hello) (ch_session_sign_pk hello) in
      \<lparr>se_id = sid, se_remote = remote, se_send_keys = snd (key_from_seed (ch_seed hello)),
       se_channel = channel_new (precompute (x_nacl x) key (ch_session_box_pk hello)) send_nonce recv_nonce,
       se_session_key = key, se_hello = hello, se_slots = replicate MAX_JOB_SLOTS slot_default, se_coinbase_bytes = 0,
       se_live_slots = [], se_coinbasers = [], se_next_coinbaser_id = 1, se_pending_blocks = Map.empty,
       se_last_send = ck_instant ck, se_last_recv = ck_instant ck,
       se_gateway_hex = x_hex x (take 8 (ch_identity_sign_pk hello)), se_ahead_warned = None,
       se_coinbaser_tokens = COINBASER_BURST, se_coinbaser_refill_at = ck_instant ck, se_recent_rejects = [],
       se_bad_username_warned = False\<rparr>)"

definition client_row :: "ext \<Rightarrow> env \<Rightarrow> clock \<Rightarrow> session \<Rightarrow> client_info" where
  "client_row x en ck se =
     \<lparr>ci_id = se_id se, ci_remote = x_show_addr x (se_remote se), ci_user_agent = ch_user_agent (se_hello se),
      ci_generation = (case ch_generation (se_hello se) of Ocean \<Rightarrow> ''ocean'' | Convoy \<Rightarrow> ''convoy''),
      ci_gateway = se_gateway_hex se,
      ci_fee_path = (if house_stratum (en_cfg en) (se_remote se) (se_gateway_hex se) then ''stratum'' else ''datum''),
      ci_connected_ts = ck_now ck, ci_identity = '''', ci_accepted = 0, ci_rejected = 0, ci_work = 0,
      ci_last_share_ts = 0, ci_coinbasers = 0, ci_block_candidates = 0, ci_last_reject = None, ci_cb_split = 0,
      ci_cb_partial = 0, ci_cb_pool_only = 0, ci_cb_foreign = 0\<rparr>"

text \<open>
  \<open>run\<close> up to the loop: the identifier, the greeting, the reply under the keys the greeting seeds, the
  client's row, and the configuration.  The session key, the randomness of the reply's seal and the
  resume token are arguments.
\<close>

definition reply_hello ::
    "ext \<Rightarrow> env \<Rightarrow> bytes \<Rightarrow> run_state \<Rightarrow> sent" where
  "reply_hello x en seal r =
     (let se = rs_session r;
          reply = build_server_hello (x_nacl x) seal (en_pool en) (se_session_key se) (se_hello se) (cfg_motd (en_cfg en))
      in write_frame ((header_new CMD_HELLO_REPLY (length reply))\<lparr>h_sealed := True, h_signed := True\<rparr>) reply r)"

definition open_session ::
    "ext \<Rightarrow> env \<Rightarrow> clock \<Rightarrow> key_set \<Rightarrow> bytes \<Rightarrow> bytes \<Rightarrow> ip \<times> u16 \<Rightarrow> bool \<Rightarrow> bool \<Rightarrow> bytes option \<Rightarrow> shared \<Rightarrow>
       (session_error + (intake \<times> bytes \<times> run_state)) \<times> shared" where
  "open_session x en ck key seal token remote gone store_fails arrived sh =
     (let sid = sh_next_client_id sh; sh = sh\<lparr>sh_next_client_id := sid + 1\<rparr> in
      case read_hello x en arrived of
        Inl e \<Rightarrow> (Inl e, sh)
      | Inr (hello, rest) \<Rightarrow>
          let se = new_session x ck sid remote key hello;
              r = \<lparr>rs_session = se, rs_shared = sh, rs_sent = [], rs_closed = gone, rs_store_fails = store_fails,
                   rs_notices = [], rs_submits = []\<rparr> in
          case reply_hello x en seal r of
            (Inl e, r) \<Rightarrow> (Inl e, rs_shared r)
          | (Inr _, r) \<Rightarrow>
              let t = sh_totals sh;
                  r = with_shared (\<lambda>sh. sh\<lparr>sh_clients := (sh_clients sh)(sid \<mapsto> client_row x en ck se),
                        sh_totals := t\<lparr>to_connections := to_connections t + 1\<rparr>\<rparr>) r
              in (case send_configure x en ck token r of
                    (Inl e, r) \<Rightarrow> (Inl e, (rs_shared r)\<lparr>sh_clients := (sh_clients (rs_shared r))(sid := None)\<rparr>)
                  | (Inr _, r) \<Rightarrow> (Inr (intake_of [] None (fst (key_from_seed (ch_seed hello))), rest, r), rs_shared r)))"

text \<open>A session that ends, however it ends, takes its row with it.\<close>

definition close_session :: "u64 \<Rightarrow> shared \<Rightarrow> shared" where
  "close_session sid sh = sh\<lparr>sh_clients := (sh_clients sh)(sid := None)\<rparr>"

end
