(* ===== verification/Session_Bounds.thy ===== *)
theory Session_Bounds
  imports Session
begin

text \<open>
  What a session can hold, whatever the gateway sends: the bytes of its coinbase sections are counted
  exactly and stay within the budget, the lists it keeps are bounded, and so are the tokens and the
  rejects it remembers.  The number of slots that hold sections is not bounded by the queue of live
  slots.
\<close>

section \<open>Reading an outcome\<close>

text \<open>What holds of every result; a panic has none.\<close>

definition holds :: "((session_error + unit) \<Rightarrow> run_state \<Rightarrow> bool) \<Rightarrow> outcome \<Rightarrow> bool" where
  "holds P out \<longleftrightarrow> (case out of None \<Rightarrow> True | Some (q, r) \<Rightarrow> P q r)"

lemma holds_simps [simp]: "holds P None" "holds P (Some (q, r)) = P q r"
  by (simp_all add: holds_def)

lemma holds_bind [intro]: "(\<And>y. m = Some y \<Longrightarrow> holds P (f y)) \<Longrightarrow> holds P (Option.bind m f)"
  by (cases m) auto

lemma holds_and_then:
  "(\<And>e r. q = (Inl e, r) \<Longrightarrow> P (Inl e) r) \<Longrightarrow> (\<And>r. q = (Inr (), r) \<Longrightarrow> holds P (f r)) \<Longrightarrow> holds P (and_then q f)"
  by (auto simp: and_then_def split: prod.split sum.split)

text \<open>Sending changes the keys, the channel, the time of sending and the bytes sent.\<close>

lemma write_frame_state:
  "write_frame h b r = (q, r') \<Longrightarrow>
     \<exists>k s. r' = (with_session (se_send_keys_update (\<lambda>_. k)) r)\<lparr>rs_sent := s\<rparr>"
  by (cases r) (fastforce simp: write_frame_def Let_def split: prod.splits if_splits)

lemma send_mining_state:
  assumes "send_mining x ck b sg r = (q, r')"
  shows "\<exists>k ch t s. r' = r\<lparr>rs_session := (rs_session r)\<lparr>se_send_keys := k, se_channel := ch, se_last_send := t\<rparr>, rs_sent := s\<rparr>"
proof -
  obtain payload ch where e: "channel_encrypt (x_nacl x) (se_channel (rs_session r))
      (if sg then b @ ks_signature (x_nacl x) (se_session_key (rs_session r)) b else b) = (payload, ch)" by fastforce
  obtain q1 r1 where w: "write_frame ((header_new CMD_MINING (length payload))\<lparr>h_channel := True, h_signed := sg\<rparr>) payload
      (with_session (se_channel_update (\<lambda>_. ch)) r) = (q1, r1)" by fastforce
  from write_frame_state [OF w] obtain k s where
    r1: "r1 = (with_session (se_send_keys_update (\<lambda>_. k)) (with_session (se_channel_update (\<lambda>_. ch)) r))\<lparr>rs_sent := s\<rparr>" by blast
  have "r' = r1 \<or> r' = with_session (se_last_send_update (\<lambda>_. ck_instant ck)) r1"
    using assms by (auto simp: send_mining_def Let_def e w split: sum.splits)
  then show ?thesis
  proof
    assume "r' = r1"
    then show ?thesis unfolding r1
      by (intro exI [of _ k] exI [of _ ch] exI [of _ "se_last_send (rs_session r)"] exI [of _ s]) (cases r, cases "rs_session r", simp)
  next
    assume "r' = with_session (se_last_send_update (\<lambda>_. ck_instant ck)) r1"
    then show ?thesis unfolding r1
      by (intro exI [of _ k] exI [of _ ch] exI [of _ "ck_instant ck"] exI [of _ s]) (cases r, cases "rs_session r", simp)
  qed
qed

section \<open>The bytes of a slot\<close>

lemma bytes_retain [simp]: "coinbase_bytes (retain_others cid slot) = coinbase_bytes slot"
  by (simp add: retain_others_def coinbase_bytes_def)

lemma bytes_evict [simp]: "coinbase_bytes (evict_sections slot) = 0"
  by (simp add: evict_sections_def coinbase_bytes_def)

lemma bytes_default [simp]: "coinbase_bytes slot_default = 0"
  by (simp add: slot_default_def coinbase_bytes_def)

lemma sum_list_filter_le: "sum_list (map f (filter P xs)) \<le> sum_list (map (f :: 'a \<Rightarrow> nat) xs)"
  by (induction xs) auto

lemma bytes_forget_le: "coinbase_bytes (forget_coinbase slot cid) \<le> coinbase_bytes slot"
  unfolding forget_coinbase_def bytes_retain
  by (simp add: coinbase_bytes_def AList.delete_eq sum_list_filter_le)

lemma delete_update_same: "AList.delete k (AList.update k v xs) = AList.delete k xs"
  by (induction xs) (auto simp: AList.delete_eq)

lemma bytes_forget_update:
  "coinbase_bytes (forget_coinbase (retain_others cid (slot\<lparr>js_coinbases := AList.update cid c (js_coinbases slot)\<rparr>)) cid)
     \<le> coinbase_bytes slot"
  using bytes_forget_le [of slot cid]
  by (simp add: forget_coinbase_def retain_others_def coinbase_bytes_def delete_update_same)

lemma absorb_job_bytes: "absorb_job slot job = (slot', ch) \<Longrightarrow> coinbase_bytes slot' \<le> coinbase_bytes slot"
  by (auto simp: absorb_job_def coinbase_bytes_def split: option.splits if_splits)

lemma absorb_error: "absorb slot s = (Inl e, slot') \<Longrightarrow> slot' = slot"
  by (auto simp: absorb_def absorb_job_def Let_def MAX_COINBASES_PER_SLOT_def split: option.splits if_splits prod.splits)

lemma absorb_bytes:
  assumes "absorb slot s = (Inr a, slot')"
  shows "case ab_coinbase_added a of
      None \<Rightarrow> coinbase_bytes slot' \<le> coinbase_bytes slot
    | Some cid \<Rightarrow> coinbase_bytes (forget_coinbase slot' cid) \<le> coinbase_bytes slot"
proof -
  obtain slot1 ch where j: "absorb_job slot (p_job s) = (slot1, ch)" by fastforce
  have "case ab_coinbase_added a of
      None \<Rightarrow> coinbase_bytes slot' \<le> coinbase_bytes slot1
    | Some cid \<Rightarrow> coinbase_bytes (forget_coinbase slot' cid) \<le> coinbase_bytes slot1"
    using assms j bytes_forget_update by (auto simp: absorb_def Let_def split: option.splits if_splits)
  then show ?thesis using absorb_job_bytes [OF j] by (auto split: option.splits)
qed

text \<open>Verification never touches the sections or the job.\<close>

lemma try_conventions_sections:
  "snd (try_conventions sha blake s b2 job tow fl legacy t cid slot cs) = slot' \<Longrightarrow>
     js_coinbases slot' = js_coinbases slot \<and> js_job slot' = js_job slot"
  by (induction cs) (auto simp: Let_def split: option.splits if_splits prod.splits)

lemma load_coinbase_sections:
  "load_coinbase slot job cid pot = (q, slot') \<Longrightarrow> js_coinbases slot' = js_coinbases slot \<and> js_job slot' = js_job slot"
  by (auto simp: load_coinbase_def Let_def split: option.splits sum.splits if_splits)

lemma check_work_sections:
  "check_work sha blake slot s p t b2 tow job cid legacy parsed kind = (q, slot') \<Longrightarrow>
     js_coinbases slot' = js_coinbases slot \<and> js_job slot' = js_job slot"
  using try_conventions_sections [of sha blake s b2 job tow "share_flags s" legacy t cid slot "conventions_of slot"]
  by (auto simp: check_work_def Let_def split: if_splits prod.splits option.splits)

lemma verify_with_target_sections:
  assumes "verify_with_target sha blake slot s p t = Some (q, slot')"
  shows "js_coinbases slot' = js_coinbases slot \<and> js_job slot' = js_job slot"
  using assms
  by (cases rule: verify_cases) (auto dest!: load_coinbase_sections check_work_sections)

lemma verify_slot:
  assumes "verify sha blake slot s p = Some (q, slot')"
  shows "js_coinbases slot' = js_coinbases slot \<and> js_job slot' = js_job slot \<and> (slot_bounded slot \<longrightarrow> slot_bounded slot')"
  using assms verify_with_target_sections verify_with_target_bounded
  unfolding verify_def by (auto split: if_splits option.splits)

section \<open>The bytes of a session\<close>

definition held_bytes :: "session \<Rightarrow> nat" where
  "held_bytes se = sum_list (map coinbase_bytes (se_slots se))"

lemma evict_oldest_slots:
  "evict_oldest live slots = (live', slots') \<Longrightarrow>
     length slots' = length slots \<and> (\<forall>i. slots' ! i = slots ! i \<or> slots' ! i = evict_sections (slots ! i)) \<and>
     length live' \<le> MAX_LIVE_SLOTS \<and> set live' \<subseteq> set live \<and> (distinct live \<longrightarrow> distinct live')"
proof (induction live slots arbitrary: live' slots' rule: evict_oldest.induct)
  case (2 old live slots)
  have "(slots[old := evict_sections (slots ! old)]) ! i \<in> {slots ! i, evict_sections (slots ! i)}" for i
    by (cases "i = old"; cases "old < length slots") (auto simp: list_update_beyond)
  moreover have "evict_sections (evict_sections z) = evict_sections z" for z by (simp add: evict_sections_def)
  ultimately show ?case using 2 by (auto split: if_splits) metis+
qed (simp add: MAX_LIVE_SLOTS_def)

lemma sum_list_le_pointwise:
  "length xs = length ys \<Longrightarrow> (\<And>i. i < length xs \<Longrightarrow> f (xs ! i) \<le> (g (ys ! i) :: nat)) \<Longrightarrow> sum_list (map f xs) \<le> sum_list (map g ys)"
  by (rule sum_list_mono2) simp_all

lemma sum_list_replace:
  "i < length xs \<Longrightarrow> sum_list (map f (xs[i := y])) + f (xs ! i) = sum_list (map f xs) + (f y :: nat)"
  by (induction xs arbitrary: i) (auto split: nat.split)

lemma item_le_sum_list: "i < length xs \<Longrightarrow> f (xs ! i) \<le> sum_list (map (f :: 'a \<Rightarrow> nat) xs)"
  by (metis elem_le_sum_list length_map nth_map)

text \<open>The exact count, the budget, and the bounds of the lists.\<close>

definition session_bounded :: "nat \<Rightarrow> session \<Rightarrow> bool" where
  "session_bounded budget se \<longleftrightarrow>
     length (se_slots se) = MAX_JOB_SLOTS \<and> list_all slot_bounded (se_slots se) \<and>
     se_coinbase_bytes se = held_bytes se \<and> held_bytes se \<le> budget \<and>
     distinct (se_live_slots se) \<and> set (se_live_slots se) \<subseteq> {..<MAX_JOB_SLOTS} \<and> length (se_live_slots se) \<le> MAX_LIVE_SLOTS \<and>
     length (se_coinbasers se) \<le> COINBASERS_KEPT \<and> se_coinbaser_tokens se \<le> COINBASER_BURST"

lemma touch_slot_state:
  assumes "touch_slot job se = se'"
  shows "\<exists>live slots. se' = se\<lparr>se_live_slots := live, se_slots := slots\<rparr> \<and> length slots = length (se_slots se) \<and>
    (\<forall>i. slots ! i = se_slots se ! i \<or> slots ! i = evict_sections (se_slots se ! i)) \<and>
    length live \<le> MAX_LIVE_SLOTS \<and> set live \<subseteq> insert job (set (se_live_slots se)) \<and>
    (distinct (se_live_slots se) \<longrightarrow> distinct live)"
proof -
  obtain live slots where e: "evict_oldest (filter (\<lambda>s. s \<noteq> job) (se_live_slots se) @ [job]) (se_slots se) = (live, slots)"
    by fastforce
  have "distinct (se_live_slots se) \<Longrightarrow> distinct (filter (\<lambda>s. s \<noteq> job) (se_live_slots se) @ [job])" by simp
  then show ?thesis
    using evict_oldest_slots [OF e] assms by (intro exI [of _ live] exI [of _ slots]) (auto simp: touch_slot_def e)
qed

abbreviation session_counted :: "session \<Rightarrow> bool" where
  "session_counted se \<equiv> session_bounded (held_bytes se) se"

lemma session_bounded_iff: "session_bounded budget se \<longleftrightarrow> session_counted se \<and> held_bytes se \<le> budget"
  by (auto simp: session_bounded_def)

lemma session_boundedI: "session_counted se \<Longrightarrow> held_bytes se \<le> budget \<Longrightarrow> session_bounded budget se"
  using session_bounded_iff by blast

lemma drop_coinbase_counted:
  assumes "session_counted se" and "job < MAX_JOB_SLOTS"
  shows "session_counted (drop_coinbase job (Some cid) se) \<and>
    held_bytes (drop_coinbase job (Some cid) se) = sum_list (map coinbase_bytes ((se_slots se)[job := forget_coinbase (se_slots se ! job) cid]))"
proof -
  have j: "job < length (se_slots se)" using assms by (simp add: session_bounded_def)
  then have "slot_bounded (forget_coinbase (se_slots se ! job) cid)"
    using assms(1) by (intro slot_bounded_forget) (simp add: session_bounded_def list_all_length)
  moreover have "held_bytes se - (coinbase_bytes (se_slots se ! job) - coinbase_bytes (forget_coinbase (se_slots se ! job) cid)) =
      sum_list (map coinbase_bytes ((se_slots se)[job := forget_coinbase (se_slots se ! job) cid]))"
    using sum_list_replace [OF j, of coinbase_bytes "forget_coinbase (se_slots se ! job) cid"] bytes_forget_le [of "se_slots se ! job" cid]
    unfolding held_bytes_def by linarith
  ultimately show ?thesis
    using assms j
    by (auto simp: drop_coinbase_def Let_def session_bounded_def held_bytes_def list_all_length nth_list_update)
qed

lemma absorb_share_counted:
  assumes c: "session_counted se" and j: "unat (p_job_id s) < MAX_JOB_SLOTS" and a: "absorb_share s se = (Inr a, se')"
  shows "session_counted se' \<and>
    (case ab_coinbase_added a of None \<Rightarrow> held_bytes se' \<le> held_bytes se
     | Some cid \<Rightarrow> held_bytes (drop_coinbase (unat (p_job_id s)) (Some cid) se') \<le> held_bytes se)"
proof -
  let ?j = "unat (p_job_id s)"
  have jl: "?j < length (se_slots se)" using c j by (simp add: session_bounded_def)
  obtain slot where b: "absorb (se_slots se ! ?j) s = (Inr a, slot)"
    using a by (auto simp: absorb_share_def Let_def split: prod.splits sum.splits if_splits)
  have sb: "slot_bounded slot"
    using absorb_bounded [of "se_slots se ! ?j" s] c jl b by (simp add: session_bounded_def list_all_length)
  define xs where "xs = (se_slots se)[?j := slot]"
  have xs: "length xs = MAX_JOB_SLOTS" "list_all slot_bounded xs" "xs ! ?j = slot"
    using c jl sb by (auto simp: xs_def session_bounded_def list_all_length nth_list_update)
  obtain ys live where ys: "se_slots se' = ys" "length ys = length xs" "\<forall>i. ys ! i = xs ! i \<or> ys ! i = evict_sections (xs ! i)"
      "se' = se\<lparr>se_slots := ys, se_live_slots := live, se_coinbase_bytes := sum_list (map coinbase_bytes ys)\<rparr>"
      "length live \<le> MAX_LIVE_SLOTS" "set live \<subseteq> {..<MAX_JOB_SLOTS}" "distinct live"
  proof (cases "ab_job_changed a")
    case True
    obtain se2 where t: "touch_slot ?j (se\<lparr>se_slots := xs\<rparr>) = se2" by simp
    then have e: "se' = se2\<lparr>se_coinbase_bytes := sum_list (map coinbase_bytes (se_slots se2))\<rparr>"
      using a by (simp add: absorb_share_def Let_def b True xs_def)
    from touch_slot_state [OF t] obtain live slots where
      "se2 = se\<lparr>se_slots := xs\<rparr>\<lparr>se_live_slots := live, se_slots := slots\<rparr>" "length slots = length xs"
      "\<forall>i. slots ! i = xs ! i \<or> slots ! i = evict_sections (xs ! i)" "length live \<le> MAX_LIVE_SLOTS"
      "set live \<subseteq> insert ?j (set (se_live_slots se))" "distinct (se_live_slots se) \<longrightarrow> distinct live" by auto
    then show ?thesis using that [of slots live] e c j by (auto simp: session_bounded_def)
  next
    case False
    have "se_coinbase_bytes se - coinbase_bytes (se_slots se ! ?j) + coinbase_bytes slot = sum_list (map coinbase_bytes xs)"
      using sum_list_replace [OF jl, of coinbase_bytes slot] item_le_sum_list [OF jl, of coinbase_bytes] c
      by (simp add: xs_def session_bounded_def held_bytes_def)
    then have "se' = se\<lparr>se_slots := xs, se_coinbase_bytes := sum_list (map coinbase_bytes xs)\<rparr>"
      using a by (auto simp: absorb_share_def Let_def b False xs_def)
    then show ?thesis using that [of xs "se_live_slots se"] c by (auto simp: session_bounded_def)
  qed
  have ysb: "list_all slot_bounded ys" using ys(2,3) xs(2) by (auto simp: list_all_length) (metis slot_bounded_evict)
  have counted: "session_counted se'"
    using c ys xs ysb by (auto simp: session_bounded_def held_bytes_def)
  have le: "coinbase_bytes (ys ! i) \<le> coinbase_bytes (xs ! i)" for i using ys(3) by (metis bytes_evict le0 le_refl)
  show ?thesis
  proof (cases "ab_coinbase_added a")
    case None
    have "coinbase_bytes (ys ! i) \<le> coinbase_bytes (se_slots se ! i)" for i
      using le [of i] absorb_bytes [OF b] None jl by (cases "i = ?j") (auto simp: xs_def)
    then have "held_bytes se' \<le> held_bytes se"
      unfolding held_bytes_def ys(1) using ys(2) by (intro sum_list_le_pointwise) (simp_all add: xs_def)
    then show ?thesis using counted None by simp
  next
    case (Some cid)
    have f: "coinbase_bytes (forget_coinbase (ys ! ?j) cid) \<le> coinbase_bytes (se_slots se ! ?j)"
      using ys(3) absorb_bytes [OF b] Some xs(3) bytes_forget_le [of "evict_sections slot" cid] by (auto dest: spec [of _ ?j])
    have le2: "coinbase_bytes (ys ! i) \<le> coinbase_bytes (se_slots se ! i)" if "i \<noteq> ?j" for i
      using le [of i] that by (simp add: xs_def)
    have "sum_list (map coinbase_bytes (ys[?j := forget_coinbase (ys ! ?j) cid])) \<le> held_bytes se"
      unfolding held_bytes_def
      using ys(2) f le2 jl by (intro sum_list_le_pointwise) (auto simp: xs_def nth_list_update)
    then show ?thesis using drop_coinbase_counted [OF counted j, of cid] ys(1) counted Some by simp
  qed
qed

section \<open>Every handler keeps the bounds\<close>

definition kept :: "nat \<Rightarrow> (session_error + unit) \<Rightarrow> run_state \<Rightarrow> bool" where
  "kept budget q r \<longleftrightarrow> session_bounded budget (rs_session r) \<and> (q = Inr () \<longrightarrow> length (se_recent_rejects (rs_session r)) \<le> REJECT_FLOOD)"

text \<open>The fields a bound does not read.\<close>

lemma session_bounded_other [simp]:
  "session_bounded budget (se\<lparr>se_send_keys := k\<rparr>) = session_bounded budget se"
  "session_bounded budget (se\<lparr>se_channel := ch\<rparr>) = session_bounded budget se"
  "session_bounded budget (se\<lparr>se_last_send := t\<rparr>) = session_bounded budget se"
  "session_bounded budget (se\<lparr>se_last_recv := t\<rparr>) = session_bounded budget se"
  "session_bounded budget (se\<lparr>se_recent_rejects := rs\<rparr>) = session_bounded budget se"
  "session_bounded budget (se\<lparr>se_next_coinbaser_id := i\<rparr>) = session_bounded budget se"
  "session_bounded budget (se\<lparr>se_bad_username_warned := w\<rparr>) = session_bounded budget se"
  "session_bounded budget (se\<lparr>se_ahead_warned := a\<rparr>) = session_bounded budget se"
  "session_bounded budget (se\<lparr>se_pending_blocks := p\<rparr>) = session_bounded budget se"
  by (simp_all add: session_bounded_def held_bytes_def)

lemma send_mining_kept:
  assumes "send_mining x ck b sg r = (q, r')" and "kept budget (Inr ()) r"
  shows "kept budget (Inr ()) r'"
  using send_mining_state [OF assms(1)] assms(2) by (auto simp: kept_def)

lemma kept_weaken: "kept budget (Inr ()) r \<Longrightarrow> kept budget q r"
  by (simp add: kept_def)

lemma note_reject_kept: "kept budget (Inr ()) r \<Longrightarrow> note_reject ck r = (q, r') \<Longrightarrow> kept budget q r'"
  by (auto simp: note_reject_def Let_def kept_def split: if_splits)

lemma kept_shared [simp]: "kept budget q (r\<lparr>rs_shared := sh\<rparr>) = kept budget q r"
  "kept budget q (r\<lparr>rs_notices := n\<rparr>) = kept budget q r"
  "kept budget q (r\<lparr>rs_submits := m\<rparr>) = kept budget q r"
  by (simp_all add: kept_def)

lemma holds_sent: "send_mining x ck b sg r = (q, r') \<Longrightarrow> kept budget (Inr ()) r \<Longrightarrow>
    (\<And>r. kept budget (Inr ()) r \<Longrightarrow> holds (kept budget) (f r)) \<Longrightarrow> holds (kept budget) (and_then (q, r') f)"
  using send_mining_kept by (intro holds_and_then) (auto intro: kept_weaken)

lemma send_mining_then:
  assumes "kept budget (Inr ()) r" and "\<And>r. kept budget (Inr ()) r \<Longrightarrow> holds (kept budget) (f r)"
  shows "holds (kept budget) (and_then (send_mining x ck b sg r) f)"
  using holds_sent [OF _ assms] by (cases "send_mining x ck b sg r") simp

lemma reject_kept: "kept budget (Inr ()) r \<Longrightarrow> holds (kept budget) (reject x ck s code r)"
  unfolding reject_def Let_def
  by (intro holds_bind send_mining_then) (auto dest: note_reject_kept simp: holds_def split: prod.split)

lemma kept_session:
  "session_bounded budget se \<Longrightarrow> se_recent_rejects se = se_recent_rejects (rs_session r) \<Longrightarrow> kept budget (Inr ()) r \<Longrightarrow>
     kept budget (Inr ()) (r\<lparr>rs_session := se\<rparr>)"
  by (simp add: kept_def)

lemma on_block_candidate_kept:
  "kept budget (Inr ()) r \<Longrightarrow> holds (kept budget) (on_block_candidate x en ck s v finder r)"
  unfolding on_block_candidate_def Let_def hold_candidate_def
  by (intro holds_bind, clarsimp, intro holds_bind send_mining_then) (auto simp: kept_def)

lemma accept_share_kept: "kept budget (Inr ()) r \<Longrightarrow> holds (kept budget) (accept_share x en ck s v ident r)"
  unfolding accept_share_def Let_def
  by (auto simp: reject_kept on_block_candidate_kept intro!: holds_bind send_mining_then split: if_split)

lemma claim_share_kept: "kept budget (Inr ()) r \<Longrightarrow> holds (kept budget) (claim_share x en ck s v ident r)"
  by (auto simp: claim_share_def Let_def reject_kept accept_share_kept split: prod.split seen.split)

lemma verify_share_bounded:
  assumes "verify_share x en ck s cid se = Some (q, se')" and "session_bounded budget se" and "unat (p_job_id s) < MAX_JOB_SLOTS"
  shows "session_bounded budget se' \<and> se_recent_rejects se' = se_recent_rejects se"
proof -
  let ?j = "unat (p_job_id s)"
  obtain slot where v: "verify (x_sha256 x) (x_blake2b x) (se_slots se ! ?j) s (share_policy en ck (issued cid se)) = Some (q, slot)"
      "se' = se\<lparr>se_slots := (se_slots se)[?j := slot]\<rparr>" using assms(1) by (auto simp: verify_share_def Let_def)
  have j: "?j < length (se_slots se)" using assms(2,3) by (simp add: session_bounded_def)
  have "coinbase_bytes slot = coinbase_bytes (se_slots se ! ?j)" using verify_slot [OF v(1)] by (simp add: coinbase_bytes_def)
  then have "sum_list (map coinbase_bytes ((se_slots se)[?j := slot])) = held_bytes se"
    using sum_list_replace [OF j, of coinbase_bytes slot] by (simp add: held_bytes_def)
  moreover have "list_all slot_bounded ((se_slots se)[?j := slot])"
    using verify_slot [OF v(1)] assms(2) j by (auto simp: session_bounded_def list_all_length nth_list_update)
  ultimately show ?thesis using assms(2) by (simp add: v(2) session_bounded_def held_bytes_def)
qed

lemma check_share_kept:
  assumes "kept budget (Inr ()) r" and "unat (p_job_id s) < MAX_JOB_SLOTS"
  shows "holds (kept budget) (check_share x en ck s ident r)"
proof (cases "js_job (se_slots (rs_session r) ! unat (p_job_id s))")
  case None
  then show ?thesis using assms by (simp add: check_share_def reject_kept)
next
  case (Some j)
  have "kept budget (Inr ()) (with_session (warn_ahead ck) r)"
    using assms by (intro kept_session) (auto simp: kept_def warn_ahead_def)
  moreover have "kept budget (Inr ()) (r\<lparr>rs_session := se\<rparr>)"
    if "verify_share x en ck s (j_coinbaser_id j) (rs_session r) = Some (q, se)" for q se
    using verify_share_bounded [OF that] assms by (intro kept_session) (auto simp: kept_def)
  ultimately show ?thesis
    using assms unfolding check_share_def Some
    by (auto simp: Let_def reject_kept claim_share_kept intro!: holds_bind split: prod.split sum.split)
qed

lemma absorb_share_rejects: "absorb_share s se = (q, se') \<Longrightarrow> se_recent_rejects se' = se_recent_rejects se"
  by (auto simp: absorb_share_def touch_slot_def Let_def split: prod.splits sum.splits if_splits)

lemma absorb_share_error: "absorb_share s se = (Inl e, se') \<Longrightarrow> se' = se"
  by (auto simp: absorb_share_def Let_def split: prod.splits sum.splits if_splits dest: absorb_error)

lemma take_sections_kept:
  assumes "kept (cfg_session_coinbase_budget (en_cfg en)) (Inr ()) r" (is "kept ?b _ _") and "unat (p_job_id s) < MAX_JOB_SLOTS"
  shows "holds (kept (cfg_session_coinbase_budget (en_cfg en))) (take_sections x en ck s ident r)"
proof -
  obtain q se where a: "absorb_share s (rs_session r) = (q, se)" by fastforce
  note rj = absorb_share_rejects [OF a]
  have c: "session_counted (rs_session r)" "held_bytes (rs_session r) \<le> ?b"
    using assms(1) session_bounded_iff [of ?b "rs_session r"] by (simp_all add: kept_def)
  show ?thesis
  proof (cases q)
    case (Inl e)
    have "kept ?b (Inr ()) (r\<lparr>rs_session := se\<rparr>)"
      using absorb_share_error [OF a [unfolded Inl]] assms(1) by (intro kept_session) (simp_all add: kept_def)
    then show ?thesis using Inl a by (simp add: take_sections_def reject_kept)
  next
    case (Inr ab)
    note ct = absorb_share_counted [OF c(1) assms(2) a [unfolded Inr]]
    have bytes: "se_coinbase_bytes se = held_bytes se" using ct by (simp add: session_bounded_def)
    show ?thesis
    proof (cases "ab_coinbase_added ab \<noteq> None \<and> se_coinbase_bytes se > ?b")
      case True
      then obtain cid where cid: "ab_coinbase_added ab = Some cid" by blast
      have "session_counted se" using ct by blast
      note D = drop_coinbase_counted [OF this assms(2), of cid, THEN conjunct1]
      have "held_bytes (drop_coinbase (unat (p_job_id s)) (Some cid) se) \<le> held_bytes (rs_session r)" using ct cid by simp
      then have "session_bounded ?b (drop_coinbase (unat (p_job_id s)) (Some cid) se)"
        using c(2) by (intro session_boundedI [OF D]) (rule le_trans)
      moreover have "se_recent_rejects (drop_coinbase (unat (p_job_id s)) (Some cid) se) = se_recent_rejects (rs_session r)"
        by (simp add: drop_coinbase_def Let_def rj)
      ultimately have "kept ?b (Inr ()) (r\<lparr>rs_session := drop_coinbase (unat (p_job_id s)) (Some cid) se\<rparr>)"
        using assms(1) by (intro kept_session)
      then show ?thesis using True a Inr cid by (simp add: take_sections_def reject_kept)
    next
      case False
      then have "session_bounded ?b se"
        using ct c(2) bytes session_bounded_iff [of ?b se] by (cases "ab_coinbase_added ab") auto
      then have "kept ?b (Inr ()) (r\<lparr>rs_session := se\<rparr>)" using rj assms(1) by (intro kept_session)
      then show ?thesis using False a Inr check_share_kept [OF _ assms(2)] by (auto simp: take_sections_def)
    qed
  qed
qed

lemma on_pow_kept:
  assumes "kept (cfg_session_coinbase_budget (en_cfg en)) (Inr ()) r"
  shows "holds (kept (cfg_session_coinbase_budget (en_cfg en))) (on_pow x en ck s r)"
proof -
  have "kept (cfg_session_coinbase_budget (en_cfg en)) (Inr ()) (with_session (se_bad_username_warned_update (\<lambda>_. True)) r)"
    using assms by (intro kept_session) (auto simp: kept_def)
  moreover have "length (se_slots (rs_session r)) = MAX_JOB_SLOTS" using assms by (simp add: kept_def session_bounded_def)
  ultimately show ?thesis
    using assms take_sections_kept [OF assms] by (simp add: on_pow_def Let_def reject_kept)
qed

lemma min_le_burst: "min a COINBASER_BURST \<le> COINBASER_BURST"
  by simp

lemma issue_coinbaser_kept:
  assumes "kept budget (Inr ()) r"
  shows "holds (kept budget) (issue_coinbaser x en ck v prev_hash r)"
proof -
  have commit: "kept budget (Inr ()) r'" if "commit_output x en snap r0 = (hex, outs, r')" "kept budget (Inr ()) r0" for snap r0 hex outs r'
    using that by (auto simp: commit_output_def kept_def split: option.splits if_splits)
  have keep: "kept budget (Inr ()) (with_session (keep_coinbaser c) r')" if "kept budget (Inr ()) r'" for c r'
    using that by (auto simp: keep_coinbaser_def Let_def kept_def session_bounded_def held_bytes_def)
  have start: "kept budget (Inr ()) (with_session (se_next_coinbaser_id_update next_id) r)"
    using assms by (simp add: kept_def session_bounded_def held_bytes_def)
  show ?thesis
    unfolding issue_coinbaser_def Let_def
    by (auto simp del: kept_shared intro!: holds_bind send_mining_then dest!: commit [OF _ start] split: prod.split)
      (auto dest: keep)
qed

lemma on_coinbaser_request_kept:
  assumes "kept budget (Inr ()) r"
  shows "holds (kept budget) (on_coinbaser_request x en ck v prev_hash r)"
proof -
  have r: "kept budget (Inr ()) (with_session (refill_tokens ck) r)"
    using assms by (auto simp: refill_tokens_def Let_def kept_def session_bounded_def held_bytes_def)
  have "t - 1 \<le> COINBASER_BURST" if "t \<noteq> 0" "t \<le> COINBASER_BURST" for t
    using that by (simp add: COINBASER_BURST_def word_le_nat_alt unat_minus_one)
  then have t: "kept budget (Inr ()) (with_session (se_coinbaser_tokens_update (\<lambda>n. n - 1)) r')"
    if "kept budget (Inr ()) r'" "se_coinbaser_tokens (rs_session r') \<noteq> 0" for r'
    using that by (simp add: kept_def session_bounded_def held_bytes_def)
  show ?thesis
  proof (cases "se_coinbaser_tokens (rs_session (with_session (refill_tokens ck) r)) = 0")
    case True
    then show ?thesis using note_reject_kept [OF r] by (simp add: on_coinbaser_request_def holds_def split: prod.split)
  next
    case False
    then show ?thesis using issue_coinbaser_kept [OF t [OF r False]] by (simp add: on_coinbaser_request_def)
  qed
qed

lemma submit_all_session: "submit_all txns ps r = Some r' \<Longrightarrow> rs_session r' = rs_session r \<and> rs_shared r' = rs_shared r"
  by (induction ps arbitrary: r) (auto simp: submit_candidate_def split: Option.bind_splits)

lemma on_validation_kept: "kept budget (Inr ()) r \<Longrightarrow> holds (kept budget) (on_validation x v r)"
  by (auto simp: on_validation_def Let_def holds_def kept_def dest!: submit_all_session
      split: option.splits job_validation.splits if_splits)

lemma handle_frame_kept:
  assumes "kept (cfg_session_coinbase_budget (en_cfg en)) (Inr ()) r"
  shows "holds (kept (cfg_session_coinbase_budget (en_cfg en))) (handle_frame x en ck h payload r)"
proof -
  let ?b = "cfg_session_coinbase_budget (en_cfg en)"
  obtain q se where o: "open_payload x h payload (rs_session r) = (q, se)" by fastforce
  then have "session_bounded ?b se \<and> se_recent_rejects se = se_recent_rejects (rs_session r)"
    using assms by (auto simp: open_payload_def Let_def kept_def split: if_splits prod.splits sum.splits)
  then have k: "kept ?b (Inr ()) (r\<lparr>rs_session := se\<rparr>)" using assms by (intro kept_session) auto
  have "holds (kept ?b) (handle_mining x en ck body (r\<lparr>rs_session := se\<rparr>))" for body
    using on_pow_kept [OF k] on_coinbaser_request_kept [OF k] on_validation_kept [OF k] note_reject_kept [OF k] k
    by (auto simp: handle_mining_def holds_def split: sum.split client_msg.split prod.split)
  then show ?thesis
    using assms k kept_weaken by (auto simp: handle_frame_def o Let_def split: sum.split)
qed

lemma read_frames_kept:
  assumes "\<And>h payload r. kept budget (Inr ()) r \<Longrightarrow> holds (kept budget) (handle h payload r)"
    and "kept budget (Inr ()) r" and "read_frames handle i r = Some (q, i', r')"
  shows "kept budget q r'"
  using assms
proof (induction handle i r rule: read_frames.induct)
  case (1 handle i r)
  obtain nf i1 where n: "next_frame i = (nf, i1)" by fastforce
  show ?case
  proof (cases nf)
    case (Inl e)
    then show ?thesis using "1.prems"(2,3) n kept_weaken by (auto simp: read_frames.simps [of handle i])
  next
    case (Inr f)
    show ?thesis
    proof (cases f)
      case None
      then show ?thesis using "1.prems"(2,3) n Inr by (auto simp: read_frames.simps [of handle i])
    next
      case (Some hp)
      obtain h p where hp: "hp = (h, p)" by fastforce
      obtain q1 r1 where h: "handle h p r = Some (q1, r1)"
        using "1.prems"(3) n Inr Some hp by (auto simp: read_frames.simps [of handle i] split: option.splits)
      have k: "kept budget q1 r1" using "1.prems"(1) [OF "1.prems"(2), of h p] h by simp
      show ?thesis
      proof (cases q1)
        case (Inl e)
        then show ?thesis using "1.prems"(3) n Inr Some hp h k by (auto simp: read_frames.simps [of handle i])
      next
        case q1: (Inr u)
        have "read_frames handle i1 r1 = Some (q, i', r')"
          using "1.prems"(3) n Inr Some hp h q1 by (simp add: read_frames.simps [of handle i])
        then show ?thesis
          using "1.IH" [OF n [symmetric] Inr Some hp [symmetric] h refl q1 "1.prems"(1)] k q1 by simp
      qed
    qed
  qed
qed

lemma serve_step_kept:
  assumes "kept (cfg_session_coinbase_budget (en_cfg en)) (Inr ()) r" and "serve_step x en ck w i r = Some (q, i', r')"
  shows "kept (cfg_session_coinbase_budget (en_cfg en)) q r'"
proof -
  let ?b = "cfg_session_coinbase_budget (en_cfg en)"
  have send: "kept ?b q r'" if "send_mining x ck body sg r = (q, r')" for body sg
    using send_mining_kept [OF that assms(1)] kept_weaken by blast
  have tick: "kept ?b q r'" if "on_tick x ck r = Some (q, r')"
    using that assms(1)
    by (fastforce simp: on_tick_def and_then_def expire_pending_def Let_def kept_def dest!: write_frame_state split: if_splits sum.splits prod.splits)
  have recv: "kept ?b (Inr ()) (with_session (se_last_recv_update (\<lambda>_. ck_instant ck)) r)"
    using assms(1) by (simp add: kept_def)
  have read: "kept ?b q r'"
    if "read_frames (handle_frame x en ck) j (with_session (se_last_recv_update (\<lambda>_. ck_instant ck)) r) = Some (q, i', r')" for j
    by (rule read_frames_kept [OF _ recv that]) (rule handle_frame_kept)
  show ?thesis
  proof (cases w)
    case (Readable bs)
    show ?thesis
    proof (cases "bs = []")
      case True
      then show ?thesis using assms Readable kept_weaken [OF assms(1)] by (simp add: serve_step_def)
    next
      case False
      then have "read_frames (handle_frame x en ck) (deliver bs i) (with_session (se_last_recv_update (\<lambda>_. ck_instant ck)) r) =
          Some (q, i', r')"
        using assms(2) Readable by (simp add: serve_step_def receive_def)
      then show ?thesis by (rule read)
    qed
  next
    case Notice
    then show ?thesis using assms(2) send by (simp add: serve_step_def split: prod.splits)
  next
    case Lagged
    then show ?thesis using assms(2) send by (simp add: serve_step_def split: prod.splits)
  next
    case Tick
    then show ?thesis using assms(2) tick by (auto simp: serve_step_def)
  qed (use assms kept_weaken [OF assms(1)] in \<open>auto simp: serve_step_def\<close>)
qed

section \<open>A whole session\<close>

text \<open>
  The life of a session: its own steps, and in between whatever the rest of the process does to the
  shared state and the peer to the stream.
\<close>

inductive serving :: "ext \<Rightarrow> env \<Rightarrow> intake \<times> run_state \<Rightarrow> intake \<times> run_state \<Rightarrow> bool" for x en where
  wake: "serve_step x en ck w i r = Some (Inr (), i', r') \<Longrightarrow> serving x en (i, r) (i', r')"
| others: "serving x en (i, r) (i, r\<lparr>rs_shared := sh\<rparr>)"
| world: "serving x en (i, r) (i, r\<lparr>rs_closed := c, rs_store_fails := f\<rparr>)"

inductive_cases servingE: "serving x en p p'"

lemma serving_kept:
  assumes "serving x en p p'" and "kept (cfg_session_coinbase_budget (en_cfg en)) (Inr ()) (snd p)"
  shows "kept (cfg_session_coinbase_budget (en_cfg en)) (Inr ()) (snd p')"
  using assms(1)
proof (cases rule: serving.cases)
  case (wake ck w i r i' r')
  then show ?thesis using serve_step_kept [OF _ wake(3)] assms(2) by simp
qed (use assms(2) in \<open>auto simp: kept_def\<close>)

lemma serving_all_kept:
  "(serving x en)\<^sup>*\<^sup>* p p' \<Longrightarrow> kept (cfg_session_coinbase_budget (en_cfg en)) (Inr ()) (snd p) \<Longrightarrow>
     kept (cfg_session_coinbase_budget (en_cfg en)) (Inr ()) (snd p')"
  by (induction rule: rtranclp_induct) (auto intro: serving_kept)

lemma new_session_bounded: "session_bounded budget (new_session x ck sid remote key hello)"
  by (auto simp: new_session_def Let_def session_bounded_def held_bytes_def slot_bounded_default list_all_iff
      MAX_LIVE_SLOTS_def COINBASERS_KEPT_def sum_list_replicate split: prod.split)

lemma new_session_rejects: "se_recent_rejects (new_session x ck sid remote key hello) = []"
  by (simp add: new_session_def split: prod.split)

lemma open_session_kept:
  assumes "open_session x en ck key seal token remote gone store_fails arrived sh = (Inr (i, rest, r), sh')"
  shows "kept budget (Inr ()) r"
proof -
  obtain hello r1 r2 q where w: "reply_hello x en seal r1 = (Inr q, r2)"
      "rs_session r1 = new_session x ck (sh_next_client_id sh) remote key hello"
    and s: "\<exists>sh2. send_configure x en ck token (r2\<lparr>rs_shared := sh2\<rparr>) = (Inr (), r)"
    using assms
    by (auto simp: open_session_def Let_def split: sum.splits prod.splits) fastforce
  obtain k b where "r2 = (with_session (se_send_keys_update (\<lambda>_. k)) r1)\<lparr>rs_sent := b\<rparr>"
    using w(1) write_frame_state unfolding reply_hello_def Let_def by blast
  then have r2: "kept budget (Inr ()) (r2\<lparr>rs_shared := sh2\<rparr>)" for sh2
    using w(2) by (simp add: kept_def new_session_bounded new_session_rejects)
  from s obtain sh2 where "send_configure x en ck token (r2\<lparr>rs_shared := sh2\<rparr>) = (Inr (), r)" by blast
  then show ?thesis using send_mining_kept [OF _ r2] unfolding send_configure_def Let_def by blast
qed

text \<open>
  C5: No gateway can make a session hold more than its share.  After the greeting, whatever bytes arrive in
  whatever pieces and whatever the rest of the process does, as long as the session lives: the count
  of coinbase bytes is exact and within the budget, every slot is within its own limits, at most 16
  slots are queued as live and 16 coinbasers kept, at most 32 tokens are saved up and at most 2000
  rejects remembered.
\<close>

theorem session_memory_bounded:
  assumes "open_session x en ck key seal token remote gone store_fails arrived sh = (Inr (i0, rest, r0), sh')"
    and "(serving x en)\<^sup>*\<^sup>* (i0, r0) (i, r)"
  shows "se_coinbase_bytes (rs_session r) = sum_list (map coinbase_bytes (se_slots (rs_session r))) \<and>
    se_coinbase_bytes (rs_session r) \<le> cfg_session_coinbase_budget (en_cfg en) \<and>
    length (se_slots (rs_session r)) = MAX_JOB_SLOTS \<and> list_all slot_bounded (se_slots (rs_session r)) \<and>
    length (se_live_slots (rs_session r)) \<le> MAX_LIVE_SLOTS \<and> length (se_coinbasers (rs_session r)) \<le> COINBASERS_KEPT \<and>
    se_coinbaser_tokens (rs_session r) \<le> COINBASER_BURST \<and> length (se_recent_rejects (rs_session r)) \<le> REJECT_FLOOD"
  using serving_all_kept [OF assms(2)] open_session_kept [OF assms(1)]
  by (simp add: kept_def session_bounded_def held_bytes_def)

section \<open>Sections outside the live slots\<close>

text \<open>
  A share that brings a coinbase section but no job, for a slot that never had a job.
\<close>

definition section_share :: "nat \<Rightarrow> pow_submit" where
  "section_share k =
     \<lparr>p_job_id = of_nat k, p_coinbase_id = 1, p_flags = 0, p_target_pot = 0, p_ntime32 = 0, p_nonce32 = 0, p_version = 0,
      p_extranonce = [], p_username = '''', p_reserved = [], p_blake2b = None, p_time_on_wire = None, p_job = None,
      p_coinbase = Some \<lparr>cs_coinbase_id = 1, cs_coinb1 = [7], cs_coinb2 = [8]\<rparr>\<rparr>"

lemma absorb_section_share:
  assumes "se_slots se ! k = slot_default" and "k < 256" and "k < length (se_slots se)"
  shows "\<exists>slot bytes. absorb_share (section_share k) se =
      (Inr \<lparr>ab_job_changed = False, ab_coinbase_added = Some 1\<rparr>, se\<lparr>se_slots := (se_slots se)[k := slot], se_coinbase_bytes := bytes\<rparr>) \<and>
    js_coinbases slot \<noteq> []"
proof -
  have k: "unat (of_nat k :: u8) = k" using assms(2) by (simp add: unat_of_nat_lt)
  obtain slot where a: "absorb slot_default (section_share k) = (Inr \<lparr>ab_job_changed = False, ab_coinbase_added = Some 1\<rparr>, slot)"
      "js_coinbases slot \<noteq> []"
    by (simp add: absorb_def section_share_def absorb_job_def slot_default_def section_bytes_def MAX_COINBASE_SECTION_BYTES_def
        MAX_COINBASES_PER_SLOT_def retain_others_def)
  have "p_job_id (section_share k) = of_nat k" by (simp add: section_share_def)
  then show ?thesis
    using a by (intro exI [of _ slot] exI [of _ "se_coinbase_bytes se - coinbase_bytes slot_default + coinbase_bytes slot"])
      (simp add: absorb_share_def Let_def k assms(1))
qed

text \<open>A gateway that greets the example pool.\<close>

definition demo_greeting :: bytes where
  "demo_greeting =
     (let m = build_client_hello demo_nacl [] (box_pk demo_nacl (en_pool demo_env)) (demo_keys 1) (demo_keys 2) ''ua'' 7 [];
          h = (header_new CMD_HELLO (length m))\<lparr>h_sealed := True, h_signed := True\<rparr>
      in fst (header_encode h CLIENT_INITIAL_KEY) @ m)"

definition demo_clock :: clock where
  "demo_clock = \<lparr>ck_now = 1000, ck_instant = secs 5\<rparr>"

lemma demo_greeting_read: "\<not> isl (read_hello demo_ext demo_env (Some demo_greeting))"
  by code_simp

lemma sent_open:
  "\<not> rs_closed r \<Longrightarrow> fst (write_frame h b r) = Inr ()" "\<not> rs_closed r \<Longrightarrow> rs_closed (snd (write_frame h b r)) = False"
  "\<not> rs_closed r \<Longrightarrow> fst (send_mining x ck b sg r) = Inr ()"
  by (simp_all add: write_frame_def send_mining_def Let_def split: prod.split sum.split)

lemma open_session_ok:
  assumes "read_hello x en arrived = Inr (hello, rest)"
  shows "\<exists>i r sh'. open_session x en ck key seal token remote False f arrived sh = (Inr (i, rest, r), sh')"
proof -
  let ?se = "new_session x ck (sh_next_client_id sh) remote key hello"
  let ?sh = "sh\<lparr>sh_next_client_id := sh_next_client_id sh + 1\<rparr>"
  let ?r = "\<lparr>rs_session = ?se, rs_shared = ?sh, rs_sent = [], rs_closed = False, rs_store_fails = f, rs_notices = [], rs_submits = []\<rparr>"
  obtain q r1 where w: "reply_hello x en seal ?r = (q, r1)" by fastforce
  have "fst (reply_hello x en seal ?r) = Inr ()" "\<not> rs_closed (snd (reply_hello x en seal ?r))"
    unfolding reply_hello_def Let_def by (rule sent_open, simp) (simp add: sent_open)
  then have q: "q = Inr ()" "\<not> rs_closed r1" using w by simp_all
  have "fst (send_configure x en ck token (r1\<lparr>rs_shared := sh2\<rparr>)) = Inr ()" for sh2
    unfolding send_configure_def Let_def by (rule sent_open) (simp add: q)
  then have "\<exists>r. send_configure x en ck token (r1\<lparr>rs_shared := sh2\<rparr>) = (Inr (), r)" for sh2
    by (metis prod.collapse)
  then show ?thesis
    using assms w q by (auto simp: open_session_def Let_def split: prod.split sum.split) (metis Inr_inject Inr_not_Inl Pair_inject)
qed

lemma demo_opens: "\<exists>i rest r sh'. open_session demo_ext demo_env demo_clock (demo_keys 3) [] (replicate 40 0) (V4 0x7F000001, 1) False False
    (Some demo_greeting) demo_shared = (Inr (i, rest, r), sh')"
proof -
  obtain hello rest where "read_hello demo_ext demo_env (Some demo_greeting) = Inr (hello, rest)"
    using demo_greeting_read by (cases "read_hello demo_ext demo_env (Some demo_greeting)") auto
  from open_session_ok [OF this] show ?thesis by blast
qed

theorem session_memory_bounded_witness:
  "\<exists>i rest r sh'. open_session demo_ext demo_env demo_clock (demo_keys 3) [] (replicate 40 0) (V4 0x7F000001, 1) False False
      (Some demo_greeting) demo_shared = (Inr (i, rest, r), sh') \<and>
    se_coinbase_bytes (rs_session r) \<le> cfg_session_coinbase_budget (en_cfg demo_env)"
proof -
  obtain i rest r sh' where o: "open_session demo_ext demo_env demo_clock (demo_keys 3) [] (replicate 40 0) (V4 0x7F000001, 1) False False
      (Some demo_greeting) demo_shared = (Inr (i, rest, r), sh')" using demo_opens by blast
  show ?thesis using session_memory_bounded [OF o rtranclp.rtrancl_refl] o by blast
qed

section \<open>Any number of slots can hold sections\<close>

lemma section_shares_fill:
  assumes "n \<le> 256" and "length (se_slots se) = 256" and "\<forall>k < 256. se_slots se ! k = slot_default"
  shows "let se' = fold (\<lambda>k se. snd (absorb_share (section_share k) se)) [0..<n] se in
    se_live_slots se' = se_live_slots se \<and> length (se_slots se') = 256 \<and>
    (\<forall>k < n. js_coinbases (se_slots se' ! k) \<noteq> []) \<and> (\<forall>k < 256. n \<le> k \<longrightarrow> se_slots se' ! k = slot_default)"
  using assms(1)
proof (induction n)
  case 0
  then show ?case using assms(2,3) by simp
next
  case (Suc n)
  let ?se = "fold (\<lambda>k se. snd (absorb_share (section_share k) se)) [0..<n] se"
  have i: "se_live_slots ?se = se_live_slots se" "length (se_slots ?se) = 256"
      "\<forall>k < n. js_coinbases (se_slots ?se ! k) \<noteq> []" "\<forall>k < 256. n \<le> k \<longrightarrow> se_slots ?se ! k = slot_default"
    using Suc by (simp_all add: Let_def)
  obtain slot bytes where a: "absorb_share (section_share n) ?se =
      (Inr \<lparr>ab_job_changed = False, ab_coinbase_added = Some 1\<rparr>, ?se\<lparr>se_slots := (se_slots ?se)[n := slot], se_coinbase_bytes := bytes\<rparr>)"
      "js_coinbases slot \<noteq> []"
    using absorb_section_share [of ?se n] i Suc.prems by auto
  have "fold (\<lambda>k se. snd (absorb_share (section_share k) se)) [0..<Suc n] se =
      ?se\<lparr>se_slots := (se_slots ?se)[n := slot], se_coinbase_bytes := bytes\<rparr>" using a by simp
  then show ?case using i a(2) Suc.prems by (simp only: Let_def) (auto simp: nth_list_update less_Suc_eq)
qed

text \<open>
  The queue of live slots does not bound the slots that hold sections.  From a fresh session, shares
  that bring a section without a job fill any number of slots, up to all 256, and the queue stays
  empty, so that none of them is ever evicted; only the byte budget limits what they hold.
\<close>

theorem sections_outside_live_slots:
  assumes "n \<le> 256"
  shows "let se = fold (\<lambda>k se. snd (absorb_share (section_share k) se)) [0..<n] (new_session x ck sid remote key hello) in
    se_live_slots se = [] \<and> list_all (\<lambda>slot. js_coinbases slot \<noteq> []) (take n (se_slots se)) \<and> length (se_slots se) = 256"
proof -
  have "length (se_slots (new_session x ck sid remote key hello)) = 256"
    "\<forall>k < 256. se_slots (new_session x ck sid remote key hello) ! k = slot_default"
    "se_live_slots (new_session x ck sid remote key hello) = []"
    by (simp_all add: new_session_def MAX_JOB_SLOTS_def split: prod.split)
  then show ?thesis
    using section_shares_fill [OF assms, of "new_session x ck sid remote key hello"] assms
    by (simp add: Let_def list_all_length)
qed

theorem sections_outside_live_slots_witness:
  "let se = fold (\<lambda>k se. snd (absorb_share (section_share k) se)) [0..<17] (new_session demo_ext demo_clock 1 (V4 1, 1) (demo_keys 3) hello) in
     se_live_slots se = [] \<and> length (take 17 (se_slots se)) = 17"
  using sections_outside_live_slots [of 17 demo_ext demo_clock 1 "(V4 1, 1)" "demo_keys 3" hello] by (simp add: Let_def)

end
