(* ===== verification/Crediting.thy ===== *)
theory Crediting
  imports Session_Bounds
begin

text \<open>
  What a share can do to the pool's books: only a share that verifies, from an identity that can be paid
  and is not banned, at a height that is not stale, and that nobody was credited for, changes them,
  and then by exactly its own row.  No share is credited twice, whatever sessions do in whatever order.
\<close>

section \<open>What the handlers leave alone\<close>

definition same_books :: "shared \<Rightarrow> shared \<Rightarrow> bool" where
  "same_books sh sh' \<longleftrightarrow>
     sh_ledger sh' = sh_ledger sh \<and> sh_disk sh' = sh_disk sh \<and> sh_workers sh' = sh_workers sh \<and> sh_seen sh' = sh_seen sh \<and>
     sh_controls sh' = sh_controls sh \<and> sh_tip sh' = sh_tip sh \<and> sh_carry sh' = sh_carry sh"

lemma same_books_refl [simp]: "same_books sh sh"
  by (simp add: same_books_def)

lemma same_books_trans: "same_books a b \<Longrightarrow> same_books b c \<Longrightarrow> same_books a c"
  by (simp add: same_books_def)

lemma same_books_updates [simp]:
  "same_books a (sh\<lparr>sh_totals := t\<rparr>) = same_books a sh"
  "same_books a (sh\<lparr>sh_clients := c\<rparr>) = same_books a sh"
  "same_books a (sh\<lparr>sh_blocks := b\<rparr>) = same_books a sh"
  "same_books a (sh\<lparr>sh_block_log := l\<rparr>) = same_books a sh"
  "same_books (sh\<lparr>sh_totals := t\<rparr>) a = same_books sh a"
  by (simp_all add: same_books_def)

abbreviation keeps_books :: "run_state \<Rightarrow> outcome \<Rightarrow> bool" where
  "keeps_books r \<equiv> holds (\<lambda>_ r'. same_books (rs_shared r) (rs_shared r'))"

lemma client_update_books: "client_update cid f sh = Some sh' \<Longrightarrow> same_books sh sh'"
  by (auto simp: client_update_def same_books_def split: option.splits Option.bind_splits)

lemma send_mining_shared: "send_mining x ck b sg r = (q, r') \<Longrightarrow> rs_shared r' = rs_shared r"
  by (auto dest!: send_mining_state)

lemma sent_books:
  assumes "\<And>r'. rs_shared r' = rs_shared r \<Longrightarrow> rs_session r' = (rs_session r)\<lparr>se_send_keys := se_send_keys (rs_session r'),
      se_channel := se_channel (rs_session r'), se_last_send := se_last_send (rs_session r')\<rparr> \<Longrightarrow> holds P (f r')"
    and "\<And>e r'. rs_shared r' = rs_shared r \<Longrightarrow> P (Inl e) r'"
  shows "holds P (and_then (send_mining x ck b sg r) f)"
proof (rule holds_and_then)
  fix e r' assume "send_mining x ck b sg r = (Inl e, r')"
  then show "P (Inl e) r'" using assms(2) send_mining_shared by blast
next
  fix r' assume s: "send_mining x ck b sg r = (Inr (), r')"
  from send_mining_state [OF s] show "holds P (f r')" by (intro assms(1)) auto
qed

lemma reject_books: "keeps_books r (reject x ck s code r)"
  unfolding reject_def Let_def
  by (intro holds_bind sent_books)
    (auto simp: note_reject_def Let_def dest!: client_update_books elim: same_books_trans [rotated] split: if_splits)

lemma record_block_books: "same_books a (record_block x b sh) = same_books a sh"
  by (simp add: record_block_def Let_def)

lemma on_block_candidate_books: "keeps_books r (on_block_candidate x en ck s v finder r)"
  unfolding on_block_candidate_def Let_def
  by (intro holds_bind, clarsimp, intro holds_bind sent_books)
    (auto simp: record_block_books dest!: client_update_books)

section \<open>One share\<close>

text \<open>The height of a share against the tip, in plain numbers.\<close>

definition timely :: "tip option \<Rightarrow> u32 \<Rightarrow> bool" where
  "timely t h \<longleftrightarrow> (case t of None \<Rightarrow> True | Some t \<Rightarrow> unat (tp_height t) \<le> unat h \<and> unat h \<le> unat (tp_height t) + 2)"

lemma height_check_timely:
  assumes "height_check en ck t h = Some (False, False)"
  shows "timely (Some t) h"
proof -
  obtain e a where e: "checked_add (tp_height t) 1 = Some e" "checked_add e 1 = Some a" "\<not> h > a"
      "\<not> (h < e \<and> h + 1 \<noteq> e)"
    using assms by (auto simp: height_check_def split: Option.bind_splits)
  have u: "unat e = unat (tp_height t) + 1" "unat a = unat (tp_height t) + 2" using e(1,2) by (simp_all add: checked_add_Some)
  have "unat (tp_height t) \<le> unat h"
  proof (cases "h < e")
    case True
    then have "h + 1 = e" using e(4) by simp
    then have "unat (h + 1) = unat (tp_height t) + 1" using u by simp
    moreover have "unat (h + 1) \<le> unat h + 1" by (simp add: unat_word_ariths)
    ultimately show ?thesis by linarith
  next
    case False
    then show ?thesis using u by (simp add: word_less_nat_alt)
  qed
  moreover have "unat h \<le> unat a" using e(3) by (simp add: word_less_nat_alt)
  ultimately show ?thesis using u by (simp add: timely_def)
qed

text \<open>What it takes to be credited, and what the credit changes.\<close>

definition share_earned ::
    "ext \<Rightarrow> env \<Rightarrow> clock \<Rightarrow> pow_submit \<Rightarrow> verified_share \<Rightarrow> shared \<Rightarrow> bool" where
  "share_earned x en ck s v sh \<longleftrightarrow>
     script_for x en (share_identity x s) \<noteq> None \<and> \<not> identity_banned (sh_controls sh) (share_identity x s) \<and>
     timely (sh_tip sh) (v_height v) \<and> min_pot (en_cfg en) \<le> p_target_pot s \<and>
     (\<exists>t. share_target_le (p_target_pot s) = Some t \<and> meets_target (v_hash v) t) \<and>
     unat (v_work v) = min (2 ^ unat (p_target_pot s)) (2 ^ 64 - 1) \<and> v_coinbase_kind v \<noteq> Foreign \<and>
     v_hash v \<notin> set (credited (sh_seen sh) (v_height v))"

definition share_booked :: "ext \<Rightarrow> clock \<Rightarrow> pow_submit \<Rightarrow> verified_share \<Rightarrow> shared \<Rightarrow> shared \<Rightarrow> bool" where
  "share_booked x ck s v sh sh' \<longleftrightarrow>
     (\<exists>source. ledger_credit (sh_ledger sh) (sh_disk sh) (share_identity x s) (v_work v) (v_height v) (ucast (ck_now ck)) source
        = Some (sh_ledger sh', sh_disk sh')) \<and>
     (\<forall>h. credited (sh_seen sh') h = (if h = v_height v then v_hash v # credited (sh_seen sh) h else credited (sh_seen sh) h))"

text \<open>Books in which nothing was earned: the set of credited shares may have been touched, not changed.\<close>

definition nothing_booked :: "shared \<Rightarrow> shared \<Rightarrow> bool" where
  "nothing_booked sh sh' \<longleftrightarrow>
     sh_ledger sh' = sh_ledger sh \<and> sh_disk sh' = sh_disk sh \<and> sh_workers sh' = sh_workers sh \<and>
     (\<forall>h. credited (sh_seen sh') h = credited (sh_seen sh) h)"

text \<open>The verdict on a share: what \<open>verify\<close> makes of it in its slot, and after its sections are taken in.\<close>

definition slot_verdict :: "ext \<Rightarrow> env \<Rightarrow> clock \<Rightarrow> pow_submit \<Rightarrow> session \<Rightarrow> verified_share option" where
  "slot_verdict x en ck s se =
     (case js_job (se_slots se ! unat (p_job_id s)) of
        None \<Rightarrow> None
      | Some j \<Rightarrow> (case verify_share x en ck s (j_coinbaser_id j) se of Some (Inr v, _) \<Rightarrow> Some v | _ \<Rightarrow> None))"

definition share_verdict :: "ext \<Rightarrow> env \<Rightarrow> clock \<Rightarrow> pow_submit \<Rightarrow> session \<Rightarrow> verified_share option" where
  "share_verdict x en ck s se = slot_verdict x en ck s (snd (absorb_share s se))"

definition share_effect ::
    "ext \<Rightarrow> env \<Rightarrow> clock \<Rightarrow> pow_submit \<Rightarrow> verified_share option \<Rightarrow> shared \<Rightarrow> shared \<Rightarrow> bool" where
  "share_effect x en ck s verdict sh sh' \<longleftrightarrow>
     seen_ok (sh_seen sh') \<and> sh_controls sh' = sh_controls sh \<and> sh_tip sh' = sh_tip sh \<and> sh_carry sh' = sh_carry sh \<and>
     (nothing_booked sh sh' \<or> (\<exists>v. verdict = Some v \<and> share_earned x en ck s v sh \<and> share_booked x ck s v sh sh'))"

abbreviation effect_of :: "ext \<Rightarrow> env \<Rightarrow> clock \<Rightarrow> pow_submit \<Rightarrow> verified_share option \<Rightarrow> shared \<Rightarrow> outcome \<Rightarrow> bool" where
  "effect_of x en ck s verdict sh \<equiv> holds (\<lambda>_ r'. share_effect x en ck s verdict sh (rs_shared r'))"

lemma same_books_effect: "same_books sh sh' \<Longrightarrow> seen_ok (sh_seen sh) \<Longrightarrow> share_effect x en ck s vd sh sh'"
  by (simp add: same_books_def share_effect_def nothing_booked_def)

lemma reject_effect: "seen_ok (sh_seen (rs_shared r)) \<Longrightarrow> effect_of x en ck s vd (rs_shared r) (reject x ck s code r)"
  using reject_books [of r x ck s code] by (auto simp: holds_def intro: same_books_effect split: option.splits)

text \<open>What \<open>verify\<close> establishes, whatever the caches hold.\<close>

lemma try_conventions_meets:
  "try_conventions sha blake s b2 job tow fl legacy t cid slot cs = (Some (c, hash, i), slot') \<Longrightarrow> meets_target hash t"
  by (induction cs) (auto simp: Let_def split: option.splits if_splits)

lemma verify_meets:
  assumes "verify sha blake slot s p = Some (Inr v, slot')"
  obtains job t where "js_job slot = Some job" "v_height v = j_height job" "share_target_le (p_target_pot s) = Some t"
    "meets_target (v_hash v) t" "pol_min_pot p \<le> p_target_pot s" "v_coinbase_kind v \<noteq> Foreign" "v_work v = claimed_work s"
proof -
  obtain t where t: "share_target_le (p_target_pot s) = Some t" "verify_with_target sha blake slot s p t = Some (Inr v, slot')"
      "pol_min_pot p \<le> p_target_pot s" using verify_target [OF assms] by blast
  from t(2) show thesis
  proof (cases rule: verify_cases)
    case (work b2 tow job legacy parsed slot1 kind)
    obtain c hash i slot2 where c: "try_conventions sha blake s b2 job tow (share_flags s) legacy t (coinbase_id_for s) slot1
        (conventions_of slot1) = (Some (c, hash, i), slot2)"
      using work(8) by (auto simp: check_work_def Let_def split: if_splits prod.splits option.splits)
    then have "v_hash v = hash" "v_height v = j_height job" "v_coinbase_kind v = kind" "v_work v = claimed_work s"
      using work(8) by (auto simp: check_work_def Let_def split: if_splits)
    then show ?thesis using that work(4,7) t(1,3) try_conventions_meets [OF c] by simp
  qed auto
qed

lemma credit_share_state:
  assumes "credit_share en ck s v ident se sh = Some sh'"
  shows "(\<exists>source. ledger_credit (sh_ledger sh) (sh_disk sh) ident (v_work v) (v_height v) (ucast (ck_now ck)) source
        = Some (sh_ledger sh', sh_disk sh')) \<and>
    sh_seen sh' = sh_seen sh \<and> sh_controls sh' = sh_controls sh \<and> sh_tip sh' = sh_tip sh \<and> sh_carry sh' = sh_carry sh"
proof -
  obtain l d w where l: "ledger_credit (sh_ledger sh) (sh_disk sh) ident (v_work v) (v_height v) (ucast (ck_now ck)) (share_source en se) = Some (l, d)"
    and c: "client_update (se_id se) (count_accepted ident v (ck_now ck))
       (sh\<lparr>sh_ledger := l, sh_disk := d, sh_workers := w,
           sh_totals := (sh_totals sh)\<lparr>to_accepted := to_accepted (sh_totals sh) + 1, to_work := to_work (sh_totals sh) + v_work v\<rparr>\<rparr>) = Some sh'"
    using assms by (auto simp: credit_share_def Let_def split: Option.bind_splits)
  show ?thesis using client_update_books [OF c] l by (auto simp: same_books_def)
qed

lemma accept_share_books:
  assumes "script_for x en ident \<noteq> None"
  shows "holds (\<lambda>_ r'. \<exists>sh. credit_share en ck s v ident (rs_session r) (rs_shared r) = Some sh \<and> same_books sh (rs_shared r'))
    (accept_share x en ck s v ident r)"
proof -
  have "holds (\<lambda>_ r'. \<exists>sh. credit_share en ck s v ident (rs_session r) (rs_shared r) = Some sh \<and> same_books sh (rs_shared r'))
      (and_then (send_mining x ck b False (r\<lparr>rs_shared := sh\<rparr>))
        (\<lambda>r. if v_is_block_candidate v then on_block_candidate x en ck s v ident r else Some (Inr (), r)))"
    if sh: "credit_share en ck s v ident (rs_session r) (rs_shared r) = Some sh" for b sh
  proof (rule sent_books)
    fix r' :: run_state assume "rs_shared r' = rs_shared (r\<lparr>rs_shared := sh\<rparr>)"
    then show "holds (\<lambda>_ r'. \<exists>sh. credit_share en ck s v ident (rs_session r) (rs_shared r) = Some sh \<and> same_books sh (rs_shared r'))
        (if v_is_block_candidate v then on_block_candidate x en ck s v ident r' else Some (Inr (), r'))"
      using on_block_candidate_books [of r' x en ck s v ident] sh by (auto simp: holds_def split: option.splits)
  qed (use sh in auto)
  then show ?thesis using assms by (auto simp: accept_share_def Let_def)
qed

lemma claim_share_effect:
  assumes ok: "seen_ok (sh_seen (rs_shared r))"
    and earned: "v_hash v \<notin> set (credited (sh_seen (rs_shared r)) (v_height v)) \<Longrightarrow> share_earned x en ck s v (rs_shared r)"
    and pay: "script_for x en (share_identity x s) \<noteq> None"
  shows "effect_of x en ck s (Some v) (rs_shared r) (claim_share x en ck s v (share_identity x s) r)"
proof -
  let ?sh = "rs_shared r" and ?id = "share_identity x s"
  obtain fresh ss where i: "seen_insert (sh_seen ?sh) (v_height v) (v_hash v) = (fresh, ss)" by fastforce
  note ins = seen_insert_ok [OF ok i]
  let ?r = "with_shared (sh_seen_update (\<lambda>_. ss)) r"
  have rejected: "effect_of x en ck s (Some v) ?sh (reject x ck s code ?r)" if "fresh \<noteq> Fresh" for code
    using reject_effect [of ?r x en ck s None code] ins(1) ins(3) that
    by (auto simp: holds_def share_effect_def nothing_booked_def share_booked_def share_earned_def split: option.splits)
  show ?thesis
  proof (cases fresh)
    case Fresh
    have new: "v_hash v \<notin> set (credited (sh_seen ?sh) (v_height v))" using ins(2) Fresh by simp
    have "share_effect x en ck s (Some v) ?sh (rs_shared r')"
      if c: "credit_share en ck s v ?id (rs_session ?r) (rs_shared ?r) = Some sh" and b: "same_books sh (rs_shared r')" for sh r'
    proof -
      note st = credit_share_state [OF c]
      then obtain source where l: "ledger_credit (sh_ledger ?sh) (sh_disk ?sh) ?id (v_work v) (v_height v) (ucast (ck_now ck)) source =
          Some (sh_ledger sh, sh_disk sh)" by auto
      have "share_booked x ck s v ?sh (rs_shared r')"
        using l st b ins(3) Fresh by (auto simp: share_booked_def same_books_def)
      then show ?thesis using st b ins(1) earned [OF new] by (auto simp: share_effect_def same_books_def)
    qed
    then show ?thesis
      using accept_share_books [OF pay, of ck s v ?r] i Fresh by (auto simp: claim_share_def holds_def split: option.splits)
  qed (use rejected i in \<open>auto simp: claim_share_def\<close>)
qed

lemma check_share_effect:
  assumes ok: "seen_ok (sh_seen (rs_shared r))" and pay: "script_for x en (share_identity x s) \<noteq> None"
    and free: "\<not> identity_banned (sh_controls (rs_shared r)) (share_identity x s)"
  shows "effect_of x en ck s (slot_verdict x en ck s (rs_session r)) (rs_shared r) (check_share x en ck s (share_identity x s) r)"
proof (cases "js_job (se_slots (rs_session r) ! unat (p_job_id s))")
  case None
  then show ?thesis using reject_effect [OF ok] by (simp add: check_share_def)
next
  case (Some j)
  let ?h = "case sh_tip (rs_shared r) of None \<Rightarrow> Some (False, False) | Some t \<Rightarrow> height_check en ck t (j_height j)"
  have claim: "effect_of x en ck s (slot_verdict x en ck s (rs_session r)) (rs_shared r) (claim_share x en ck s v (share_identity x s) (r\<lparr>rs_session := se\<rparr>))"
    if vs: "verify_share x en ck s (j_coinbaser_id j) (rs_session r) = Some (Inr v, se)" and h: "?h = Some (False, False)" for v se
  proof -
    have verdict: "slot_verdict x en ck s (rs_session r) = Some v" using vs Some by (simp add: slot_verdict_def)
    from vs obtain slot where "verify (x_sha256 x) (x_blake2b x) (se_slots (rs_session r) ! unat (p_job_id s)) s
        (share_policy en ck (issued (j_coinbaser_id j) (rs_session r))) = Some (Inr v, slot)"
      by (auto simp: verify_share_def Let_def)
    then obtain t where v: "v_height v = j_height j" "share_target_le (p_target_pot s) = Some t" "meets_target (v_hash v) t"
        "min_pot (en_cfg en) \<le> p_target_pot s" "v_coinbase_kind v \<noteq> Foreign" "v_work v = claimed_work s"
      by (rule verify_meets) (use Some in \<open>auto simp: share_policy_def\<close>)
    have "timely (sh_tip (rs_shared r)) (v_height v)"
      using h height_check_timely by (auto simp: v(1) timely_def split: option.splits)
    then have "share_earned x en ck s v (rs_shared r)" if "v_hash v \<notin> set (credited (sh_seen (rs_shared r)) (v_height v))"
      using that pay free v claimed_work_value [of s] by (auto simp: share_earned_def)
    then show ?thesis
      using claim_share_effect [of "r\<lparr>rs_session := se\<rparr>" v x en ck s] ok pay verdict by simp
  qed
  have "effect_of x en ck s vd (rs_shared r) (reject x ck s code (r\<lparr>rs_session := se\<rparr>))" for code se vd
    using reject_effect [of "r\<lparr>rs_session := se\<rparr>" x en ck s _ code] ok by simp
  then show ?thesis
    using claim reject_effect [OF ok] unfolding check_share_def Some Let_def
    by (auto intro!: holds_bind split: prod.split sum.split)
qed

lemma on_pow_effect:
  assumes ok: "seen_ok (sh_seen (rs_shared r))"
  shows "effect_of x en ck s (share_verdict x en ck s (rs_session r)) (rs_shared r) (on_pow x en ck s r)"
proof -
  have rej: "effect_of x en ck s vd (rs_shared r) (reject x ck s code (r\<lparr>rs_session := se\<rparr>))" for code se vd
    using reject_effect [of "r\<lparr>rs_session := se\<rparr>" x en ck s _ code] ok by simp
  have "effect_of x en ck s (share_verdict x en ck s (rs_session r)) (rs_shared r) (take_sections x en ck s (share_identity x s) r)"
    if "script_for x en (share_identity x s) \<noteq> None" "\<not> identity_banned (sh_controls (rs_shared r)) (share_identity x s)"
    using rej check_share_effect [of "r\<lparr>rs_session := se\<rparr>" x en s ck for se] that ok
    by (auto simp: take_sections_def share_verdict_def Let_def split: prod.split sum.split)
  then show ?thesis using rej reject_effect [OF ok] by (auto simp: on_pow_def Let_def)
qed

text \<open>
  C3: Nothing reaches the books that was not earned.  Whatever a gateway submits, and however the handling
  ends, either the ledger, the worker table and the set of credited hashes are what they were, or the
  share verified: its hash meets the target of a difficulty the pool allows, its coinbase is none of
  strangers, its height is that of the tip, the next, or the one after, its identity can be paid and
  is not banned, and no session was ever credited for the hash at that height; and then exactly one
  row of two to the pot is credited, to that identity, and exactly that hash is recorded.
\<close>

theorem only_earned_shares_credited:
  assumes "seen_ok (sh_seen (rs_shared r))" and "on_pow x en ck s r = Some (q, r')"
  shows "nothing_booked (rs_shared r) (rs_shared r') \<or>
    (\<exists>v. share_verdict x en ck s (rs_session r) = Some v \<and> share_earned x en ck s v (rs_shared r) \<and>
      share_booked x ck s v (rs_shared r) (rs_shared r'))"
  using on_pow_effect [OF assms(1), of x en ck s] assms(2) by (simp add: share_effect_def)

section \<open>An example\<close>

text \<open>A pool that pays to the example address, and a miner of the same name who submits a share of the
  difficulty 8, whose coinbase pays the pool.\<close>

definition book_env :: env where
  "book_env = \<lparr>en_cfg = demo_loaded, en_pool = \<lparr>ks_sign = replicate 32 1, ks_box = replicate 32 2\<rparr>,
     en_pool_script = [0, 20] @ replicate 20 7, en_network = Mainnet, en_base_split = base_split_of demo_loaded,
     en_started = 0, en_started_ts = 0\<rparr>"

definition book_clock :: clock where
  "book_clock = \<lparr>ck_now = 0, ck_instant = 0\<rparr>"

definition book_coinbase :: coinbase_section where
  "book_coinbase = \<lparr>cs_coinbase_id = 4,
     cs_coinb1 = le32 1 @ [1] @ replicate 32 0 @ replicate 4 0xff @ [2, 1, 7] @ le32 0 @ [1] @
       write_txout \<lparr>t_value = 5, t_script = [0, 20] @ replicate 20 7\<rparr> @ le32 0,
     cs_coinb2 = []\<rparr>"

definition book_share :: pow_submit where
  "book_share = (demo_share 0)\<lparr>p_username := ''bc1qtest.rig'', p_coinbase := Some book_coinbase\<rparr>"

definition book_slot :: job_slot where
  "book_slot = \<lparr>js_job = Some demo_job, js_coinbases = [(4, book_coinbase)], js_h2_cache = [], js_cb_cache = [],
     js_txcount_includes_coinbase = None\<rparr>"

definition book_hello :: client_hello where
  "book_hello = \<lparr>ch_identity_sign_pk = [], ch_identity_box_pk = [], ch_session_sign_pk = [], ch_session_box_pk = [],
     ch_user_agent = ''ua'', ch_seed = 7, ch_generation = Ocean, ch_resume_token = None\<rparr>"

definition book_run :: "shared \<Rightarrow> run_state" where
  "book_run sh = \<lparr>rs_session = new_session demo_ext book_clock 1 (V4 1, 1) (demo_keys 3) book_hello, rs_shared = sh,
     rs_sent = [], rs_closed = False, rs_store_fails = False, rs_notices = [], rs_submits = []\<rparr>"

text \<open>What the example needs of the shared state: that of a process that has just started.\<close>

definition book_ready :: "shared \<Rightarrow> bool" where
  "book_ready sh \<longleftrightarrow> sh_controls sh = controls_default \<and> sh_workers sh = Map.empty \<and> sh_clients sh = Map.empty \<and>
     sh_seen sh = seen_new \<and> sh_tip sh = None \<and> to_accepted (sh_totals sh) = 0 \<and>
     ledger_credit (sh_ledger sh) (sh_disk sh) ''bc1qtest'' 8 7 0 SOURCE_STRATUM \<noteq> None \<and>
     ledger_credit (sh_ledger sh) (sh_disk sh) ''bc1qtest'' 8 7 0 SOURCE_DATUM \<noteq> None"

lemma book_identity: "share_identity demo_ext book_share = ''bc1qtest''" "script_for demo_ext book_env ''bc1qtest'' \<noteq> None"
    "list_all graphic (str_bytes ''bc1qtest'')" "\<not> identity_banned controls_default ''bc1qtest''"
  by code_simp+

lemma book_verify:
  "\<exists>v slot. verify (x_sha256 demo_ext) (x_blake2b demo_ext) book_slot book_share (share_policy book_env book_clock None) = Some (Inr v, slot) \<and>
     \<not> v_is_block_candidate v \<and> v_coinbase_kind v = PoolOnly \<and> v_work v = 8 \<and> v_height v = 7"
proof -
  have "case verify (x_sha256 demo_ext) (x_blake2b demo_ext) book_slot book_share (share_policy book_env book_clock None) of
      Some (Inr v, _) \<Rightarrow> \<not> v_is_block_candidate v \<and> v_coinbase_kind v = PoolOnly \<and> v_work v = 8 \<and> v_height v = 7 | _ \<Rightarrow> False"
    by code_simp
  then show ?thesis by (auto split: option.splits prod.splits sum.splits)
qed

lemma book_taken: "absorb slot_default book_share = (Inr \<lparr>ab_job_changed = True, ab_coinbase_added = Some 4\<rparr>, book_slot)"
  by code_simp

lemma book_slots: "(replicate 256 slot_default)[0 := book_slot] = book_slot # replicate 255 slot_default"
proof -
  have "replicate 256 slot_default = slot_default # replicate 255 slot_default" by (simp flip: replicate_Suc)
  then show ?thesis by simp
qed

lemma book_absorb:
  assumes "se = rs_session (book_run sh)"
  shows "\<exists>n. n \<le> 4194304 \<and> absorb_share book_share se =
    (Inr \<lparr>ab_job_changed = True, ab_coinbase_added = Some 4\<rparr>,
     se\<lparr>se_slots := book_slot # replicate 255 slot_default, se_live_slots := [0], se_coinbase_bytes := n\<rparr>)"
proof -
  have f: "se_slots se = replicate 256 slot_default" "se_live_slots se = []"
    by (simp_all add: assms book_run_def new_session_def MAX_JOB_SLOTS_def split: prod.split)
  have b: "coinbase_bytes book_slot \<le> 4194304" "coinbase_bytes slot_default = 0" by code_simp+
  have j: "unat (p_job_id book_share) = 0" by (simp add: book_share_def demo_share_def)
  show ?thesis
    using b by (intro exI [of _ "coinbase_bytes book_slot"]) (simp add: f absorb_share_def Let_def j book_taken
        touch_slot_def book_slots MAX_LIVE_SLOTS_def sum_list_replicate del: replicate.simps)
qed

lemma book_credit:
  assumes "v_work v = 8" "v_height v = 7" "v_coinbase_kind v = PoolOnly" and "book_ready sh"
  shows "\<exists>sh'. credit_share book_env book_clock book_share v ''bc1qtest'' se (sh\<lparr>sh_seen := ss\<rparr>) = Some sh' \<and> to_accepted (sh_totals sh') = 1"
proof -
  obtain l d where l: "ledger_credit (sh_ledger sh) (sh_disk sh) ''bc1qtest'' 8 7 0 (share_source book_env se) = Some (l, d)"
    using assms(4) by (cases "share_source book_env se = SOURCE_STRATUM") (auto simp: share_source_def book_ready_def split: if_splits)
  have s: "sh_ledger (sh\<lparr>sh_seen := ss\<rparr>) = sh_ledger sh" "sh_disk (sh\<lparr>sh_seen := ss\<rparr>) = sh_disk sh" by simp_all
  show ?thesis
    using l assms(4) unfolding credit_share_def s assms(1-3)
    by (simp add: Let_def book_clock_def book_ready_def credit_worker_def client_update_def worker_default_def checked_add_def)
qed

lemma book_seen:
  "seen_insert seen_new 7 h = (Fresh, \<lparr>ss_by_height = [(7, [h])], ss_total = 1\<rparr>)"
  by (simp add: seen_new_def seen_insert_def MAX_PER_HEIGHT_def MAX_TOTAL_def)

lemma rs_closed_shared: "rs_closed (r\<lparr>rs_shared := sh\<rparr>) = rs_closed r"
  by simp

lemma book_claim:
  assumes "v_work v = 8" "v_height v = 7" "v_coinbase_kind v = PoolOnly" "\<not> v_is_block_candidate v"
    and "book_ready (rs_shared r)" "\<not> rs_closed r"
  shows "\<exists>r'. claim_share demo_ext book_env book_clock book_share v ''bc1qtest'' r = Some (Inr (), r') \<and> to_accepted (sh_totals (rs_shared r')) = 1"
proof -
  obtain ss where i: "seen_insert (sh_seen (rs_shared r)) (v_height v) (v_hash v) = (Fresh, ss)"
    using book_seen assms(2,5) by (auto simp: book_ready_def)
  obtain sh where c: "credit_share book_env book_clock book_share v ''bc1qtest'' (rs_session r) ((rs_shared r)\<lparr>sh_seen := ss\<rparr>) = Some sh"
      "to_accepted (sh_totals sh) = 1" using book_credit [OF assms(1-3,5)] by blast
  obtain r' where sent: "send_mining demo_ext book_clock (share_receipt ACCEPTED_TENTATIVELY 0 (p_nonce32 book_share) (p_target_pot book_share)
      (p_job_id book_share)) False (r\<lparr>rs_shared := sh\<rparr>) = (Inr (), r')"
    using sent_open(3) [of "r\<lparr>rs_shared := sh\<rparr>"] assms(6) by (metis prod.collapse rs_closed_shared)
  have "rs_shared r' = sh" using send_mining_shared [OF sent] by simp
  then show ?thesis
    using i c sent book_identity(2) assms(3,4) by (auto simp: claim_share_def accept_share_def and_then_def Let_def)
qed

lemma book_pow:
  assumes "book_ready sh"
  shows "\<exists>r'. on_pow demo_ext book_env book_clock book_share (book_run sh) = Some (Inr (), r') \<and> to_accepted (sh_totals (rs_shared r')) = 1"
proof -
  let ?r = "book_run sh"
  obtain n where a: "n \<le> 4194304" "absorb_share book_share (rs_session ?r) = (Inr \<lparr>ab_job_changed = True, ab_coinbase_added = Some 4\<rparr>,
      (rs_session ?r)\<lparr>se_slots := book_slot # replicate 255 slot_default, se_live_slots := [0], se_coinbase_bytes := n\<rparr>)"
    using book_absorb [OF refl] by blast
  obtain v slot where v: "verify (x_sha256 demo_ext) (x_blake2b demo_ext) book_slot book_share (share_policy book_env book_clock None) = Some (Inr v, slot)"
      "\<not> v_is_block_candidate v" "v_coinbase_kind v = PoolOnly" "v_work v = 8" "v_height v = 7" using book_verify by blast
  have f: "se_coinbasers (rs_session ?r) = []" "length (se_slots (rs_session ?r)) = 256" "rs_shared ?r = sh" "\<not> rs_closed ?r"
      "cfg_session_coinbase_budget (en_cfg book_env) = 4194304" "js_job book_slot = Some demo_job" "p_job_id book_share = 0"
    by (simp_all add: book_run_def new_session_def MAX_JOB_SLOTS_def book_env_def demo_loaded_def demo_config_def
        book_slot_def book_share_def demo_share_def split: prod.split)
  have claim: "\<exists>r'. claim_share demo_ext book_env book_clock book_share v ''bc1qtest'' (?r\<lparr>rs_session := se\<rparr>) = Some (Inr (), r') \<and>
      to_accepted (sh_totals (rs_shared r')) = 1" for se
    by (rule book_claim) (use v f assms in simp_all)
  show ?thesis
    using a v f claim book_identity assms
    by (auto simp: on_pow_def take_sections_def check_share_def verify_share_def issued_def book_ready_def Let_def simp del: replicate.simps)
qed

lemma demo_ready: "book_ready demo_shared" "seen_ok (sh_seen demo_shared)"
proof -
  have "ledger_credit (sh_ledger demo_shared) (sh_disk demo_shared) ''bc1qtest'' 8 7 0 SOURCE_STRATUM \<noteq> None"
    "ledger_credit (sh_ledger demo_shared) (sh_disk demo_shared) ''bc1qtest'' 8 7 0 SOURCE_DATUM \<noteq> None" by code_simp+
  then show "book_ready demo_shared" by (simp add: book_ready_def demo_shared_def)
  show "seen_ok (sh_seen demo_shared)" by (simp add: demo_shared_def seen_ok_new)
qed

theorem only_earned_shares_credited_witness:
  "\<exists>r' v. on_pow demo_ext book_env book_clock book_share (book_run demo_shared) = Some (Inr (), r') \<and>
     to_accepted (sh_totals (rs_shared r')) = 1 \<and>
     (nothing_booked demo_shared (rs_shared r') \<or>
      share_verdict demo_ext book_env book_clock book_share (rs_session (book_run demo_shared)) = Some v \<and>
      share_booked demo_ext book_clock book_share v demo_shared (rs_shared r'))"
proof -
  obtain r' where r': "on_pow demo_ext book_env book_clock book_share (book_run demo_shared) = Some (Inr (), r')"
      "to_accepted (sh_totals (rs_shared r')) = 1" using book_pow demo_ready by blast
  have "rs_shared (book_run demo_shared) = demo_shared" by (simp add: book_run_def)
  then show ?thesis using only_earned_shares_credited [OF _ r'(1)] demo_ready(2) r' by auto
qed

end
