(* ===== verification/Rpc.thy ===== *)
theory Rpc
  imports Controls Ledger Float64
begin

text \<open>
  The client of the node (\<open>primed/src/rpc.rs\<close>): where the node is and how to log in, the request that
  goes out, and the reading of what comes back.  The sockets and the timeout are left out, and the
  JSON parser is an argument; the HTTP response, its chunked form and base64 are spelled out.  Shown:
  base64 and the chunked form can be undone, the reader of chunks ends on every input, and what a
  response means.
\<close>

section \<open>Strings\<close>

text \<open>The first occurrence of a pattern, which is not empty.\<close>

fun find_seq :: "bytes \<Rightarrow> bytes \<Rightarrow> nat option" where
  "find_seq [] n = None"
| "find_seq (b # bs) n = (if take (length n) (b # bs) = n then Some 0 else map_option Suc (find_seq bs n))"

text \<open>The part before the last separator and the part after it.\<close>

definition rsplit_once :: "char \<Rightarrow> string \<Rightarrow> (string \<times> string) option" where
  "rsplit_once c s =
     (if c \<in> set s
      then Some (rev (tl (dropWhile (\<lambda>x. x \<noteq> c) (rev s))), rev (takeWhile (\<lambda>x. x \<noteq> c) (rev s))) else None)"

definition trim_matches :: "(char \<Rightarrow> bool) \<Rightarrow> string \<Rightarrow> string" where
  "trim_matches P s = rev (dropWhile P (rev (dropWhile P s)))"

section \<open>Base64\<close>

unbundle bit_operations_syntax

definition BASE64 :: bytes where
  "BASE64 = str_bytes ''ABCDEFGHIJKLMNOPQRSTUVWXYZabcdefghijklmnopqrstuvwxyz0123456789+/''"

definition sextet :: "u32 \<Rightarrow> nat \<Rightarrow> u8" where
  "sextet n k = BASE64 ! unat (drop_bit k n AND 63)"

text \<open>One group of at most three bytes; a short group is padded.\<close>

definition base64_group :: "bytes \<Rightarrow> bytes" where
  "base64_group g =
     (let b = g @ replicate (3 - length g) 0;
          n = push_bit 16 (ucast (b ! 0)) OR push_bit 8 (ucast (b ! 1)) OR ucast (b ! 2)
      in [sextet n 18, sextet n 12, if length g > 1 then sextet n 6 else 61, if length g > 2 then sextet n 0 else 61])"

fun base64 :: "bytes \<Rightarrow> bytes" where
  "base64 [] = []"
| "base64 (a # b # c # bs) = base64_group [a, b, c] @ base64 bs"
| "base64 bs = base64_group bs"

section \<open>The client\<close>

record rpc =
  rp_host :: string
  rp_port :: u16
  rp_path :: string
  rp_auth :: "bytes option"
  rp_cookie :: "string option"

datatype rpc_error = Rpc_io | Rpc_http u16 | Rpc_malformed | Rpc_node int string | Rpc_timeout

definition rpc_new :: "string \<Rightarrow> string option \<Rightarrow> string option \<Rightarrow> string option \<Rightarrow> string + rpc" where
  "rpc_new url cookie user pass =
     (if take 7 url \<noteq> ''http://'' then Inl ''rpc url must start with http://''
      else
        let rest = drop 7 url;
            hostport = takeWhile (\<lambda>c. c \<noteq> CHR ''/'') rest;
            path = (if CHR ''/'' \<in> set rest then drop (length hostport) rest else ''/'');
            login = (case (user, pass) of (Some u, Some p) \<Rightarrow> Some (base64 (str_bytes (u @ '':'' @ p))) | _ \<Rightarrow> None)
        in case rsplit_once (CHR '':'') hostport of
             Some (h, p) \<Rightarrow>
               (case parse_unsigned (2 ^ 16) p of
                  None \<Rightarrow> Inl ''bad rpc port''
                | Some n \<Rightarrow> Inr \<lparr>rp_host = trim_matches (\<lambda>c. c = CHR ''['' \<or> c = CHR '']'') h, rp_port = of_nat n, rp_path = path,
                    rp_auth = login, rp_cookie = cookie\<rparr>)
           | None \<Rightarrow> Inr \<lparr>rp_host = hostport, rp_port = 8332, rp_path = path, rp_auth = login, rp_cookie = cookie\<rparr>)"

text \<open>The cookie file is read anew for every request; \<open>None\<close> is a file that cannot be read.\<close>

definition auth_header :: "string option \<Rightarrow> rpc \<Rightarrow> rpc_error + bytes" where
  "auth_header cookie_text c =
     (case rp_cookie c of
        Some _ \<Rightarrow> (case cookie_text of None \<Rightarrow> Inl Rpc_io | Some s \<Rightarrow> Inr (base64 (str_bytes (Text.trim s))))
      | None \<Rightarrow> ok_or (rp_auth c) Rpc_malformed)"

text \<open>Decimal digits of a length or a port.\<close>

fun decimal :: "nat \<Rightarrow> string" where
  "decimal n = (if n < 10 then [char_of (48 + n)] else decimal (n div 10) @ [char_of (48 + n mod 10)])"

declare decimal.simps [simp del]

definition crlf :: string where "crlf = [CHR 0x0D, CHR 0x0A]"

text \<open>The request, given the JSON text of the call.\<close>

definition rpc_request :: "string option \<Rightarrow> bytes \<Rightarrow> rpc \<Rightarrow> rpc_error + bytes" where
  "rpc_request cookie_text body c =
     rbind (auth_header cookie_text c) (\<lambda>auth.
       Inr (str_bytes (''POST '' @ rp_path c @ '' HTTP/1.1'' @ crlf @ ''Host: '' @ rp_host c @ '':'' @ decimal (unat (rp_port c)) @
           crlf @ ''Authorization: Basic '') @ auth @
         str_bytes (crlf @ ''Content-Type: application/json'' @ crlf @ ''Content-Length: '' @ decimal (length body) @ crlf @
           ''Connection: close'' @ crlf @ crlf) @ body))"

section \<open>Chunks\<close>

text \<open>\<open>from_str_radix(_, 16)\<close>, of a \<open>u32\<close> or a \<open>usize\<close>.\<close>

definition parse_hex :: "nat \<Rightarrow> string \<Rightarrow> nat option" where
  "parse_hex limit s =
     (let (ds, r) = digits 16 (case s of c # cs \<Rightarrow> if c = CHR ''+'' then cs else s | [] \<Rightarrow> []) in
      if ds = [] \<or> r \<noteq> [] \<or> number_of 16 ds \<ge> limit then None else Some (number_of 16 ds))"

definition chunk_size :: "bytes \<Rightarrow> nat option" where
  "chunk_size line =
     (if is_utf8 line then parse_hex (2 ^ 64) (Text.trim (takeWhile (\<lambda>c. c \<noteq> CHR '';'') (bytes_str line))) else None)"

lemma find_seq_bound: "find_seq bs n = Some k \<Longrightarrow> n \<noteq> [] \<Longrightarrow> k + length n \<le> length bs"
  by (induction bs n arbitrary: k rule: find_seq.induct) (auto split: if_splits dest!: arg_cong [where f = length and x = "take _ _"])

text \<open>The sum of a size and two is checked: the largest sizes are a panic, which is \<open>None\<close>.\<close>

function dechunk :: "bytes \<Rightarrow> bytes \<Rightarrow> (rpc_error + bytes) option" where
  "dechunk b out_bytes =
     (case find_seq b [13, 10] of
        None \<Rightarrow> Some (Inl Rpc_malformed)
      | Some nl \<Rightarrow>
          (case chunk_size (take nl b) of
             None \<Rightarrow> Some (Inl Rpc_malformed)
           | Some n \<Rightarrow>
               let rest = drop (nl + 2) b in
               if n = 0 then Some (Inr out_bytes)
               else if n + 2 \<ge> 2 ^ 64 then None
               else if length rest < n + 2 then Some (Inl Rpc_malformed)
               else dechunk (drop (n + 2) rest) (out_bytes @ take n rest)))"
  by pat_completeness auto
termination
  by (relation "measure (\<lambda>(b, _). length b)") (auto dest: find_seq_bound)

declare dechunk.simps [simp del]

section \<open>The response\<close>

text \<open>A JSON value as far as the client looks into it; a number that is not an integer of 64 bits is a float.\<close>

datatype jvalue =
    VNull
  | VBool bool
  | VInt int
  | VReal f64
  | VString string
  | VArray "jvalue list"
  | VObject "(string \<times> jvalue) list"

fun field :: "string \<Rightarrow> jvalue \<Rightarrow> jvalue option" where
  "field k (VObject fs) = map_of fs k"
| "field k _ = None"

fun as_i64 :: "jvalue \<Rightarrow> int option" where
  "as_i64 (VInt n) = (if - (2 ^ 63) \<le> n \<and> n < 2 ^ 63 then Some n else None)"
| "as_i64 _ = None"

fun as_u64 :: "jvalue \<Rightarrow> u64 option" where
  "as_u64 (VInt n) = (if 0 \<le> n \<and> n < 2 ^ 64 then Some (of_int n) else None)"
| "as_u64 _ = None"

fun as_f64 :: "jvalue \<Rightarrow> f64 option" where
  "as_f64 (VInt n) = Some (rnd (of_int n))"
| "as_f64 (VReal d) = Some d"
| "as_f64 _ = None"

fun as_str :: "jvalue \<Rightarrow> string option" where
  "as_str (VString s) = Some s"
| "as_str _ = None"

text \<open>The words of a line, between white space.\<close>

function words_from :: "bytes \<Rightarrow> bytes \<Rightarrow> bytes list" where
  "words_from w b =
     (let word = (if w = [] then [] else [w]) in
      if b = [] then word
      else if 0 < ws_front b then word @ words_from [] (drop (ws_front b) b)
      else words_from (w @ [hd b]) (tl b))"
  by pat_completeness auto
termination
  by (relation "measure (\<lambda>(_, b). length b)") auto

declare words_from.simps [simp del]

fun has_seq :: "string \<Rightarrow> string \<Rightarrow> bool" where
  "has_seq n [] = (n = [])"
| "has_seq n (c # cs) = (take (length n) (c # cs) = n \<or> has_seq n cs)"

definition status_of :: "bytes \<Rightarrow> nat option" where
  "status_of head =
     (case words_from [] head of _ # w # _ \<Rightarrow> parse_unsigned (2 ^ 16) (bytes_str w) | _ \<Rightarrow> None)"

definition is_chunked :: "bytes \<Rightarrow> bool" where
  "is_chunked head =
     list_ex (\<lambda>l. let l = to_ascii_lowercase (bytes_str l) in
       take 18 l = ''transfer-encoding:'' \<and> has_seq ''chunked'' l) (lines_of head)"

text \<open>What a parsed body says, at a status.\<close>

definition rpc_result :: "nat \<Rightarrow> jvalue \<Rightarrow> rpc_error + jvalue" where
  "rpc_result status v =
     (let e = (case field ''error'' v of Some e \<Rightarrow> e | None \<Rightarrow> VNull) in
      if e \<noteq> VNull
      then Inl (Rpc_node (case Option.bind (field ''code'' e) as_i64 of Some c \<Rightarrow> c | None \<Rightarrow> 0)
        (case Option.bind (field ''message'' e) as_str of Some m \<Rightarrow> m | None \<Rightarrow> ''''))
      else if status \<noteq> 200 then Inl (Rpc_http (of_nat status))
      else Inr (case field ''result'' v of Some r \<Rightarrow> r | None \<Rightarrow> VNull))"

definition parse_response :: "(bytes \<Rightarrow> jvalue option) \<Rightarrow> bytes \<Rightarrow> (rpc_error + jvalue) option" where
  "parse_response json buf =
     (case find_seq buf [13, 10, 13, 10] of
        None \<Rightarrow> Some (Inl Rpc_malformed)
      | Some sep \<Rightarrow>
          let head = take sep buf; body = drop (sep + 4) buf in
          if \<not> is_utf8 head then Some (Inl Rpc_malformed)
          else (case status_of head of
            None \<Rightarrow> Some (Inl Rpc_malformed)
          | Some status \<Rightarrow> do {
              body \<leftarrow> (if is_chunked head then dechunk body [] else Some (Inr body));
              Some (rbind body (\<lambda>body.
                case json body of
                  Some v \<Rightarrow> rpc_result status v
                | None \<Rightarrow> Inl (if status \<noteq> 200 then Rpc_http (of_nat status) else Rpc_malformed)))
            }))"


section \<open>Base64 can be undone\<close>

text \<open>The reference decoder: four characters make a number of 24 bits, whose bytes are read off.\<close>

definition unsextet :: "u8 \<Rightarrow> nat" where
  "unsextet c = length (takeWhile (\<lambda>x. x \<noteq> c) BASE64)"

fun unbase64 :: "bytes \<Rightarrow> bytes" where
  "unbase64 (p # q # r # s # cs) =
     (let n = unsextet p * 2 ^ 18 + unsextet q * 2 ^ 12 + (if r = 61 then 0 else unsextet r * 2 ^ 6) + (if s = 61 then 0 else unsextet s)
      in take (if r = 61 then 1 else if s = 61 then 2 else 3) [of_nat (n div 2 ^ 16), of_nat (n div 2 ^ 8), of_nat n] @ unbase64 cs)"
| "unbase64 _ = []"

lemma BASE64_nth: "list_all (\<lambda>k. unsextet (BASE64 ! k) = k \<and> BASE64 ! k \<noteq> 61 \<and> BASE64 ! k > 32 \<and> BASE64 ! k < 127) [0..<64]"
  by code_simp

lemma sextet_char:
  "unsextet (sextet n k) = unat n div 2 ^ k mod 64" "sextet n k \<noteq> 61" "sextet n k > 32 \<and> sextet n k < 127"
proof -
  have "drop_bit k n AND 63 = take_bit 6 (drop_bit k n)"
    by (simp add: take_bit_eq_mask mask_eq_exp_minus_1)
  then have "unat (drop_bit k n AND 63) = take_bit 6 (drop_bit k (unat n))"
    by (simp only: unsigned_take_bit_eq unat_drop_bit_eq)
  then have v: "unat (drop_bit k n AND 63) = unat n div 2 ^ k mod 64"
    by (simp add: take_bit_eq_mod drop_bit_eq_div)
  then have "unat (drop_bit k n AND 63) \<in> set [0..<64]" by simp
  then show "unsextet (sextet n k) = unat n div 2 ^ k mod 64" "sextet n k \<noteq> 61" "sextet n k > 32 \<and> sextet n k < 127"
    using BASE64_nth v unfolding list_all_iff sextet_def by metis+
qed


definition group_value :: "u8 \<Rightarrow> u8 \<Rightarrow> u8 \<Rightarrow> nat" where
  "group_value a b c = unat a * 2 ^ 16 + unat b * 2 ^ 8 + unat c"

lemma group_word:
  "unat (push_bit 16 (ucast a) OR push_bit 8 (ucast b) OR ucast c :: u32) = group_value a b c"
proof -
  have bits: "\<not> bit (ucast x :: u32) n" if "8 \<le> n" for x :: u8 and n
    using that by (auto simp: bit_simps dest: bit_imp_le_length)
  have 1: "push_bit 16 (ucast a) OR push_bit 8 (ucast b) = push_bit 16 (ucast a) + (push_bit 8 (ucast b) :: u32)"
    by (rule disjunctive_add_eq_or [symmetric], rule bit_eqI) (use bits in \<open>auto simp: bit_simps\<close>)
  have 2: "(push_bit 16 (ucast a) OR push_bit 8 (ucast b)) OR ucast c = (push_bit 16 (ucast a) OR push_bit 8 (ucast b)) + (ucast c :: u32)"
    by (rule disjunctive_add_eq_or [symmetric], rule bit_eqI) (use bits in \<open>auto simp: bit_simps\<close>)
  have lt: "unat a < 256" "unat b < 256" "unat c < 256" using unat_lt [of a] unat_lt [of b] unat_lt [of c] by simp_all
  have "(push_bit 16 (ucast a) OR push_bit 8 (ucast b) OR ucast c :: u32) = of_nat (group_value a b c)"
    unfolding or.assoc [symmetric] 2 unfolding 1
    by (simp add: group_value_def push_bit_eq_mult mult.commute)
  moreover have "group_value a b c < 2 ^ 32" using lt by (simp add: group_value_def)
  ultimately show ?thesis by (simp add: unat_of_nat)
qed

lemma sextets_sum: "n = c6 * 64 + d \<Longrightarrow> c6 = b6 * 64 + c \<Longrightarrow> b6 = a * 64 + b \<Longrightarrow> a * 2 ^ 18 + b * 2 ^ 12 + c * 2 ^ 6 + d = (n :: nat)"
  by simp

lemma sextets_value:
  assumes "n < 2 ^ 24"
  shows "n div 2 ^ 18 mod 64 * 2 ^ 18 + n div 2 ^ 12 mod 64 * 2 ^ 12 + n div 2 ^ 6 mod 64 * 2 ^ 6 + n mod 64 = (n :: nat)"
proof -
  have a: "n div 2 ^ 18 mod 64 = n div 2 ^ 18" using assms by (simp add: less_mult_imp_div_less)
  have d: "n div 2 ^ 12 = n div 2 ^ 6 div 64" "n div 2 ^ 18 = n div 2 ^ 12 div 64" by (simp_all flip: div_mult2_eq)
  show ?thesis
    unfolding a by (rule sextets_sum [of n "n div 2 ^ 6" _ "n div 2 ^ 12"]) (simp_all only: d, simp_all)
qed

lemma group_bytes:
  "of_nat (group_value a b c div 2 ^ 16) = a" "of_nat (group_value a b c div 2 ^ 8) = b" "of_nat (group_value a b c) = c"
proof -
  have v: "group_value a b c = (unat a * 2 ^ 8 + unat b) * 2 ^ 8 + unat c" by (simp add: group_value_def)
  have lt: "unat a < 2 ^ 8" "unat b < 2 ^ 8" "unat c < 2 ^ 8" using unat_lt [of a] unat_lt [of b] unat_lt [of c] by simp_all
  have "group_value a b c div 2 ^ 8 = unat a * 2 ^ 8 + unat b" "group_value a b c div 2 ^ 16 = unat a"
    using lt by (simp_all add: v group_value_def)
  moreover have "(of_nat (x * 2 ^ 8 + unat y) :: u8) = y" for x y
    using unat_lt [of y] by (intro word_unat_eq_iff [THEN iffD2]) (simp only: unat_of_nat, simp)
  ultimately show "of_nat (group_value a b c div 2 ^ 16) = a" "of_nat (group_value a b c div 2 ^ 8) = b" "of_nat (group_value a b c) = c"
    by (simp_all only: v) simp_all
qed

lemma group_value_less: "group_value a b c < 2 ^ 24"
  using unat_lt [of a] unat_lt [of b] unat_lt [of c] by (simp add: group_value_def)



lemma unbase64_group:
  "unbase64 (base64_group [a, b, c] @ cs) = [a, b, c] @ unbase64 cs"
  "unbase64 (base64_group [a, b] @ cs) = [a, b] @ unbase64 cs"
  "unbase64 (base64_group [a] @ cs) = [a] @ unbase64 cs"
proof -
  define w :: "u8 \<Rightarrow> u8 \<Rightarrow> u8 \<Rightarrow> u32" where
    "w a b c = push_bit 16 (ucast a) OR push_bit 8 (ucast b) OR ucast c" for a b c
  have v: "unat (w a b c) = group_value a b c" for a b c by (simp only: w_def group_word)
  have sum: "unsextet (sextet (w a b c) 18) * 2 ^ 18 + unsextet (sextet (w a b c) 12) * 2 ^ 12 + unsextet (sextet (w a b c) 6) * 2 ^ 6 +
      unsextet (sextet (w a b c) 0) = group_value a b c" for a b c
    using sextets_value [OF group_value_less, of a b c] by (simp only: sextet_char v power_0 div_by_1)
  have zero: "unsextet (sextet (w a b 0) 0) = 0" "unsextet (sextet (w a 0 0) 6) = 0" for a b
    by (simp_all only: sextet_char v) (simp_all add: group_value_def)
  have g: "base64_group [a, b, c] = [sextet (w a b c) 18, sextet (w a b c) 12, sextet (w a b c) 6, sextet (w a b c) 0]"
    "base64_group [a, b] = [sextet (w a b 0) 18, sextet (w a b 0) 12, sextet (w a b 0) 6, 61]"
    "base64_group [a] = [sextet (w a 0 0) 18, sextet (w a 0 0) 12, 61, 61]"
    by (simp_all add: base64_group_def Let_def w_def numeral_eq_Suc)
  show "unbase64 (base64_group [a, b, c] @ cs) = [a, b, c] @ unbase64 cs"
    by (simp only: g append.simps unbase64.simps Let_def sextet_char(2) if_False sum group_bytes) simp
  note two = sum [of a b 0, unfolded zero add_0_right] and one = sum [of a 0 0, unfolded zero mult_zero_left add_0_right]
  show "unbase64 (base64_group [a, b] @ cs) = [a, b] @ unbase64 cs"
    by (simp only: g append.simps unbase64.simps Let_def sextet_char(2) if_False if_True simp_thms add_0_right two group_bytes) simp
  show "unbase64 (base64_group [a] @ cs) = [a] @ unbase64 cs"
    by (simp only: g append.simps unbase64.simps Let_def sextet_char(2) if_False if_True simp_thms add_0_right one group_bytes) simp
qed

text \<open>
  The login of the node survives its encoding: the reference decoder gives back exactly the bytes, and
  what goes into the header is printable ASCII, so that no user name, password or cookie can end the
  header line or add another.
\<close>

theorem base64_round_trip: "unbase64 (base64 bs) = bs \<and> list_all (\<lambda>c. 32 < c \<and> c < 127) (base64 bs)"
proof
  show "unbase64 (base64 bs) = bs" by (induction bs rule: base64.induct) (simp_all add: unbase64_group [where cs = "[]", simplified] unbase64_group)
  have "list_all (\<lambda>c. 32 < c \<and> c < 127) (base64_group g)" for g
    using sextet_char(3) by (simp add: base64_group_def Let_def)
  then show "list_all (\<lambda>c. 32 < c \<and> c < 127) (base64 bs)" by (induction bs rule: base64.induct) simp_all
qed


section \<open>Chunks can be undone\<close>

text \<open>The chunked form a server sends, with hexadecimal sizes.\<close>

function hex_list :: "nat \<Rightarrow> nat list" where
  "hex_list n = (if n < 16 then [n] else hex_list (n div 16) @ [n mod 16])"
  by pat_completeness auto
termination
  by (relation "measure id") auto

declare hex_list.simps [simp del]

definition hex_digit :: "nat \<Rightarrow> char" where
  "hex_digit d = char_of (if d < 10 then 48 + d else 87 + d)"

definition size_line :: "nat \<Rightarrow> bytes" where
  "size_line n = str_bytes (map hex_digit (hex_list n))"

definition chunk_body :: "bytes list \<Rightarrow> bytes" where
  "chunk_body cs = concat (map (\<lambda>c. size_line (length c) @ [13, 10] @ c @ [13, 10]) cs) @ size_line 0 @ [13, 10]"

lemma hex_list_less: "list_all (\<lambda>d. d < 16) (hex_list n)"
  by (induction n rule: hex_list.induct) (subst hex_list.simps, simp)

lemma hex_list_value: "number_of 16 (hex_list n) = n"
  by (induction n rule: hex_list.induct) (subst hex_list.simps, simp add: number_of_def)

lemma hex_list_nonempty: "hex_list n \<noteq> []"
  by (subst hex_list.simps) simp

lemma digit_of_hex: "d < 16 \<Longrightarrow> digit_of 16 (hex_digit d) = Some d"
  by (auto simp: digit_of_def hex_digit_def of_char_of)

lemma digits_hex: "list_all (\<lambda>d. d < 16) ds \<Longrightarrow> digits 16 (map hex_digit ds) = (ds, [])"
  by (induction ds) (auto simp: digit_of_hex)

lemma hex_digit_graphic: "d < 16 \<Longrightarrow> (of_char (hex_digit d) :: nat) \<in> {48..57} \<union> {97..102}"
  by (auto simp: hex_digit_def of_char_of)

lemma parse_hex_digits:
  assumes "n < 2 ^ 64"
  shows "parse_hex (2 ^ 64) (map hex_digit (hex_list n)) = Some n"
proof -
  obtain d ds where l: "hex_list n = d # ds" using hex_list_nonempty by (meson neq_Nil_conv)
  have "d < 16" using hex_list_less [of n] by (simp add: l)
  then have "hex_digit d \<noteq> CHR ''+''" using hex_digit_graphic [of d] by auto
  then show ?thesis
    using assms digits_hex [OF hex_list_less, of n] hex_list_value [of n]
    by (simp add: parse_hex_def Let_def l del: digits.simps)
qed

lemma size_line_bytes: "list_all (\<lambda>b. 48 \<le> b \<and> b < 103 \<and> b \<noteq> 59) (size_line n)"
proof -
  have "48 \<le> (of_nat (of_char (hex_digit d)) :: u8) \<and> (of_nat (of_char (hex_digit d)) :: u8) < 103 \<and> (of_nat (of_char (hex_digit d)) :: u8) \<noteq> 59"
    if "d < 16" for d
    using hex_digit_graphic [OF that] by (auto simp: word_le_nat_alt word_less_nat_alt unat_of_nat word_unat_eq_iff)
  then show ?thesis using hex_list_less [of n] by (auto simp: size_line_def str_bytes_def list_all_iff)
qed

lemma white_space_ends: "list_all (\<lambda>w. w \<noteq> [] \<and> (hd w \<le> 32 \<or> 127 \<le> hd w) \<and> (last w \<le> 32 \<or> 127 \<le> last w)) white_space"
  by (simp add: white_space_def)

lemma trim_solid:
  assumes "list_all (\<lambda>b. 32 < b \<and> b < 127) b"
  shows "trim_start b = b" "trim_end b = b"
proof -
  have "take (length w) b \<noteq> w" "\<not> (length w \<le> length b \<and> drop (length b - length w) b = w)" if "w \<in> set white_space" for w
  proof -
    have w: "w \<noteq> []" "hd w \<le> 32 \<or> 127 \<le> hd w" "last w \<le> 32 \<or> 127 \<le> last w"
      using white_space_ends that by (auto simp: list_all_iff)
    have ends: "32 < hd b \<and> hd b < 127" "32 < last b \<and> last b < 127" if "b \<noteq> []"
      using assms that by (auto simp: list_all_iff)
    show "take (length w) b \<noteq> w"
      using w ends(1) by (cases b) (auto simp: hd_take not_less dest: arg_cong [where f = hd])
    show "\<not> (length w \<le> length b \<and> drop (length b - length w) b = w)"
    proof
      assume d: "length w \<le> length b \<and> drop (length b - length w) b = w"
      then have "b \<noteq> []" "length b - length w < length b" using w(1) by (auto intro: diff_less)
      then have "last b = last w" using d last_drop by metis
      then show False using w(3) ends(2) [OF \<open>b \<noteq> []\<close>] by (simp add: not_le [symmetric])
    qed
  qed
  then have "ws_front b = 0" "ws_back b = 0"
    unfolding ws_front_def ws_back_def by (auto simp: find_Some_iff in_set_conv_nth split: option.split)
  then show "trim_start b = b" "trim_end b = b" by (simp_all add: trim_start.simps [of b] trim_end.simps [of b])
qed


lemma chunk_size_line:
  assumes "n < 2 ^ 64"
  shows "chunk_size (size_line n) = Some n"
proof -
  have b: "list_all (\<lambda>b. 32 < b \<and> b < 127) (size_line n)" "list_all (\<lambda>b. b < 0x80) (size_line n)" "59 \<notin> set (size_line n)"
    using size_line_bytes [of n] by (auto simp: list_all_iff word_le_nat_alt word_less_nat_alt)
  have t: "takeWhile (\<lambda>c. c \<noteq> CHR '';'') (map hex_digit (hex_list n)) = map hex_digit (hex_list n)"
    using hex_list_less [of n] hex_digit_graphic by (fastforce simp: list_all_iff takeWhile_eq_all_conv)
  have m: "Text.trim (map hex_digit (hex_list n)) = map hex_digit (hex_list n)"
    using trim_solid [OF b(1)] by (simp add: Text.trim_def size_line_def)
  show ?thesis
    using ascii_is_utf8 [OF b(2)] parse_hex_digits [OF assms] by (simp add: chunk_size_def size_line_def t m)
qed

lemma find_crlf:
  assumes "13 \<notin> set xs"
  shows "find_seq (xs @ 13 # 10 # ys) [13, 10] = Some (length xs)"
  using assms by (induction xs) auto

lemma size_line_cr: "13 \<notin> set (size_line n)"
  using size_line_bytes [of n] by (auto simp: list_all_iff)

lemma dechunk_chunk:
  assumes "c \<noteq> []" and "length c + 2 < 2 ^ 64"
  shows "dechunk (size_line (length c) @ [13, 10] @ c @ [13, 10] @ tail) acc = dechunk tail (acc @ c)"
  using assms find_crlf [OF size_line_cr] by (subst dechunk.simps) (simp add: chunk_size_line)

lemma dechunk_last: "dechunk (size_line 0 @ [13, 10] @ tail) acc = Some (Inr acc)"
  using find_crlf [OF size_line_cr] by (subst dechunk.simps) (simp add: chunk_size_line)

lemma dechunk_chunks:
  "list_all (\<lambda>c. c \<noteq> [] \<and> length c + 2 < 2 ^ 64) cs \<Longrightarrow> dechunk (chunk_body cs @ tail) acc = Some (Inr (acc @ concat cs))"
  by (induction cs arbitrary: acc) (auto simp: chunk_body_def dechunk_last [simplified] dechunk_chunk [simplified])

section \<open>What a response means\<close>

lemma find_seq_append: "find_seq xs n = Some k \<Longrightarrow> n \<noteq> [] \<Longrightarrow> find_seq (xs @ ys) n = Some k"
proof (induction xs n arbitrary: k rule: find_seq.induct)
  case (2 b bs n)
  show ?case
  proof (cases "take (length n) (b # bs) = n")
    case True
    then have "length n \<le> length (b # bs)" by (metis length_take min.cobounded1 min.absorb_iff2 min.commute)
    then show ?thesis using True 2 by (simp add: take_Cons' split: if_splits)
  next
    case False
    then obtain j where j: "find_seq bs n = Some j" "k = Suc j" using 2 by auto
    then have "j + length n \<le> length bs" using find_seq_bound 2(3) by blast
    then have "take (length n) (b # bs @ ys) = take (length n) (b # bs)" by (simp add: take_Cons')
    then show ?thesis using False j 2 by simp
  qed
qed simp

definition body_means :: "(bytes \<Rightarrow> jvalue option) \<Rightarrow> nat \<Rightarrow> bytes \<Rightarrow> rpc_error + jvalue" where
  "body_means json status body =
     (case json body of
        Some v \<Rightarrow> rpc_result status v
      | None \<Rightarrow> Inl (if status \<noteq> 200 then Rpc_http (of_nat status) else Rpc_malformed))"

lemma response_body:
  assumes "find_seq (head @ [13, 10, 13, 10]) [13, 10, 13, 10] = Some (length head)" and "is_utf8 head" and "status_of head = Some status"
  shows "parse_response json (head @ [13, 10, 13, 10] @ payload) =
    (if is_chunked head then map_option (\<lambda>b. rbind b (body_means json status)) (dechunk payload [])
     else Some (body_means json status payload))"
  using find_seq_append [OF assms(1), of payload] assms(2,3)
  by (simp add: parse_response_def body_means_def [abs_def] map_option_case split: option.split)

text \<open>
  C32: The chunked form does not change what a response means.  However a server cuts a body into chunks,
  the client reads what it would have read from the body in one piece: the node's error if there is
  one, else the status if it is not 200, else the result.
\<close>

theorem chunked_response_means_body:
  assumes "find_seq (head @ [13, 10, 13, 10]) [13, 10, 13, 10] = Some (length head)" and "is_utf8 head"
    and "status_of head = Some status" and "is_chunked head"
    and "list_all (\<lambda>c. c \<noteq> [] \<and> length c + 2 < 2 ^ 64) cs"
  shows "parse_response json (head @ [13, 10, 13, 10] @ chunk_body cs @ tail) = Some (body_means json status (concat cs))"
  using response_body [OF assms(1-3), of json "chunk_body cs @ tail"] assms(4) dechunk_chunks [OF assms(5), of tail "[]"] by simp

definition demo_head :: bytes where
  "demo_head = str_bytes (''HTTP/1.1 200 OK'' @ crlf @ ''Transfer-Encoding: CHUNKED'')"

theorem chunked_response_means_body_witness:
  "parse_response (\<lambda>b. if b = str_bytes ''{}'' then Some (VObject [(''result'', VInt 7)]) else None)
     (demo_head @ [13, 10, 13, 10] @ chunk_body [[123], [125]]) = Some (Inr (VInt 7))"
proof -
  have "find_seq (demo_head @ [13, 10, 13, 10]) [13, 10, 13, 10] = Some (length demo_head)" "is_utf8 demo_head"
    "status_of demo_head = Some 200" "is_chunked demo_head" "str_bytes ''{}'' = [123, 125]" by code_simp+
  then show ?thesis
    using chunked_response_means_body [of demo_head 200 "[[123], [125]]" "\<lambda>b. if b = str_bytes ''{}'' then Some (VObject [(''result'', VInt 7)]) else None" "[]"]
    by (simp add: body_means_def rpc_result_def)
qed

text \<open>
  Some chunk sizes stop the client instead of being refused: the sum of the size and two is checked.
\<close>

lemma huge_chunk_panics: "dechunk (str_bytes (''ffffffffffffffff'' @ crlf)) [] = None"
  by code_simp

end
