(* ===== verification/Daemon.thy ===== *)
theory Daemon
  imports Session Rpc
begin

text \<open>
  The process around the sessions: starting up (\<open>primed/src/main.rs\<close>), the pool's key file, the accept
  loop and the end of a connection, the poller of the node (\<open>primed/src/node.rs\<close>), and the housekeeping
  timer (\<open>primed/src/stats.rs\<close>).  A task of the process is a function on the shared state; \<open>None\<close> is
  a panic.
\<close>

section \<open>The key of the pool\<close>

datatype key_text = Key_missing | Key_unreadable | Key_text string

datatype key_error = Key_io | Key_hex | Key_mismatch | Key_length nat

text \<open>A key of 160 bytes is the layout of the predecessor: its public halves must belong to the secret ones.\<close>

definition key_of_bytes :: "nacl \<Rightarrow> bytes \<Rightarrow> key_error + key_set" where
  "key_of_bytes nacl b =
     (if length b = 64 then Inr (from_secret_bytes b)
      else if length b = 160
      then let k = from_secret_bytes (take 32 (drop 32 b) @ drop 128 b) in
        if sign_pk nacl k \<noteq> take 32 b \<or> box_pk nacl k \<noteq> take 32 (drop 96 b) then Inl Key_mismatch else Inr k
      else Inl (Key_length (length b)))"

text \<open>The text a new key is written as, and the key of a text.\<close>

definition key_file_text :: "(bytes \<Rightarrow> string) \<Rightarrow> key_set \<Rightarrow> string" where
  "key_file_text hex k = hex (secret_bytes k) @ [CHR 0x0A]"

definition load_or_create_key ::
    "nacl \<Rightarrow> (bytes \<Rightarrow> string) \<Rightarrow> (string \<Rightarrow> bytes option) \<Rightarrow> key_set \<Rightarrow> bool \<Rightarrow> key_text \<Rightarrow> (key_error + key_set) \<times> key_text" where
  "load_or_create_key nacl hex unhex generated writable file =
     (case file of
        Key_text s \<Rightarrow> (rbind (ok_or (unhex (Text.trim s)) Key_hex) (key_of_bytes nacl), file)
      | Key_missing \<Rightarrow>
          if writable then (Inr generated, Key_text (key_file_text hex generated)) else (Inl Key_io, Key_missing)
      | Key_unreadable \<Rightarrow> (Inl Key_io, file))"

section \<open>Starting up\<close>

datatype payout_error = Unknown_network | Script_too_long nat | Bad_address

definition pool_payout_script :: "bech32 \<Rightarrow> base58 \<Rightarrow> config \<Rightarrow> payout_error + (network \<times> bytes)" where
  "pool_payout_script bech32 base58 cfg =
     (case network_parse (cfg_network cfg) of
        None \<Rightarrow> Inl Unknown_network
      | Some net \<Rightarrow>
          (case decode_script bech32 base58 (cfg_payout_address cfg) net of
             None \<Rightarrow> Inl Bad_address
           | Some s \<Rightarrow> if rdts_output_ok s then Inr (net, s) else Inl (Script_too_long (length s))))"

text \<open>The decoders of the documents, which come from third-party parsers, and what the process finds on disk.\<close>

record decoders =
  dc_unhex :: "string \<Rightarrow> bytes option"
  dc_meta :: "bytes \<Rightarrow> meta option"
  dc_record :: "bytes \<Rightarrow> block_record option"
  dc_carry :: "bytes \<Rightarrow> carry option"
  dc_controls :: "string \<Rightarrow> controls_file option"
  dc_rows :: "bytes \<Rightarrow> (u32 \<times> string \<times> u64 \<times> u32) list option"

record world =
  wo_key :: key_text
  wo_generated :: key_set
  wo_writable :: bool
  wo_disk :: disk
  wo_import :: "bytes option"
  wo_block_log :: "bytes option"
  wo_carry :: "bytes option"
  wo_snapshots :: dir
  wo_snapshot_dir :: bool
  wo_controls :: "(nat option \<times> string option) option"

definition totals_default :: totals where
  "totals_default = \<lparr>to_connections = 0, to_accepted = 0, to_rejected = 0, to_work = 0, to_coinbasers = 0,
     to_block_candidates = 0, to_blocks_submitted = 0, to_handshake_failures = 0, to_connections_refused = 0\<rparr>"

text \<open>The ledger of another pool is imported once, into an empty window; a failed import is only logged.\<close>

definition import_once :: "ext \<Rightarrow> decoders \<Rightarrow> config \<Rightarrow> bytes option \<Rightarrow> ledger \<times> disk \<Rightarrow> (ledger \<times> disk) option" where
  "import_once x dc cfg file ld =
     (case (cfg_import_ledger cfg, file) of
        (Some _, Some text) \<Rightarrow>
          if w_credits (l_window (fst ld)) = []
          then (case import_json_credits (x_enc_meta x) (dc_rows dc) text (fst ld) (snd ld) of
                  Inr (_, ld) \<Rightarrow> Some ld
                | Inl Panicked \<Rightarrow> None
                | Inl Invalid_data \<Rightarrow> Some ld)
          else Some ld
      | _ \<Rightarrow> Some ld)"

definition controls_at_start :: "bech32 \<Rightarrow> decoders \<Rightarrow> world \<Rightarrow> controls" where
  "controls_at_start bech32 dc wo =
     (case controls_load bech32 (dc_controls dc) (wo_controls wo) of
        Inr (Some c) \<Rightarrow> c
      | _ \<Rightarrow> controls_default)"

text \<open>\<open>run\<close> up to the listener: an exit code, or the state every task shares.\<close>

definition start :: "ext \<Rightarrow> decoders \<Rightarrow> clock \<Rightarrow> config \<Rightarrow> world \<Rightarrow> (nat + (env \<times> shared)) option" where
  "start x dc ck cfg wo =
     (case pool_payout_script (x_bech32 x) (x_base58 x) cfg of
        Inl _ \<Rightarrow> Some (Inl 2)
      | Inr (network, pool_script) \<Rightarrow>
     (case fst (load_or_create_key (x_nacl x) (x_hex x) (dc_unhex dc) (wo_generated wo) (wo_writable wo) (wo_key wo)) of
        Inl _ \<Rightarrow> Some (Inl 2)
      | Inr pool \<Rightarrow>
     (case rpc_new (cfg_rpc cfg) (cfg_rpc_cookie cfg) (cfg_rpc_user cfg) (cfg_rpc_password cfg) of
        Inl _ \<Rightarrow> Some (Inl 2)
      | Inr _ \<Rightarrow>
     (case ledger_open (dc_meta dc) (wo_disk wo) of
        Inl Panicked \<Rightarrow> None
      | Inl Invalid_data \<Rightarrow> Some (Inl 1)
      | Inr ld \<Rightarrow> do {
          (l, d) \<leftarrow> import_once x dc cfg (wo_import wo) ld;
          if cfg_commit_snapshot cfg \<and> \<not> wo_snapshot_dir wo then Some (Inl 1)
          else Some (Inr
            (\<lparr>en_cfg = cfg, en_pool = pool, en_pool_script = pool_script, en_network = network,
              en_base_split = base_split_of cfg, en_started = ck_instant ck, en_started_ts = ck_now ck\<rparr>,
             \<lparr>sh_controls = controls_at_start (x_bech32 x) dc wo, sh_workers = Map.empty, sh_ledger = l, sh_disk = d,
              sh_carry = carry_open (dc_carry dc) (wo_carry wo), sh_carry_file = wo_carry wo,
              sh_snapshots = wo_snapshots wo, sh_last_snapshot = '''',
              sh_blocks = (case read_all (dc_record dc) (wo_block_log wo) of Inr bs \<Rightarrow> bs | Inl _ \<Rightarrow> []),
              sh_block_log = wo_block_log wo, sh_clients = Map.empty, sh_seen = seen_new,
              sh_connections = connections_new, sh_tip = None, sh_totals = totals_default, sh_next_client_id = 1\<rparr>))
        }))))"

section \<open>Connections\<close>

definition count_refused :: "shared \<Rightarrow> shared" where
  "count_refused sh = sh\<lparr>sh_totals := (sh_totals sh)\<lparr>to_connections_refused := to_connections_refused (sh_totals sh) + 1\<rparr>\<rparr>"

text \<open>One turn of the accept loop: whether the connection gets a session.\<close>

definition accept_connection :: "env \<Rightarrow> ip \<Rightarrow> shared \<Rightarrow> (bool \<times> shared) option" where
  "accept_connection en addr sh = do {
     banned \<leftarrow> ip_banned (sh_controls sh) addr;
     if banned then Some (False, count_refused sh)
     else do {
       (q, c) \<leftarrow> admit (sh_connections sh) addr (cfg_max_connections (en_cfg en)) (cfg_max_connections_per_ip (en_cfg en));
       let sh = sh\<lparr>sh_connections := c\<rparr>;
       Some (case q of Inl _ \<Rightarrow> (False, count_refused sh) | Inr _ \<Rightarrow> (True, sh))
     }
   }"

text \<open>The end of a connection; \<open>None\<close> is a session that panicked, which tokio catches.\<close>

definition end_connection :: "ip \<Rightarrow> (session_error + unit) option \<Rightarrow> shared \<Rightarrow> shared" where
  "end_connection addr q sh =
     (let t = sh_totals sh;
          sh = (case q of
              Some (Inl e) \<Rightarrow>
                if e = Io \<or> e = Idle then sh else sh\<lparr>sh_totals := t\<lparr>to_handshake_failures := to_handshake_failures t + 1\<rparr>\<rparr>
            | _ \<Rightarrow> sh)
      in sh\<lparr>sh_connections := release (sh_connections sh) addr\<rparr>)"

section \<open>Found blocks\<close>

definition ORPHAN_RECHECK_BLOCKS :: u32 where "ORPHAN_RECHECK_BLOCKS = 100"

definition orphan_mark :: string where "orphan_mark = ''orphan:''"

definition is_orphan :: "string \<Rightarrow> bool" where
  "is_orphan kind = (take 7 kind = orphan_mark)"

definition mark_orphan :: "ext \<Rightarrow> string \<Rightarrow> shared \<Rightarrow> shared" where
  "mark_orphan x hash sh =
     (case find (\<lambda>r. br_hash r = hash) (rev (sh_blocks sh)) of
        None \<Rightarrow> sh
      | Some r \<Rightarrow>
          if is_orphan (br_kind r) then sh
          else snd (update_block x hash (\<lambda>r. r\<lparr>br_kind := orphan_mark @ br_kind r\<rparr>) sh))"

text \<open>The blocks to ask about, newest first and at most twenty; the heights are added up with checks.\<close>

fun to_confirm :: "u32 \<Rightarrow> nat \<Rightarrow> block_record list \<Rightarrow> (string \<times> u32) list option" where
  "to_confirm tip_height n [] = Some []"
| "to_confirm tip_height n (b # bs) =
     (if n = 0 then Some []
      else if br_settled b then to_confirm tip_height n bs
      else do {
        limit \<leftarrow> checked_add (br_height b) (if take 6 (br_kind b) = ''orphan'' then ORPHAN_RECHECK_BLOCKS else 2000);
        if limit > tip_height
        then map_option (\<lambda>rest. (br_hash b, br_height b) # rest) (to_confirm tip_height (n - 1) bs)
        else to_confirm tip_height n bs
      })"

text \<open>What the node says of a block: its confirmations, that it does not know it, or nothing.\<close>

datatype header_reply = Confirmations int | Unknown_block | No_answer

definition header_reply_of :: "rpc_error + jvalue \<Rightarrow> header_reply" where
  "header_reply_of answer =
     (case answer of
        Inr h \<Rightarrow> Confirmations (case Option.bind (field ''confirmations'' h) as_i64 of Some n \<Rightarrow> n | None \<Rightarrow> 0)
      | Inl (Rpc_node code _) \<Rightarrow> if code = - 5 then Unknown_block else No_answer
      | Inl _ \<Rightarrow> No_answer)"

definition settle_block :: "block_record \<Rightarrow> block_record" where
  "settle_block r = r\<lparr>br_kind := (if is_orphan (br_kind r) then drop 7 (br_kind r) else br_kind r), br_settled := True\<rparr>"

definition confirm_block :: "ext \<Rightarrow> env \<Rightarrow> header_reply \<Rightarrow> u32 \<Rightarrow> string \<times> u32 \<Rightarrow> shared \<Rightarrow> shared option" where
  "confirm_block x en reply tip_height b sh =
     (case reply of
        Confirmations n \<Rightarrow> Some
          (if n > 0 then apply_carry_for_settled x en (fst b) (snd (update_block x (fst b) settle_block sh))
           else if n < 0 then mark_orphan x (fst b) sh else sh)
      | Unknown_block \<Rightarrow> do {
          limit \<leftarrow> checked_add (snd b) 6;
          Some (if tip_height > limit then mark_orphan x (fst b) sh else sh)
        }
      | No_answer \<Rightarrow> Some sh)"

fun confirm_all :: "ext \<Rightarrow> env \<Rightarrow> (string \<Rightarrow> header_reply) \<Rightarrow> u32 \<Rightarrow> (string \<times> u32) list \<Rightarrow> shared \<Rightarrow> shared option" where
  "confirm_all x en node tip_height [] sh = Some sh"
| "confirm_all x en node tip_height (b # bs) sh = do {
     sh \<leftarrow> confirm_block x en (node (fst b)) tip_height b sh;
     confirm_all x en node tip_height bs sh
   }"

definition confirm_blocks :: "ext \<Rightarrow> env \<Rightarrow> (string \<Rightarrow> header_reply) \<Rightarrow> u32 \<Rightarrow> shared \<Rightarrow> shared option" where
  "confirm_blocks x en node tip_height sh = do {
     pending \<leftarrow> to_confirm tip_height 20 (rev (sh_blocks sh));
     confirm_all x en node tip_height pending sh
   }"

section \<open>The poller\<close>

unbundle bit_operations_syntax

record poller =
  po_warned :: bool
  po_confirm_at :: instant

text \<open>\<open>Duration::from_secs_f64\<close>, in nanoseconds: a number that is not one of seconds is a panic.\<close>

definition duration_of :: "f64 \<Rightarrow> nat option" where
  "duration_of x =
     (case x of
        Fin q \<Rightarrow> let n = round_even (q * 10 ^ 9) in if q < 0 \<or> n \<ge> 2 ^ 64 * 10 ^ 9 then None else Some (nat n)
      | _ \<Rightarrow> None)"

definition poll_period :: "config \<Rightarrow> nat option" where
  "poll_period cfg = duration_of (fmax (f64_of_bits (cfg_poll cfg)) (fdiv (Fin 1) (Fin 5)))"

text \<open>The network difficulty: as the node prints it, or from the compact target, or from the expected number of hashes.\<close>

definition diff1_target :: f64 where
  "diff1_target = fmul (Fin 65535) (fpowi 2 208)"

definition difficulty_from_bits :: "string \<Rightarrow> f64 option" where
  "difficulty_from_bits hex = do {
     bits \<leftarrow> map_option (of_nat :: nat \<Rightarrow> u32) (parse_hex (2 ^ 32) hex);
     let ex = unat (drop_bit 24 bits);
     let mantissa = bits AND 0x00FFFFFF;
     if mantissa = 0 \<or> bits AND 0x00800000 \<noteq> 0 \<or> ex < 1 \<or> 32 < ex then None
     else
       let target = fmul (Fin (of_nat (unat mantissa))) (fpowi 256 (int ex - 3)); d = fdiv diff1_target target
       in if ffinite d \<and> fless (Fin 0) d then Some d else None
   }"

definition node_difficulty :: "jvalue \<Rightarrow> f64" where
  "node_difficulty info =
     (let printed = Option.bind (field ''difficulty'' info) as_f64; work = Option.bind (field ''difficulty_blake2b'' info) as_f64 in
      if printed \<noteq> None \<and> fless (Fin 0) (the printed) then the printed
      else case Option.bind (Option.bind (field ''bits'' info) as_str) difficulty_from_bits of
          Some d \<Rightarrow> d
        | None \<Rightarrow>
            if work \<noteq> None \<and> fless (Fin 0) (the work)
            then fmul (fdiv (the work) (Fin (2 ^ 32))) (fdiv (Fin 65535) (Fin 65536)) else Fin 0)"

text \<open>A new tip, and whether the sessions are told: not of the first.\<close>

definition see_tip :: "clock \<Rightarrow> u32 \<Rightarrow> string \<Rightarrow> f64 \<Rightarrow> shared \<Rightarrow> bool \<times> shared" where
  "see_tip ck height hash difficulty sh =
     (if (case sh_tip sh of None \<Rightarrow> True | Some t \<Rightarrow> tp_hash t \<noteq> hash)
      then (sh_tip sh \<noteq> None, sh\<lparr>sh_tip := Some \<lparr>tp_height = height, tp_hash = hash, tp_difficulty = difficulty,
              tp_seen_at = ck_instant ck, tp_seen_ts = ck_now ck\<rparr>\<rparr>)
      else (False, sh))"

definition retarget :: "ext \<Rightarrow> env \<Rightarrow> f64 \<Rightarrow> shared \<Rightarrow> shared option" where
  "retarget x en difficulty sh =
     (let t = window_target (en_cfg en) difficulty in
      if \<not> fless (Fin 0) difficulty \<or> w_target_work (l_window (sh_ledger sh)) = t then Some sh
      else map_option (\<lambda>(l, d). sh\<lparr>sh_ledger := l, sh_disk := d\<rparr>)
        (persist_window (x_enc_meta x) (ledger_set_target (sh_ledger sh) t) (sh_disk sh)))"

text \<open>
  One turn of the poller.  \<open>answer\<close> is what \<open>getblockchaininfo\<close> gave, \<open>node\<close> what the node says of the
  headers of found blocks.  A node that does not answer changes nothing.
\<close>

definition poll_step ::
    "ext \<Rightarrow> env \<Rightarrow> clock \<Rightarrow> rpc_error + jvalue \<Rightarrow> (string \<Rightarrow> rpc_error + jvalue) \<Rightarrow>
       poller \<times> shared \<Rightarrow> (bool \<times> poller \<times> shared) option" where
  "poll_step x en ck answer node = (\<lambda>(po, sh).
     case answer of
       Inl _ \<Rightarrow> Some (False, po\<lparr>po_warned := True\<rparr>, sh)
     | Inr info \<Rightarrow>
         let height = (case Option.bind (field ''blocks'' info) as_u64 of Some n \<Rightarrow> ucast n | None \<Rightarrow> 0);
             hash = (case Option.bind (field ''bestblockhash'' info) as_str of Some h \<Rightarrow> h | None \<Rightarrow> '''');
             difficulty = node_difficulty info;
             (told, sh) = see_tip ck height hash difficulty sh;
             po = po\<lparr>po_warned := False\<rparr> in do {
           sh \<leftarrow> retarget x en difficulty sh;
           if po_confirm_at po \<le> ck_instant ck
           then map_option (\<lambda>sh. (told, po\<lparr>po_confirm_at := ck_instant ck + secs 30\<rparr>, sh))
             (confirm_blocks x en (\<lambda>hash. header_reply_of (node hash)) height sh)
           else Some (told, po, sh)
         })"

section \<open>Housekeeping\<close>

text \<open>The ledger: flushed every five seconds, written through every minute, compacted every five minutes.\<close>

definition tidy_ledger :: "ext \<Rightarrow> u64 \<Rightarrow> shared \<Rightarrow> shared option" where
  "tidy_ledger x n sh =
     map_option (\<lambda>(l, d). sh\<lparr>sh_ledger := l, sh_disk := d\<rparr>)
       (if n mod 60 = 0 then persist_window (x_enc_meta x) (sh_ledger sh) (sh_disk sh)
        else if n mod 12 = 0 then ledger_sync (x_enc_meta x) (sh_ledger sh) (sh_disk sh)
        else ledger_flush (x_enc_meta x) (sh_ledger sh) (sh_disk sh))"

definition forget_shares :: "shared \<Rightarrow> shared option" where
  "forget_shares sh =
     (case sh_tip sh of
        None \<Rightarrow> Some sh
      | Some t \<Rightarrow> map_option (\<lambda>s. sh\<lparr>sh_seen := s\<rparr>) (prune_below (sat_sub (tp_height t) 2) (sh_seen sh)))"

text \<open>One round, given the names and ages of the snapshot files; the exported statistics are left out.\<close>

definition housekeeping ::
    "ext \<Rightarrow> env \<Rightarrow> clock \<Rightarrow> (string \<Rightarrow> nat) \<Rightarrow> string list \<Rightarrow> u64 \<Rightarrow> shared \<Rightarrow> (u64 \<times> shared) option" where
  "housekeeping x en ck age names n sh = do {
     n \<leftarrow> checked_add n 1;
     let sh = (if cfg_commit_snapshot (en_cfg en) \<and> n mod 120 = 0
       then sh\<lparr>sh_snapshots := snapshot_prune age (ck_now ck)
         (map br_snapshot (filter (\<lambda>b. br_snapshot b \<noteq> '''') (sh_blocks sh))) names (sh_snapshots sh)\<rparr> else sh);
     sh \<leftarrow> tidy_ledger x n sh;
     sh \<leftarrow> forget_shares sh;
     Some (n, if n mod 12 = 0 then sh\<lparr>sh_workers := expire_workers (sh_workers sh) (ck_now ck)\<rparr> else sh)
   }"

text \<open>What the process does when it is told to stop.\<close>

definition shut_down :: "ext \<Rightarrow> shared \<Rightarrow> shared option" where
  "shut_down x sh =
     map_option (\<lambda>(l, d). sh\<lparr>sh_ledger := l, sh_disk := d\<rparr>) (persist_window (x_enc_meta x) (sh_ledger sh) (sh_disk sh))"

section \<open>What confirmation touches\<close>

text \<open>The list of blocks and the carry ledger, and their files.\<close>

definition blocks_only :: "shared \<Rightarrow> shared \<Rightarrow> bool" where
  "blocks_only sh sh' \<longleftrightarrow>
     sh' = sh\<lparr>sh_blocks := sh_blocks sh', sh_block_log := sh_block_log sh', sh_carry := sh_carry sh', sh_carry_file := sh_carry_file sh'\<rparr>"

lemma blocks_only_refl [simp]: "blocks_only sh sh"
  by (simp add: blocks_only_def)

lemma blocks_only_trans: "blocks_only a b \<Longrightarrow> blocks_only b c \<Longrightarrow> blocks_only a c"
  unfolding blocks_only_def by (cases a, cases b, cases c) simp

lemma blocks_onlyD:
  "blocks_only sh sh' \<Longrightarrow> sh_seen sh' = sh_seen sh \<and> sh_tip sh' = sh_tip sh \<and> sh_ledger sh' = sh_ledger sh \<and> sh_disk sh' = sh_disk sh"
  unfolding blocks_only_def by (cases sh, cases sh') simp

lemma update_block_only: "blocks_only sh (snd (update_block x h f sh))"
  by (simp add: update_block_def blocks_only_def split: option.split prod.split)

lemma confirm_blocks_only: "confirm_blocks x en node tip sh = Some sh' \<Longrightarrow> blocks_only sh sh'"
proof -
  have carry: "blocks_only sh (apply_carry_for_settled x en h sh)" for sh h
    using blocks_only_trans [OF _ update_block_only]
    by (auto simp: apply_carry_for_settled_def save_carry_def Let_def blocks_only_def [of _ "_\<lparr>sh_carry_file := _\<rparr>"] split: option.split)
  have mark: "blocks_only sh (mark_orphan x h sh)" for sh h
    using update_block_only by (auto simp: mark_orphan_def split: option.split)
  have one: "confirm_block x en reply tip b sh = Some sh' \<Longrightarrow> blocks_only sh sh'" for reply b sh sh'
    using carry mark update_block_only blocks_only_trans
    by (auto simp: confirm_block_def split: header_reply.splits if_splits Option.bind_splits) blast
  have "confirm_all x en node tip bs sh = Some sh' \<Longrightarrow> blocks_only sh sh'" for bs
    by (induction bs arbitrary: sh) (auto split: Option.bind_splits intro: blocks_only_trans one)
  then show "confirm_blocks x en node tip sh = Some sh' \<Longrightarrow> blocks_only sh sh'"
    by (auto simp: confirm_blocks_def split: Option.bind_splits)
qed

section \<open>What confirmation does to a block\<close>

text \<open>The kind a block was recorded with, whatever label it carries.\<close>

definition base_kind :: "string \<Rightarrow> string" where
  "base_kind kind = (if is_orphan kind then drop 7 kind else kind)"

text \<open>A block grows: its label may change, it may become settled and carried, and nothing else happens to it.\<close>

definition grown :: "block_record \<Rightarrow> block_record \<Rightarrow> bool" where
  "grown r r' \<longleftrightarrow>
     r' = r\<lparr>br_kind := br_kind r', br_settled := br_settled r', br_carried := br_carried r'\<rparr> \<and>
     base_kind (br_kind r') = base_kind (br_kind r) \<and> (br_settled r \<longrightarrow> br_settled r') \<and> (br_carried r \<longrightarrow> br_carried r')"

lemma grown_refl [simp]: "grown r r"
  by (simp add: grown_def)

lemma grown_trans: "grown a b \<Longrightarrow> grown b c \<Longrightarrow> grown a c"
  unfolding grown_def by (cases a, cases b, cases c) simp

abbreviation blocks_grow :: "shared \<Rightarrow> shared \<Rightarrow> bool" where
  "blocks_grow sh sh' \<equiv> list_all2 grown (sh_blocks sh) (sh_blocks sh')"

lemma blocks_grow_trans: "blocks_grow a b \<Longrightarrow> blocks_grow b c \<Longrightarrow> blocks_grow a c"
  by (rule list_all2_trans [of grown grown grown]) (auto intro: grown_trans)

lemma blocks_grow_refl: "blocks_grow sh sh"
  by (simp add: list_all2_refl)


lemma update_first_grows:
  "update_first P f rs = Some (r', rs') \<Longrightarrow> (\<And>r. find P rs = Some r \<Longrightarrow> grown r (f r)) \<Longrightarrow> list_all2 grown rs rs'"
  by (induction rs arbitrary: rs') (auto split: if_splits simp: list_all2_refl)

lemma update_block_grows:
  assumes "\<And>r. find (\<lambda>r. br_hash r = hash) (rev (sh_blocks sh)) = Some r \<Longrightarrow> grown r (f r)"
  shows "blocks_grow sh (snd (update_block x hash f sh))"
proof (cases "update_first (\<lambda>r. br_hash r = hash) f (rev (sh_blocks sh))")
  case (Some p)
  then have "list_all2 grown (rev (sh_blocks sh)) (snd p)"
    using update_first_grows [of "\<lambda>r. br_hash r = hash" f "rev (sh_blocks sh)" "fst p" "snd p"] assms by auto
  then show ?thesis using Some list_all2_rev [of grown "rev (sh_blocks sh)" "snd p"]
    by (auto simp: update_block_def split: prod.split)
qed (simp add: update_block_def blocks_grow_refl)

definition plain_kinds :: "shared \<Rightarrow> bool" where
  "plain_kinds sh \<longleftrightarrow> (\<forall>r \<in> set (sh_blocks sh). \<not> is_orphan (base_kind (br_kind r)))"

lemma plain_kinds_grow: "blocks_grow sh sh' \<Longrightarrow> plain_kinds sh \<Longrightarrow> plain_kinds sh'"
proof -
  assume "blocks_grow sh sh'"
  then have "map (\<lambda>r. base_kind (br_kind r)) (sh_blocks sh) = map (\<lambda>r. base_kind (br_kind r)) (sh_blocks sh')"
    by (induction rule: list_all2_induct) (auto simp: grown_def)
  then have "(\<lambda>r. base_kind (br_kind r)) ` set (sh_blocks sh) = (\<lambda>r. base_kind (br_kind r)) ` set (sh_blocks sh')" by (metis list.set_map)
  moreover have "plain_kinds s \<longleftrightarrow> (\<forall>k \<in> (\<lambda>r. base_kind (br_kind r)) ` set (sh_blocks s). \<not> is_orphan k)" for s
    by (simp add: plain_kinds_def)
  ultimately show "plain_kinds sh \<Longrightarrow> plain_kinds sh'" by simp
qed

lemma orphan_label: "is_orphan (orphan_mark @ k)" "base_kind (orphan_mark @ k) = k" "\<not> is_orphan k \<Longrightarrow> base_kind k = k"
  by (simp_all add: is_orphan_def orphan_mark_def base_kind_def)

lemma mark_orphan_grows: "blocks_grow sh (mark_orphan x hash sh)"
proof (cases "find (\<lambda>r. br_hash r = hash) (rev (sh_blocks sh))")
  case (Some r)
  then show ?thesis
    by (auto simp: mark_orphan_def blocks_grow_refl grown_def orphan_label intro!: update_block_grows)
qed (simp add: mark_orphan_def blocks_grow_refl)

lemma settle_block_grows: "\<not> is_orphan (base_kind (br_kind r)) \<Longrightarrow> grown r (settle_block r)"
  by (auto simp: settle_block_def grown_def base_kind_def)

lemma apply_carry_grows: "blocks_grow sh (apply_carry_for_settled x en hash sh)"
proof -
  have "list_all2 grown (sh_blocks sh) (sh_blocks (snd (update_block x hash (\<lambda>r. r\<lparr>br_carried := True\<rparr>) s)))"
    if "sh_blocks s = sh_blocks sh" for s
    using update_block_grows [of hash s "\<lambda>r. r\<lparr>br_carried := True\<rparr>" x] that by (simp add: grown_def)
  then show ?thesis
    by (simp add: apply_carry_for_settled_def blocks_grow_refl save_carry_def Let_def split: option.split)
qed

lemma confirm_block_grows:
  assumes "plain_kinds sh" and "confirm_block x en reply tip b sh = Some sh'"
  shows "blocks_grow sh sh'"
proof -
  have "blocks_grow sh (snd (update_block x (fst b) settle_block sh))"
  proof (rule update_block_grows)
    fix r assume "find (\<lambda>r. br_hash r = fst b) (rev (sh_blocks sh)) = Some r"
    then have "r \<in> set (sh_blocks sh)" by (metis find_Some_iff nth_mem set_rev)
    then show "grown r (settle_block r)" using assms(1) settle_block_grows by (auto simp: plain_kinds_def)
  qed
  then show ?thesis
    using assms(2) blocks_grow_trans apply_carry_grows mark_orphan_grows blocks_grow_refl
    by (auto simp: confirm_block_def split: header_reply.splits if_splits Option.bind_splits)
qed

lemma confirm_all_grows:
  "confirm_all x en node tip bs sh = Some sh' \<Longrightarrow> plain_kinds sh \<Longrightarrow> blocks_grow sh sh'"
proof (induction bs arbitrary: sh)
  case (Cons b bs)
  obtain s where s: "confirm_block x en (node (fst b)) tip b sh = Some s" "confirm_all x en node tip bs s = Some sh'"
    using Cons.prems(1) by (auto split: Option.bind_splits)
  from confirm_block_grows [OF Cons.prems(2) s(1)] Cons.IH [OF s(2)] show ?case
    using plain_kinds_grow Cons.prems(2) blocks_grow_trans by blast
qed (simp add: blocks_grow_refl)

text \<open>
  C28: Confirmation writes no history.  Whatever the node answers for whichever blocks, a round of the
  poller leaves the list of found blocks as it is, up to three fields of each block: the label of an
  orphan is put before the kind at most once and taken off again, so that the kind it was recorded
  with is always there to be read; and what is settled or carried stays so.
\<close>

theorem confirmation_keeps_records:
  assumes "confirm_blocks x en node tip sh = Some sh'" and "plain_kinds sh"
  shows "list_all2 (\<lambda>r r'. r' = r\<lparr>br_kind := br_kind r', br_settled := br_settled r', br_carried := br_carried r'\<rparr> \<and>
      br_kind r' \<in> {base_kind (br_kind r), orphan_mark @ base_kind (br_kind r)} \<and>
      (br_settled r \<longrightarrow> br_settled r') \<and> (br_carried r \<longrightarrow> br_carried r')) (sh_blocks sh) (sh_blocks sh')"
proof -
  have "blocks_grow sh sh'"
    using assms confirm_all_grows by (auto simp: confirm_blocks_def split: Option.bind_splits)
  then show ?thesis
  proof (rule list_all2_mono)
    fix r r' assume g: "grown r r'"
    have "k' \<in> {base_kind k, orphan_mark @ base_kind k}" if "base_kind k' = base_kind k" for k k'
      using that by (metis append_take_drop_id base_kind_def insertCI is_orphan_def)
    then show "r' = r\<lparr>br_kind := br_kind r', br_settled := br_settled r', br_carried := br_carried r'\<rparr> \<and>
      br_kind r' \<in> {base_kind (br_kind r), orphan_mark @ base_kind (br_kind r)} \<and>
      (br_settled r \<longrightarrow> br_settled r') \<and> (br_carried r \<longrightarrow> br_carried r')"
      using g by (simp add: grown_def)
  qed
qed


section \<open>A settled block is carried\<close>

lemma update_first_none: "update_first P f ys = None \<longleftrightarrow> \<not> list_ex P ys"
  by (induction ys) auto

lemma update_block_map:
  assumes "distinct (map br_hash (sh_blocks sh))"
  shows "sh_blocks (snd (update_block x h f sh)) = map (\<lambda>r. if br_hash r = h then f r else r) (sh_blocks sh)"
proof (cases "h \<in> br_hash ` set (sh_blocks sh)")
  case True
  then obtain r where r: "r \<in> set (rev (sh_blocks sh))" "br_hash r = h" by auto
  have "distinct (map br_hash (rev (sh_blocks sh)))" using assms by (simp flip: rev_map)
  from update_first_one [OF this r, of f] show ?thesis by (auto simp: update_block_def rev_map)
next
  case False
  then have "\<not> list_ex (\<lambda>r. br_hash r = h) (rev (sh_blocks sh))" by (auto simp: list_ex_iff)
  then have u: "update_first (\<lambda>r. br_hash r = h) f (rev (sh_blocks sh)) = None" by (simp add: update_first_none)
  have "map (\<lambda>r. if br_hash r = h then f r else r) (sh_blocks sh) = sh_blocks sh"
    by (rule map_idI) (use False in auto)
  then show ?thesis by (simp add: update_block_def u)
qed

definition settled_carried :: "shared \<Rightarrow> bool" where
  "settled_carried sh \<longleftrightarrow>
     distinct (map br_hash (sh_blocks sh)) \<and> (\<forall>r \<in> set (sh_blocks sh). br_settled r \<longrightarrow> br_carried r)"

lemma hashes_kept: "(\<And>r. br_hash (f r) = br_hash r) \<Longrightarrow> map br_hash (map (\<lambda>r. if br_hash r = h then f r else r) rs) = map br_hash rs"
  by (simp add: comp_def)

lemma settle_and_carry:
  assumes "cfg_carry_forward (en_cfg en)" and ok: "settled_carried sh"
  shows "settled_carried (apply_carry_for_settled x en h (snd (update_block x h settle_block sh)))"
proof -
  define s where "s = snd (update_block x h settle_block sh)"
  have d: "distinct (map br_hash (sh_blocks sh))" using ok by (simp add: settled_carried_def)
  have b: "sh_blocks s = map (\<lambda>r. if br_hash r = h then settle_block r else r) (sh_blocks sh)"
    unfolding s_def by (rule update_block_map [OF d])
  have h: "br_hash (settle_block r) = br_hash r" "br_carried (settle_block r) = br_carried r" for r by (simp_all add: settle_block_def)
  have ds: "distinct (map br_hash (sh_blocks s))" unfolding b by (subst hashes_kept) (simp_all add: h d)
  have others: "br_settled r \<longrightarrow> br_carried r" if "r \<in> set (sh_blocks s)" "br_hash r \<noteq> h" for r
    using that ok by (auto simp: b h settled_carried_def split: if_splits)
  show ?thesis
    unfolding s_def [symmetric]
  proof (cases "\<exists>r \<in> set (sh_blocks s). br_hash r = h \<and> br_settled r \<and> \<not> br_carried r")
    case True
    then obtain r where r: "r \<in> set (sh_blocks s)" "br_hash r = h" "br_settled r" "\<not> br_carried r" by blast
    have "sh_blocks (apply_carry_for_settled x en h s) = mark_carried h (sh_blocks s)"
      using apply_carry_eq [OF assms(1) ds r, of x] by (simp add: Let_def)
    moreover have "distinct (map br_hash (mark_carried h (sh_blocks s)))"
      unfolding mark_carried_def by (subst hashes_kept) (simp_all add: ds)
    moreover have "br_settled r \<longrightarrow> br_carried r" if "r \<in> set (mark_carried h (sh_blocks s))" for r
      using that others by (auto simp: mark_carried_def split: if_splits)
    ultimately show "settled_carried (apply_carry_for_settled x en h s)" by (simp add: settled_carried_def)
  next
    case False
    then have "apply_carry_for_settled x en h s = s" by (intro apply_carry_none) (auto simp: list_ex_iff)
    then show "settled_carried (apply_carry_for_settled x en h s)" using False ds others by (auto simp: settled_carried_def)
  qed
qed

lemma mark_orphan_carried: "settled_carried sh \<Longrightarrow> settled_carried (mark_orphan x h sh)"
proof -
  let ?f = "\<lambda>r. r\<lparr>br_kind := orphan_mark @ br_kind r\<rparr>"
  assume ok: "settled_carried sh"
  have m: "sh_blocks (snd (update_block x h ?f sh)) = map (\<lambda>r. if br_hash r = h then ?f r else r) (sh_blocks sh)"
    using ok by (intro update_block_map) (simp add: settled_carried_def)
  have "distinct (map br_hash (map (\<lambda>r. if br_hash r = h then ?f r else r) (sh_blocks sh)))"
    using ok by (subst hashes_kept) (simp_all add: settled_carried_def)
  then have "settled_carried (snd (update_block x h ?f sh))"
    using ok by (auto simp: settled_carried_def m)
  then show ?thesis using ok by (simp add: mark_orphan_def split: option.split)
qed

lemma confirm_all_carried:
  assumes "cfg_carry_forward (en_cfg en)"
  shows "confirm_all x en node tip bs sh = Some sh' \<Longrightarrow> settled_carried sh \<Longrightarrow> settled_carried sh'"
proof (induction bs arbitrary: sh)
  case (Cons b bs)
  obtain s where s: "confirm_block x en (node (fst b)) tip b sh = Some s" "confirm_all x en node tip bs s = Some sh'"
    using Cons.prems(1) by (auto split: Option.bind_splits)
  have "settled_carried s"
    using s(1) Cons.prems(2) settle_and_carry [OF assms] mark_orphan_carried
    by (auto simp: confirm_block_def split: header_reply.splits if_splits Option.bind_splits)
  then show ?case using Cons.IH s(2) by blast
qed simp



definition demo_found :: shared where
  "demo_found = demo_shared\<lparr>sh_blocks :=
     [(demo_record ''a'' 1)\<lparr>br_unpaid := [(''ann'', 40)]\<rparr>, (demo_record ''b'' 2)\<lparr>br_kind := ''orphan:split''\<rparr>, demo_record ''c'' 3]\<rparr>"

definition demo_node :: "string \<Rightarrow> header_reply" where
  "demo_node h = (if h = ''c'' then Confirmations (- 1) else if h = ''b'' then Unknown_block else Confirmations 2)"

lemma demo_confirmed: "map_option (\<lambda>sh. map (\<lambda>r. (br_kind r, br_settled r, br_carried r)) (sh_blocks sh))
    (confirm_blocks demo_ext demo_env demo_node 9 demo_found) =
  Some [('''', True, True), (''orphan:split'', False, False), (''orphan:'', False, False)]"
  by code_simp

theorem confirmation_keeps_records_witness:
  "\<exists>sh'. confirm_blocks demo_ext demo_env demo_node 9 demo_found = Some sh' \<and> length (sh_blocks sh') = 3 \<and>
     map br_kind (sh_blocks sh') = ['''', ''orphan:split'', ''orphan:'']"
proof -
  obtain sh' where sh': "confirm_blocks demo_ext demo_env demo_node 9 demo_found = Some sh'"
      "map (\<lambda>r. (br_kind r, br_settled r, br_carried r)) (sh_blocks sh') =
        [('''', True, True), (''orphan:split'', False, False), (''orphan:'', False, False)]"
    using demo_confirmed by auto
  have "plain_kinds demo_found"
    by (simp add: plain_kinds_def demo_found_def demo_record_def base_kind_def is_orphan_def orphan_mark_def)
  from list_all2_lengthD [OF confirmation_keeps_records [OF sh'(1) this]] have "length (sh_blocks sh') = 3"
    by (simp add: demo_found_def)
  moreover have "map br_kind (sh_blocks sh') = map fst (map (\<lambda>r. (br_kind r, br_settled r, br_carried r)) (sh_blocks sh'))" by simp
  ultimately show ?thesis using sh' by simp
qed


section \<open>The key survives a restart\<close>

lemma trim_start_stops: "ws_front b = 0 \<Longrightarrow> trim_start b = b"
  by (simp add: trim_start.simps [of b])

text \<open>Printable bytes and a newline.\<close>

lemma trim_line:
  assumes "list_all (\<lambda>b. 32 < b \<and> b < 127) b" and "b \<noteq> []"
  shows "Text.trim (bytes_str (b @ [10])) = bytes_str b"
proof -
  have heads: "w \<noteq> [] \<and> (hd w \<le> 32 \<or> 127 \<le> hd w)" if "w \<in> set white_space" for w
    using white_space_ends that by (auto simp: list_all_iff)
  have h: "32 < hd (b @ [10])" "hd (b @ [10]) < 127" using assms by (auto simp: list_all_iff)
  have "take (length w) (b @ [10]) \<noteq> w" if "w \<in> set white_space" for w
  proof
    assume t: "take (length w) (b @ [10]) = w"
    then have "hd w = hd (b @ [10])" using heads [OF that] by (metis hd_take length_greater_0_conv)
    then show False using heads [OF that] h by (auto simp: not_le [symmetric])
  qed
  then have "ws_front (b @ [10]) = 0" unfolding ws_front_def by (auto simp: find_Some_iff in_set_conv_nth split: option.split)
  then have s: "trim_start (b @ [10]) = b @ [10]" by (rule trim_start_stops)
  have "ws_back (b @ [10]) = 1"
    by (simp add: ws_back_def white_space_def)
  then have "trim_end (b @ [10]) = trim_end b" by (simp add: trim_end.simps [of "b @ [10]"])
  then show ?thesis using trim_solid(2) [OF assms(1)] s by (simp add: Text.trim_def)
qed

text \<open>Hexadecimal as the library documents it: printable, and undone by its decoder.\<close>

definition hex_ok :: "(bytes \<Rightarrow> string) \<Rightarrow> (string \<Rightarrow> bytes option) \<Rightarrow> bool" where
  "hex_ok hex unhex \<longleftrightarrow> (\<forall>b. unhex (hex b) = Some b \<and> (b \<noteq> [] \<longrightarrow> hex b \<noteq> '''') \<and>
     list_all (\<lambda>c. 32 < c \<and> c < 127) (str_bytes (hex b)))"

lemma bytes_str_append: "bytes_str (a @ [10]) = bytes_str a @ [CHR 0x0A]"
  proof -
  have "bytes_str [10] = [CHR 0x0A]" by code_simp
  then show ?thesis by (simp add: bytes_str_def)
qed

lemma loaded_key_same:
  assumes "hex_ok hex unhex" and "length (ks_sign k) = 32" and "length (ks_box k) = 32"
  shows "load_or_create_key nacl hex unhex g w (Key_text (key_file_text hex k)) = (Inr k, Key_text (key_file_text hex k))"
proof -
  let ?b = "secret_bytes k"
  have b: "length ?b = 64" "from_secret_bytes ?b = k" using assms(2,3) by (simp_all add: secret_bytes_def from_secret_bytes_def)
  then have "?b \<noteq> []" by auto
  then have h: "unhex (hex ?b) = Some ?b" "str_bytes (hex ?b) \<noteq> []" "list_all (\<lambda>c. 32 < c \<and> c < 127) (str_bytes (hex ?b))"
    using assms(1) by (auto simp: hex_ok_def str_bytes_def)
  have "bytes_str (str_bytes (hex ?b) @ [10]) = key_file_text hex k"
    by (simp add: key_file_text_def bytes_str_append)
  then have "Text.trim (key_file_text hex k) = hex ?b" using trim_line [OF h(3,2)] by simp
  then show ?thesis using h b by (simp add: load_or_create_key_def key_of_bytes_def)
qed

text \<open>
  The pool keeps its identity.  A pool that finds no key makes one and writes it down, and every later
  start reads back that very key; what is on disk decides then, not what the start would generate.
\<close>

theorem pool_key_survives_restart:
  assumes "hex_ok hex unhex" and "length (ks_sign k) = 32" and "length (ks_box k) = 32"
    and "load_or_create_key nacl hex unhex k True Key_missing = (Inr k1, file)"
  shows "k1 = k \<and> load_or_create_key nacl hex unhex other w file = (Inr k, file)"
  using loaded_key_same [OF assms(1-3)] assms(4) by (auto simp: load_or_create_key_def)

text \<open>A hexadecimal of sixteen letters, and its inverse.\<close>

definition demo_hex :: "bytes \<Rightarrow> string" where
  "demo_hex b = concat (map (\<lambda>x. [char_of (65 + unat x div 16), char_of (65 + unat x mod 16)]) b)"

fun demo_unhex :: "string \<Rightarrow> bytes option" where
  "demo_unhex [] = Some []"
| "demo_unhex [c] = None"
| "demo_unhex (c # d # cs) = map_option (\<lambda>b. of_nat ((of_char c - 65) * 16 + (of_char d - 65)) # b) (demo_unhex cs)"

lemma demo_hex_ok: "hex_ok demo_hex demo_unhex"
proof -
  have nib: "unat x div 16 < 16" for x :: u8 using unat_lt [of x] by simp
  have c: "of_char (char_of (65 + n) :: char) = 65 + n" if "n < 16" for n :: nat using that by (simp add: of_char_of)
  have w: "of_nat (unat x div 16) * 16 + of_nat (unat x mod 16) = x" for x :: u8
  proof -
    have "(of_nat (unat x) :: u8) = x" by simp
    then have "(of_nat (unat x div 16 * 16 + unat x mod 16) :: u8) = x" by (simp only: div_mult_mod_eq)
    then show ?thesis by (simp only: of_nat_add of_nat_mult of_nat_numeral)
  qed
  have step: "demo_unhex (demo_hex (x # b)) = map_option (Cons x) (demo_unhex (demo_hex b))" for x b
    using w [of x] nib [of x] by (simp add: demo_hex_def c del: of_char_of)
  have "demo_unhex (demo_hex b) = Some b" for b
    by (induction b) (simp add: demo_hex_def, simp add: step)
  moreover have "32 < (of_nat (65 + n) :: u8) \<and> (of_nat (65 + n) :: u8) < 127" if "n < 16" for n
    using that by (simp add: word_less_nat_alt unat_of_nat del: of_nat_add)
  then have "list_all (\<lambda>c. 32 < c \<and> c < 127) (str_bytes (demo_hex b))" for b
    by (induction b) (simp_all add: demo_hex_def str_bytes_def c nib del: of_nat_add of_char_of)
  moreover have "b \<noteq> [] \<Longrightarrow> demo_hex b \<noteq> ''''" for b by (cases b) (simp_all add: demo_hex_def)
  ultimately show ?thesis by (simp add: hex_ok_def)
qed

theorem pool_key_survives_restart_witness:
  "\<exists>k file. load_or_create_key demo_nacl demo_hex demo_unhex k True Key_missing = (Inr k, file) \<and>
     load_or_create_key demo_nacl demo_hex demo_unhex (demo_keys 2) False file = (Inr k, file)"
proof -
  let ?k = "\<lparr>ks_sign = replicate 32 1, ks_box = replicate 32 2\<rparr>"
  have "load_or_create_key demo_nacl demo_hex demo_unhex ?k True Key_missing = (Inr ?k, Key_text (key_file_text demo_hex ?k))"
    by (simp add: load_or_create_key_def)
  with pool_key_survives_restart [OF demo_hex_ok _ _ this, of "demo_keys 2" False] show ?thesis by auto
qed

end
