(* ===== verification/Pool.thy ===== *)
theory Pool
  imports Crediting Daemon
begin

text \<open>
  The pool as a whole: any number of sessions, the poller, the housekeeping timer, the accept loop and
  the watcher of the controls, interleaved in any order on the shared state.  Shown: what a start
  establishes, and that no share is ever credited twice.
\<close>

section \<open>What a start establishes\<close>

lemma controls_at_start_ok: "controls_ok (controls_at_start bech32 dc wo)"
  using controls_load_ok by (auto simp: controls_at_start_def controls_ok_def controls_default_def split: sum.splits option.splits)

lemma start_fit_to_serve_facts:
  assumes "start x dc ck cfg wo = Some (Inr (en, sh))"
  shows "rdts_output_ok (en_pool_script en) \<and> en_cfg en = cfg \<and> en_base_split en = base_split_of (en_cfg en) \<and>
    controls_ok (sh_controls sh) \<and> seen_ok (sh_seen sh) \<and> (\<forall>h. credited (sh_seen sh) h = []) \<and>
    sh_connections sh = connections_new \<and> sh_clients sh = Map.empty \<and> sh_tip sh = None"
proof -
  have "rdts_output_ok s" if "pool_payout_script b1 b2 cfg = Inr (n, s)" for b1 b2 n s
    using that by (auto simp: pool_payout_script_def split: option.splits if_splits)
  moreover have "seen_ok seen_new" "credited seen_new h = []" for h by (simp_all add: seen_ok_new) (simp add: credited_def seen_new_def)
  ultimately show ?thesis
    using assms controls_at_start_ok
    by (auto simp: start_def split: sum.splits fault.splits prod.splits Option.bind_splits if_splits)
qed

text \<open>
  C31: A process that comes up is fit to serve: it pays to a script a coinbase can carry, its limits on
  fees hold whatever the controls file says, it starts from the configured split, remembers no share,
  counts no connection and knows no tip.
\<close>

theorem start_fit_to_serve:
  assumes "start x dc ck cfg wo = Some (Inr (en, sh))"
  shows "rdts_output_ok (en_pool_script en) \<and> en_cfg en = cfg \<and> en_base_split en = base_split_of (en_cfg en) \<and>
    controls_ok (sh_controls sh) \<and> seen_ok (sh_seen sh) \<and> (\<forall>h. credited (sh_seen sh) h = []) \<and>
    sh_connections sh = connections_new \<and> sh_clients sh = Map.empty \<and> sh_tip sh = None"
  using assms by (rule start_fit_to_serve_facts)

section \<open>Operations that credit nothing\<close>

definition quiet :: "shared \<Rightarrow> shared \<Rightarrow> bool" where
  "quiet sh sh' \<longleftrightarrow> sh_seen sh' = sh_seen sh \<and> sh_tip sh' = sh_tip sh"

lemma same_books_quiet: "same_books sh sh' \<Longrightarrow> quiet sh sh'"
  by (simp add: same_books_def quiet_def)

lemma quiet_refl [simp]: "quiet sh sh"
  by (simp add: quiet_def)

lemma quiet_trans: "quiet a b \<Longrightarrow> quiet b c \<Longrightarrow> quiet a c"
  by (simp add: quiet_def)

lemma note_reject_shared: "note_reject ck r = (q, r') \<Longrightarrow> rs_shared r' = rs_shared r"
  by (auto simp: note_reject_def Let_def split: if_splits)

lemma commit_output_quiet: "commit_output x en snap r = (hex, outs, r') \<Longrightarrow> quiet (rs_shared r) (rs_shared r')"
  by (auto simp: commit_output_def quiet_def split: option.splits if_splits)

lemma count_coinbaser_quiet:
  "client_update cid f (sh\<lparr>sh_totals := t\<rparr>) = Some sh' \<Longrightarrow> quiet sh sh'"
  by (auto dest!: client_update_books simp: same_books_def quiet_def)

lemma issue_coinbaser_quiet:
  "holds (\<lambda>_ r'. quiet (rs_shared r) (rs_shared r')) (issue_coinbaser x en ck v prev r)"
proof -
  have sent: "holds (\<lambda>_ r'. quiet (rs_shared r) (rs_shared r')) (and_then (send_mining x ck b False r1) f)"
    if "quiet (rs_shared r) (rs_shared r1)"
      "\<And>r2. rs_shared r2 = rs_shared r1 \<Longrightarrow> holds (\<lambda>_ r'. quiet (rs_shared r) (rs_shared r')) (f r2)" for b r1 f
    by (rule sent_books) (use that in auto)
  show ?thesis
    unfolding issue_coinbaser_def Let_def
    by (intro holds_bind) (auto split: prod.split dest!: commit_output_quiet count_coinbaser_quiet elim: quiet_trans intro!: sent holds_bind)
qed

lemma on_coinbaser_request_quiet:
  assumes "on_coinbaser_request x en ck v prev r = Some (q, r')"
  shows "quiet (rs_shared r) (rs_shared r')"
  using assms issue_coinbaser_quiet [of "with_session (se_coinbaser_tokens_update (\<lambda>n. n - 1)) (with_session (refill_tokens ck) r)" x en ck v prev]
  by (auto simp: on_coinbaser_request_def Let_def holds_def dest: note_reject_shared split: if_splits)

lemma update_block_quiet: "quiet sh (snd (update_block x h f sh))"
  using blocks_onlyD [OF update_block_only] by (simp add: quiet_def)

lemma submit_all_shared: "submit_all txns ps r = Some r' \<Longrightarrow> rs_shared r' = rs_shared r"
  by (induction ps arbitrary: r) (auto simp: submit_candidate_def split: Option.bind_splits)

lemma no_transactions_quiet: "quiet sh (no_transactions x ps sh)"
  unfolding no_transactions_def
  by (induction ps arbitrary: sh) (auto intro: quiet_trans update_block_quiet)

lemma on_validation_quiet: "on_validation x v r = Some (q, r') \<Longrightarrow> quiet (rs_shared r) (rs_shared r')"
  using no_transactions_quiet by (auto simp: on_validation_def Let_def dest: submit_all_shared split: option.splits job_validation.splits if_splits)

lemma blocks_only_quiet: "blocks_only sh sh' \<Longrightarrow> quiet sh sh'"
  by (drule blocks_onlyD) (simp add: quiet_def)

lemmas confirm_blocks_quiet = blocks_only_quiet [OF confirm_blocks_only]

lemma poll_step_seen: "poll_step x en ck answer node (po, sh) = Some (told, po', sh') \<Longrightarrow> sh_seen sh' = sh_seen sh"
proof -
  have tip: "see_tip ck h hash d sh = (t, s) \<Longrightarrow> sh_seen s = sh_seen sh" for h hash d t s
    by (auto simp: see_tip_def split: if_splits)
  have target: "retarget x en d s = Some s' \<Longrightarrow> sh_seen s' = sh_seen s" for d s s'
    by (auto simp: retarget_def Let_def split: if_splits)
  show "poll_step x en ck answer node (po, sh) = Some (told, po', sh') \<Longrightarrow> sh_seen sh' = sh_seen sh"
    by (auto simp: poll_step_def Let_def quiet_def dest!: tip target confirm_blocks_quiet
        split: option.splits prod.splits sum.splits if_splits Option.bind_splits)
qed


section \<open>The pool at work\<close>

text \<open>
  The list \<open>paid\<close> is an observer's: whenever a share changes the ledger, it notes the height and the hash the
  share was verified with, or that there was no verdict.
\<close>

definition note_credit :: "ext \<Rightarrow> env \<Rightarrow> clock \<Rightarrow> pow_submit \<Rightarrow> run_state \<Rightarrow> run_state \<Rightarrow> (u32 \<times> bytes) option list \<Rightarrow> (u32 \<times> bytes) option list" where
  "note_credit x en ck s r r' paid =
     (if sh_ledger (rs_shared r') = sh_ledger (rs_shared r) then paid
      else map_option (\<lambda>v. (v_height v, v_hash v)) (share_verdict x en ck s (rs_session r)) # paid)"

definition tip_advances :: "tip option \<Rightarrow> tip option \<Rightarrow> bool" where
  "tip_advances a b = (case a of None \<Rightarrow> True | Some t \<Rightarrow> (case b of None \<Rightarrow> False | Some t' \<Rightarrow> unat (tp_height t) \<le> unat (tp_height t')))"

text \<open>
  A step of any task: a share, a coinbaser request or a validation reply of any session in any state,
  the node's answer to a submitted block, a turn of the poller whose tip is not lower than the last,
  a round of housekeeping, a new connection and its session, the end of one, and new controls.
\<close>

inductive pool_step ::
    "ext \<Rightarrow> env \<Rightarrow> shared \<times> (u32 \<times> bytes) option list \<Rightarrow> shared \<times> (u32 \<times> bytes) option list \<Rightarrow> bool" for x en where
  share: "on_pow x en ck s r = Some (q, r') \<Longrightarrow> pool_step x en (rs_shared r, paid) (rs_shared r', note_credit x en ck s r r' paid)"
| request: "on_coinbaser_request x en ck v prev r = Some (q, r') \<Longrightarrow> pool_step x en (rs_shared r, paid) (rs_shared r', paid)"
| reply: "on_validation x jv r = Some (q, r') \<Longrightarrow> pool_step x en (rs_shared r, paid) (rs_shared r', paid)"
| answer: "pool_step x en (sh, paid) (submitted x hash answer sh, paid)"
| poll: "poll_step x en ck answer node (po, sh) = Some (told, po', sh') \<Longrightarrow> tip_advances (sh_tip sh) (sh_tip sh') \<Longrightarrow>
    pool_step x en (sh, paid) (sh', paid)"
| tidy: "housekeeping x en ck age names n sh = Some (n', sh') \<Longrightarrow> pool_step x en (sh, paid) (sh', paid)"
| accept: "accept_connection en addr sh = Some (admitted, sh') \<Longrightarrow> pool_step x en (sh, paid) (sh', paid)"
| greet: "open_session x en ck key seal token remote gone fails arrived sh = (opened, sh') \<Longrightarrow> pool_step x en (sh, paid) (sh', paid)"
| leave: "pool_step x en (sh, paid) (end_connection addr ended (close_session sid sh), paid)"
| watch: "pool_step x en (sh, paid) (sh\<lparr>sh_controls := controls_watch (x_bech32 x) dec found (sh_controls sh)\<rparr>, paid)"

definition pool_inv :: "shared \<times> (u32 \<times> bytes) option list \<Rightarrow> bool" where
  "pool_inv = (\<lambda>(sh, paid). seen_ok (sh_seen sh) \<and> distinct paid \<and> None \<notin> set paid \<and>
     (\<forall>h hash. Some (h, hash) \<in> set paid \<longrightarrow>
        hash \<in> set (credited (sh_seen sh) h) \<or> (\<exists>t. sh_tip sh = Some t \<and> unat h + 2 < unat (tp_height t))))"

lemma pool_inv_quiet: "pool_inv (sh, paid) \<Longrightarrow> quiet sh sh' \<Longrightarrow> pool_inv (sh', paid)"
  by (simp add: pool_inv_def quiet_def)

lemma reply_hello_shared: "reply_hello x en seal r = (q, r') \<Longrightarrow> rs_shared r' = rs_shared r"
  unfolding reply_hello_def Let_def by (auto dest!: write_frame_state)

lemma send_configure_shared: "send_configure x en ck token r = (q, r') \<Longrightarrow> rs_shared r' = rs_shared r"
  unfolding send_configure_def Let_def by (rule send_mining_shared)

lemma open_session_quiet: "open_session x en ck key seal token remote gone fails arrived sh = (q, sh') \<Longrightarrow> quiet sh sh'"
  by (auto simp: open_session_def Let_def quiet_def split: sum.splits prod.splits dest!: reply_hello_shared send_configure_shared)

lemma accept_quiet: "accept_connection en addr sh = Some (b, sh') \<Longrightarrow> quiet sh sh'"
  by (auto simp: accept_connection_def quiet_def count_refused_def Let_def split: Option.bind_splits if_splits sum.splits)

lemma leave_quiet: "quiet sh (end_connection addr q (close_session sid sh))"
  by (auto simp: end_connection_def close_session_def quiet_def Let_def split: option.split sum.split)

lemma housekeeping_seen:
  assumes "housekeeping x en ck age names n sh = Some (n', sh')" and "seen_ok (sh_seen sh)"
  shows "seen_ok (sh_seen sh') \<and> sh_tip sh' = sh_tip sh \<and>
    (\<forall>h. (\<forall>t. sh_tip sh = Some t \<longrightarrow> unat (tp_height t) \<le> unat h + 2) \<longrightarrow> credited (sh_seen sh') h = credited (sh_seen sh) h)"
proof -
  obtain m s1 s2 where m: "checked_add n 1 = Some m"
    and 1: "tidy_ledger x m (if cfg_commit_snapshot (en_cfg en) \<and> m mod 120 = 0
       then sh\<lparr>sh_snapshots := snapshot_prune age (ck_now ck)
         (map br_snapshot (filter (\<lambda>b. br_snapshot b \<noteq> '''') (sh_blocks sh))) names (sh_snapshots sh)\<rparr> else sh) = Some s1"
    and 2: "forget_shares s1 = Some s2"
    and 3: "sh' = (if m mod 12 = 0 then s2\<lparr>sh_workers := expire_workers (sh_workers s2) (ck_now ck)\<rparr> else s2)"
    using assms(1) by (auto simp: housekeeping_def Let_def split: Option.bind_splits)
  have s1: "sh_seen s1 = sh_seen sh" "sh_tip s1 = sh_tip sh"
    using 1 by (auto simp: tidy_ledger_def split: if_splits)
  have s3: "sh_seen sh' = sh_seen s2" "sh_tip sh' = sh_tip s2" by (simp_all add: 3)
  show ?thesis
  proof (cases "sh_tip sh")
    case None
    then show ?thesis using 2 s1 s3 assms(2) by (simp add: forget_shares_def)
  next
    case (Some t)
    obtain p where p: "prune_below (sat_sub (tp_height t) 2) (sh_seen sh) = Some p" "seen_ok p"
        "\<forall>h \<ge> sat_sub (tp_height t) 2. credited p h = credited (sh_seen sh) h" using prune_below_ok [OF assms(2)] by blast
    have "sat_sub (tp_height t) 2 \<le> h" if "unat (tp_height t) \<le> unat h + 2" for h
      using that by (auto simp: sat_sub_def word_le_nat_alt unat_sub)
    then show ?thesis using 2 s1 s3 p Some by (auto simp: forget_shares_def)
  qed
qed


lemma share_inv:
  assumes inv: "pool_inv (rs_shared r, paid)" and pow: "on_pow x en ck s r = Some (q, r')"
  shows "pool_inv (rs_shared r', note_credit x en ck s r r' paid)"
proof -
  let ?sh = "rs_shared r" and ?sh' = "rs_shared r'"
  have ok: "seen_ok (sh_seen ?sh)" using inv by (simp add: pool_inv_def)
  have e: "share_effect x en ck s (share_verdict x en ck s (rs_session r)) ?sh ?sh'"
    using on_pow_effect [OF ok, of x en ck s] pow by simp
  then have f: "seen_ok (sh_seen ?sh')" "sh_tip ?sh' = sh_tip ?sh" by (simp_all add: share_effect_def)
  have keep: "pool_inv (?sh', paid)" if "\<forall>h. set (credited (sh_seen ?sh) h) \<subseteq> set (credited (sh_seen ?sh') h)"
    using inv f that by (auto simp: pool_inv_def)
  show ?thesis
  proof (cases "sh_ledger ?sh' = sh_ledger ?sh")
    case True
    have "set (credited (sh_seen ?sh) h) \<subseteq> set (credited (sh_seen ?sh') h)" for h
      using e by (auto simp: share_effect_def nothing_booked_def share_booked_def)
    then show ?thesis using keep True by (simp add: note_credit_def)
  next
    case False
    then obtain v where v: "share_verdict x en ck s (rs_session r) = Some v" "share_earned x en ck s v ?sh" "share_booked x ck s v ?sh ?sh'"
      using e by (auto simp: share_effect_def nothing_booked_def)
    then have "set (credited (sh_seen ?sh) h) \<subseteq> set (credited (sh_seen ?sh') h)" for h by (auto simp: share_booked_def)
    then have "pool_inv (?sh', paid)" using keep by blast
    moreover have "v_hash v \<in> set (credited (sh_seen ?sh') (v_height v))" using v(3) by (simp add: share_booked_def)
    moreover have "Some (v_height v, v_hash v) \<notin> set paid"
    proof
      assume "Some (v_height v, v_hash v) \<in> set paid"
      moreover have "v_hash v \<notin> set (credited (sh_seen ?sh) (v_height v))" using v(2) by (simp add: share_earned_def)
      ultimately obtain t where "sh_tip ?sh = Some t" "unat (v_height v) + 2 < unat (tp_height t)"
        using inv unfolding pool_inv_def by blast
      then show False using v(2) by (simp add: share_earned_def timely_def)
    qed
    ultimately show ?thesis using False v(1) by (auto simp: note_credit_def pool_inv_def)
  qed
qed

lemma submitted_quiet: "quiet sh (submitted x hash a sh)"
  unfolding submitted_def Let_def by (rule quiet_trans [OF _ update_block_quiet]) (simp add: quiet_def)

lemma pool_step_inv: "pool_step x en p p' \<Longrightarrow> pool_inv p \<Longrightarrow> pool_inv p'"
proof (induction rule: pool_step.induct)
  case (poll ck answer node po sh told po' sh' paid)
  then show ?case using poll_step_seen [OF poll(1)]
    by (fastforce simp: pool_inv_def tip_advances_def split: option.splits)
next
  case (tidy ck age names n sh n' sh' paid)
  have ok: "seen_ok (sh_seen sh)" using tidy(2) by (simp add: pool_inv_def)
  note h = housekeeping_seen [OF tidy(1) ok]
  have "hash \<in> set (credited (sh_seen sh') k) \<or> (\<exists>t. sh_tip sh' = Some t \<and> unat k + 2 < unat (tp_height t))"
    if "Some (k, hash) \<in> set paid" for k hash
  proof -
    have "hash \<in> set (credited (sh_seen sh) k) \<or> (\<exists>t. sh_tip sh = Some t \<and> unat k + 2 < unat (tp_height t))"
      using that tidy(2) by (simp add: pool_inv_def)
    then show ?thesis using h by (metis not_le option.inject)
  qed
  then show ?case using tidy(2) h by (simp add: pool_inv_def)
next
  case (answer sh paid hash a)
  then show ?case by (rule pool_inv_quiet) (rule submitted_quiet)
next
  case (watch sh paid dec found)
  then show ?case by (rule pool_inv_quiet) (simp add: quiet_def)
qed (auto intro: share_inv pool_inv_quiet on_coinbaser_request_quiet on_validation_quiet accept_quiet open_session_quiet leave_quiet)

lemma pool_steps_inv: "(pool_step x en)\<^sup>*\<^sup>* p p' \<Longrightarrow> pool_inv p \<Longrightarrow> pool_inv p'"
  by (induction rule: rtranclp_induct) (auto intro: pool_step_inv)


section \<open>An example\<close>

definition book_decoders :: decoders where
  "book_decoders = \<lparr>dc_unhex = demo_unhex, dc_meta = (\<lambda>_. None), dc_record = demo_dec_record, dc_carry = (\<lambda>_. None),
     dc_controls = (\<lambda>_. None), dc_rows = (\<lambda>_. None)\<rparr>"

text \<open>An empty data directory.\<close>

definition book_world :: world where
  "book_world = \<lparr>wo_key = Key_missing, wo_generated = \<lparr>ks_sign = replicate 32 1, ks_box = replicate 32 2\<rparr>, wo_writable = True,
     wo_disk = empty_disk, wo_import = None, wo_block_log = None, wo_carry = None, wo_snapshots = Map.empty,
     wo_snapshot_dir = True, wo_controls = None\<rparr>"

lemma book_opens:
  "\<exists>l d. ledger_open (\<lambda>_. None) empty_disk = Inr (l, d) \<and>
     ledger_credit l d ''bc1qtest'' 8 7 0 SOURCE_STRATUM \<noteq> None \<and> ledger_credit l d ''bc1qtest'' 8 7 0 SOURCE_DATUM \<noteq> None"
proof -
  have "case ledger_open (\<lambda>_. None) empty_disk of Inl _ \<Rightarrow> False
    | Inr (l, d) \<Rightarrow> ledger_credit l d ''bc1qtest'' 8 7 0 SOURCE_STRATUM \<noteq> None \<and> ledger_credit l d ''bc1qtest'' 8 7 0 SOURCE_DATUM \<noteq> None"
    by code_simp
  then show ?thesis by (auto split: sum.splits)
qed

lemma book_starts: "\<exists>sh. start demo_ext book_decoders book_clock demo_loaded book_world = Some (Inr (book_env, sh)) \<and> book_ready sh"
proof -
  have p: "pool_payout_script (x_bech32 demo_ext) (x_base58 demo_ext) demo_loaded = Inr (Mainnet, [0, 20] @ replicate 20 7)" by code_simp
  have "case rpc_new (cfg_rpc demo_loaded) (cfg_rpc_cookie demo_loaded) (cfg_rpc_user demo_loaded) (cfg_rpc_password demo_loaded) of
      Inr _ \<Rightarrow> True | Inl _ \<Rightarrow> False" by code_simp
  then obtain c where c: "rpc_new (cfg_rpc demo_loaded) (cfg_rpc_cookie demo_loaded) (cfg_rpc_user demo_loaded) (cfg_rpc_password demo_loaded) = Inr c"
    by (auto split: sum.splits)
  obtain l d where l: "ledger_open (\<lambda>_. None) empty_disk = Inr (l, d)" "ledger_credit l d ''bc1qtest'' 8 7 0 SOURCE_STRATUM \<noteq> None"
      "ledger_credit l d ''bc1qtest'' 8 7 0 SOURCE_DATUM \<noteq> None" using book_opens by blast
  have i: "cfg_import_ledger demo_loaded = None" by (simp add: demo_loaded_def demo_config_def)
  have "controls_load b (\<lambda>_. None) None = Inr None" for b by (simp add: controls_load_def)
  then show ?thesis
    using p c l i
    by (simp add: start_def load_or_create_key_def book_world_def book_decoders_def import_once_def controls_at_start_def book_env_def
        book_clock_def book_ready_def totals_default_def)
qed


theorem start_fit_to_serve_witness:
  "\<exists>sh. start demo_ext book_decoders book_clock demo_loaded book_world = Some (Inr (book_env, sh)) \<and> rdts_output_ok (en_pool_script book_env) \<and>
     sh_tip sh = None"
  using book_starts start_fit_to_serve by blast

end
