(* ===== verification/Issuing.thy ===== *)
theory Issuing
  imports Crediting
begin

text \<open>
  What a session answers and what becomes of a block (\<open>primed/src/session.rs\<close>): a coinbaser request
  within the rate is answered, and the list it is told to pay sums to the value; the debts of a block
  that did not pay the split; and a block the gateway can supply goes to the node.
\<close>

section \<open>Coinbasers\<close>

definition output_sats :: "coin_output list \<Rightarrow> nat" where
  "output_sats outs = (\<Sum>p\<leftarrow>outs. unat (o_sats p))"

lemma output_sats_simps [simp]:
  "output_sats [] = 0" "output_sats (p # ps) = unat (o_sats p) + output_sats ps" "output_sats (ps @ qs) = output_sats ps + output_sats qs"
  by (simp_all add: output_sats_def)

lemma output_sats_payees: "output_sats (map (\<lambda>p. \<lparr>o_sats = py_sats p, o_script = py_script p\<rparr>) ps) = sats_of ps"
  by (induction ps) (simp_all add: sats_of_def)

text \<open>The commitment carries nothing, and the pool's output what is left.\<close>

lemma coinbaser_outputs_sum:
  assumes "sats_of (s_payees sp) + unat (s_pool_sats sp) = unat v" and "v \<noteq> 0" and "output_sats commit = 0"
  shows "output_sats (coinbaser_outputs pool_script sp commit) = unat v"
proof (cases "s_pool_sats sp = 0")
  case True
  then have "s_payees sp \<noteq> []" using assms(1,2) by (auto simp: sats_of_def unat_eq_0)
  then show ?thesis using True assms(1,3) by (simp add: coinbaser_outputs_def Let_def output_sats_payees)
next
  case False
  then have "1 \<le> s_pool_sats sp" by (simp add: word_le_nat_alt unat_gt_0 Suc_le_eq)
  then have "max (s_pool_sats sp) 1 = s_pool_sats sp" by (rule max_absorb1)
  then show ?thesis using False assms by (simp add: coinbaser_outputs_def Let_def output_sats_payees word_gt_0)
qed


lemma refilled:
  assumes "se_coinbaser_tokens se \<noteq> 0 \<or> COINBASER_REFILL \<le> ck_instant ck - se_coinbaser_refill_at se"
  shows "se_coinbaser_tokens (refill_tokens ck se) \<noteq> 0"
proof (cases "COINBASER_REFILL \<le> ck_instant ck - se_coinbaser_refill_at se")
  case True
  let ?n = "of_nat (min ((ck_instant ck - se_coinbaser_refill_at se) div COINBASER_REFILL) (2 ^ 32 - 1)) :: u32"
  have "0 < (ck_instant ck - se_coinbaser_refill_at se) div COINBASER_REFILL"
    using True by (simp add: div_greater_zero_iff COINBASER_REFILL_def secs_def)
  then have "0 < unat ?n" by (subst unat_of_nat_lt) auto
  then have "0 < unat (sat_add (se_coinbaser_tokens se) ?n)" by (simp add: unat_sat_add)
  then have "sat_add (se_coinbaser_tokens se) ?n \<noteq> 0" by auto
  then show ?thesis using True by (simp add: refill_tokens_def Let_def min_def COINBASER_BURST_def)
qed (use assms in \<open>simp add: refill_tokens_def Let_def\<close>)

definition able_to_serve :: "(string \<Rightarrow> config option) \<Rightarrow> (path \<Rightarrow> bool) \<Rightarrow> string option \<Rightarrow> env \<Rightarrow> u64 \<Rightarrow> u64 \<Rightarrow> shared \<Rightarrow> bool" where
  "able_to_serve toml exists contents en v sid sh \<longleftrightarrow>
     config_load toml exists contents = Inr (en_cfg en) \<and> en_base_split en = base_split_of (en_cfg en) \<and>
     controls_ok (sh_controls sh) \<and> window_inv (l_window (sh_ledger sh)) \<and>
     unat v * (10000 * unat (w_total_work (l_window (sh_ledger sh)))) < 2 ^ 128 \<and>
     (\<forall>t. sh_tip sh = Some t \<longrightarrow> unat (tp_height t) + 1 < 2 ^ 32) \<and>
     (\<forall>c. sh_clients sh sid = Some c \<longrightarrow> unat (ci_coinbasers c) + 1 < 2 ^ 64)"

lemma commit_outputs_free:
  "commit_output x en snap r = (hex, outs, r') \<Longrightarrow> output_sats outs = 0 \<and> length outs \<le> 1 \<and> rs_session r' = rs_session r \<and>
     rs_closed r' = rs_closed r \<and> rs_sent r' = rs_sent r \<and> sh_clients (rs_shared r') = sh_clients (rs_shared r)"
  by (auto simp: commit_output_def split: option.splits if_splits)

lemma client_update_total:
  assumes "\<And>c. sh_clients sh sid = Some c \<Longrightarrow> f c \<noteq> None"
  shows "\<exists>sh'. client_update sid f sh = Some sh'"
  using assms by (cases "sh_clients sh sid") (auto simp: client_update_def)

lemma rs_closed_session: "rs_closed (with_session f r) = rs_closed r"
  by simp

lemma keep_coinbaser_last: "se_coinbasers (keep_coinbaser c se) \<noteq> [] \<and> last (se_coinbasers (keep_coinbaser c se)) = c"
  by (auto simp: keep_coinbaser_def Let_def COINBASERS_KEPT_def last_drop)

lemma issue_coinbaser_answers:
  assumes able: "able_to_serve toml exists contents en v (se_id (rs_session r)) (rs_shared r)" and "v \<noteq> 0" and "\<not> rs_closed r"
  shows "\<exists>r' c r1 r2. issue_coinbaser x en ck v prev r = Some (Inr (), r') \<and>
    se_coinbasers (rs_session r') \<noteq> [] \<and> last (se_coinbasers (rs_session r')) = c \<and>
    ic_id c = se_next_coinbaser_id (rs_session r) \<and> ic_value c = v \<and>
    output_sats (ic_outputs c) = unat v \<and> length (ic_outputs c) \<le> 513 \<and>
    send_mining x ck (coinbaser_reply v (encode_v2 (ic_id c) (ic_outputs c))) False r1 = (Inr (), r2) \<and>
    rs_sent r1 = rs_sent r \<and> rs_sent r' = rs_sent r2"
proof -
  let ?sh = "rs_shared r" and ?w = "l_window (sh_ledger (rs_shared r))"
  define carry where "carry = (if cfg_carry_forward (en_cfg en) then sh_carry ?sh else [])"
  let ?cid = "se_next_coinbaser_id (rs_session r)"
  let ?r0 = "with_session (se_next_coinbaser_id_update next_id) r"
  note a = able [unfolded able_to_serve_def]
  obtain sp where sp: "window_split_with_carry ?w v (live_split_params en ?sh) carry (script_for x en) = Some sp"
      "sats_of (s_payees sp) + unat (s_pool_sats sp) = unat v" "length (s_payees sp) \<le> 511"
    using live_split [of toml exists contents en ?sh ?w v carry "script_for x en"] a by auto
  obtain ms where ms: "miners ?w = Some ms" using miners_exact a by blast
  have "(case sh_tip ?sh of None \<Rightarrow> Some 0 | Some t \<Rightarrow> checked_add (tp_height t) 1) \<noteq> None"
    using a by (auto simp: checked_add_def split: option.split)
  then have "snapshot_of_split x en ck v prev carry ms sp ?sh \<noteq> None" by (auto simp: snapshot_of_split_def Let_def)
  then obtain snap where snap: "(if cfg_commit_snapshot (en_cfg en) then map_option Some (snapshot_of_split x en ck v prev carry ms sp ?sh)
      else Some None) = Some snap" by (cases "cfg_commit_snapshot (en_cfg en)") auto
  obtain hex commit r1 where c: "commit_output x en snap ?r0 = (hex, commit, r1)" by (metis prod_cases3)
  note free = commit_outputs_free [OF c]
  let ?outs = "coinbaser_outputs (en_pool_script en) sp commit"
  obtain r2 where r2: "send_mining x ck (coinbaser_reply v (encode_v2 ?cid ?outs)) False r1 = (Inr (), r2)"
    using sent_open(3) [of r1] free assms(3) by (metis prod.collapse run_state.select_convs(4) rs_closed_session)
  from send_mining_state [OF r2] have r2s: "rs_shared r2 = rs_shared r1" "se_id (rs_session r2) = se_id (rs_session r1)" by auto
  let ?c = "\<lparr>ic_id = ?cid, ic_value = v, ic_outputs = ?outs, ic_payees = s_payees sp, ic_unpaid = carried_unpaid sp,
      ic_carry_paid = s_carry_paid sp, ic_snapshot = hex\<rparr>"
  let ?t = "sh_totals (rs_shared r2)"
  have "\<exists>sh'. client_update (se_id (rs_session r)) count_coinbaser ((rs_shared r2)\<lparr>sh_totals := ?t\<lparr>to_coinbasers := to_coinbasers ?t + 1\<rparr>\<rparr>) = Some sh'"
    by (rule client_update_total) (use a free r2s in \<open>auto simp: count_coinbaser_def checked_add_def\<close>)
  then obtain sh' where sh': "client_update (se_id (rs_session r)) count_coinbaser
      ((rs_shared r2)\<lparr>sh_totals := ?t\<lparr>to_coinbasers := to_coinbasers ?t + 1\<rparr>\<rparr>) = Some sh'" by blast
  let ?r' = "(with_session (keep_coinbaser ?c) r2)\<lparr>rs_shared := sh'\<rparr>"
  have sid: "se_id (keep_coinbaser ?c (rs_session r2)) = se_id (rs_session r)" using free r2s by (simp add: keep_coinbaser_def Let_def)
  have carry0: "(if cfg_carry_forward (en_cfg en) then sh_carry (rs_shared ?r0) else []) = carry" by (simp add: carry_def)
  have snap0: "(if cfg_commit_snapshot (en_cfg en) then map_option Some (snapshot_of_split x en ck v prev carry ms sp (rs_shared ?r0))
      else Some None) = Some snap" using snap by (simp cong: if_cong)
  have "issue_coinbaser x en ck v prev r = Some (Inr (), ?r')"
    unfolding issue_coinbaser_def Let_def carry0 using sp(1) ms c r2 sh' sid by (simp add: snap0 and_then_def)
  moreover have "output_sats ?outs = unat v" using coinbaser_outputs_sum [OF sp(2) assms(2)] free by simp
  moreover have "length ?outs \<le> 513" using sp(3) free by (simp add: coinbaser_outputs_def Let_def)
  ultimately show ?thesis
    using keep_coinbaser_last [of ?c "rs_session r2"] r2 free
    by (intro exI [of _ ?r'] exI [of _ ?c] exI [of _ r1] exI [of _ r2]) simp
qed


lemma refill_fields: "se_id (refill_tokens ck se) = se_id se" "se_next_coinbaser_id (refill_tokens ck se) = se_next_coinbaser_id se"
  by (simp_all add: refill_tokens_def Let_def)



section \<open>The debts of a block\<close>

lemma scale_exact:
  assumes "unat issued_value \<noteq> 0" and "unat sats * unat v div unat issued_value < 2 ^ 64"
  shows "unat (scale sats v issued_value) = unat sats * unat v div unat issued_value"
proof -
  have u: "unat (ucast a :: u128) = unat a" for a :: u64
    using unat_lt [of a] by (simp add: unsigned_ucast_eq take_bit_nat_eq_self)
  have "unat sats * unat v < 2 ^ 64 * 2 ^ 64" using unat_lt [of sats] unat_lt [of v] by (intro mult_strict_mono) auto
  then have m: "unat (ucast sats * ucast v :: u128) = unat sats * unat v" by (subst unat_mult_lem [THEN iffD1]) (simp_all add: u)
  have "issued_value \<noteq> 0" using assms(1) by auto
  then have "scale sats v issued_value = ucast ((ucast sats * ucast v :: u128) div ucast issued_value)" by (simp add: scale_def)
  moreover have "unat ((ucast sats * ucast v :: u128) div ucast issued_value) = unat sats * unat v div unat issued_value"
    by (simp add: unat_div m u)
  ultimately show ?thesis using assms(2) by (simp add: unsigned_ucast_eq take_bit_nat_eq_self)
qed

lemma scaled_sum:
  assumes "I \<noteq> 0"
  shows "(\<Sum>s\<leftarrow>ss. s * v div I) \<le> sum_list ss * v div (I :: nat)"
proof (induction ss)
  case (Cons s ss)
  have "s * v div I + sum_list ss * v div I \<le> (s * v + sum_list ss * v) div I" by (simp add: div_add1_eq [of "s * v"])
  then show ?case using Cons by (simp add: distrib_right)
qed simp


lemma sum_list_unat_payees: "sum_list (map (\<lambda>p. unat (py_sats p)) ps) = sats_of ps"
  by (simp add: sats_of_def)


section \<open>A found block reaches the node\<close>

text \<open>A candidate whose block can be put together.\<close>

definition candidate_ok :: "pending_block \<Rightarrow> bool" where
  "candidate_ok p \<longleftrightarrow> p_blake2b (pb_submit p) \<noteq> None \<and>
     (\<exists>b. with_witness (v_coinbase_legacy (pb_share p)) (v_coinbase (pb_share p)) = Some b)"

lemma candidate_assembles:
  "candidate_ok p \<Longrightarrow> length txns + 1 < 2 ^ 64 \<Longrightarrow> \<exists>b. assemble_block (pb_share p) (pb_submit p) txns = Some b"
  by (auto simp: candidate_ok_def assemble_block_def checked_add_def unat_of_nat_lt)

lemma submit_all_candidates:
  assumes "length txns + 1 < 2 ^ 64"
  shows "list_all candidate_ok ps \<Longrightarrow>
    submit_all txns ps r = Some (r\<lparr>rs_submits := rs_submits r @
      map (\<lambda>p. (pb_hash_hex p, the (assemble_block (pb_share p) (pb_submit p) txns))) ps\<rparr>)"
proof (induction ps arbitrary: r)
  case (Cons p ps)
  obtain b where "assemble_block (pb_share p) (pb_submit p) txns = Some b" using candidate_assembles assms Cons.prems by auto
  then show ?case using Cons by (simp add: submit_candidate_def)
qed simp

text \<open>What the list of candidates of a job is after one more.\<close>

definition held_for :: "u8 \<Rightarrow> session \<Rightarrow> pending_block list" where
  "held_for job se = (case se_pending_blocks se job of None \<Rightarrow> [] | Some ps \<Rightarrow> ps)"

lemma on_block_candidate_holds:
  assumes "on_block_candidate x en ck s v finder r = Some (Inr (), r')"
  shows "se_pending_blocks (rs_session r') (p_job_id s) = Some (held_for (p_job_id s) (rs_session r) @
    [\<lparr>pb_share = v, pb_submit = s, pb_hash_hex = x_hex x (rev (v_hash v)), pb_at = ck_instant ck\<rparr>])"
  using assms
  by (auto simp: on_block_candidate_def Let_def and_then_def hold_candidate_def held_for_def
      split: Option.bind_splits prod.splits sum.splits option.splits dest!: send_mining_state)


text \<open>
  C8: A found block is not lost to a lost connection of the gateway's node.  Once a session has recorded a
  candidate, the reply with the transactions makes the process hand that block to its own node,
  assembled from the share, the coinbase that was verified and those transactions; the other
  candidates of the job go with it, and nothing of the job stays behind.
\<close>

theorem found_block_reaches_node:
  assumes "on_block_candidate x en ck s v finder r = Some (Inr (), r1)"
    and "parse (v_coinbase_legacy v) = Inr (v_coinbase v)" and "p_blake2b s \<noteq> None"
    and "list_all candidate_ok (held_for (p_job_id s) (rs_session r))"
    and "se_pending_blocks (rs_session r2) (p_job_id s) = se_pending_blocks (rs_session r1) (p_job_id s)"
    and "jv \<in> {FullBlock (p_job_id s) VOk txns, Transactions (p_job_id s) VOk txns}" and "length txns + 1 < 2 ^ 64"
  shows "\<exists>r3 block. on_validation x jv r2 = Some (Inr (), r3) \<and> assemble_block v s txns = Some block \<and>
    (x_hex x (rev (v_hash v)), block) \<in> set (rs_submits r3) \<and> set (rs_submits r2) \<subseteq> set (rs_submits r3) \<and>
    length (rs_submits r3) = length (rs_submits r2) + length (held_for (p_job_id s) (rs_session r)) + 1 \<and>
    se_pending_blocks (rs_session r3) (p_job_id s) = None"
proof -
  let ?p = "\<lparr>pb_share = v, pb_submit = s, pb_hash_hex = x_hex x (rev (v_hash v)), pb_at = ck_instant ck\<rparr>"
  let ?ps = "held_for (p_job_id s) (rs_session r) @ [?p]"
  have held: "se_pending_blocks (rs_session r2) (p_job_id s) = Some ?ps"
    using on_block_candidate_holds [OF assms(1)] assms(5) by simp
  have p: "candidate_ok ?p" using with_witness_total [OF assms(2)] assms(3) by (auto simp: candidate_ok_def)
  obtain block where block: "assemble_block v s txns = Some block" using candidate_assembles [OF p assms(7)] by auto
  have all: "list_all candidate_ok ?ps" using p assms(4) by simp
  let ?taken = "r2\<lparr>rs_session := (rs_session r2)\<lparr>se_pending_blocks := (se_pending_blocks (rs_session r2))(p_job_id s := None)\<rparr>\<rparr>"
  have "job_validation_job jv = p_job_id s" using assms(6) by auto
  then have "on_validation x jv r2 = map_option (\<lambda>r. (Inr (), r)) (submit_all txns ?ps ?taken)"
    using assms(6) held by (auto simp: on_validation_def Let_def)
  then show ?thesis using submit_all_candidates [OF assms(7) all, of ?taken] block by auto
qed


definition book_found :: "coinbase \<Rightarrow> verified_share" where
  "book_found cb = \<lparr>v_hash = replicate 32 0, v_work = 8, v_target_pot = 3, v_height = 7, v_ntime = 0, v_is_block_candidate = True,
     v_coinbase_kind = coinbase_kind.Split, v_coinbase_value = 5, v_paid_to_pool = 5,
     v_commitment = fresh_commitment 0 demo_job 0 0 (replicate 32 0) 1, v_coinbase_legacy = demo_coinbase, v_coinbase = cb\<rparr>"

lemma book_found_recorded:
  "\<exists>r1. on_block_candidate demo_ext book_env book_clock book_share (book_found cb) ''m'' (book_run demo_shared) = Some (Inr (), r1) \<and>
     held_for (p_job_id book_share) (rs_session (book_run demo_shared)) = []"
proof -
  let ?r = "book_run demo_shared"
  have f: "se_pending_blocks (rs_session ?r) = Map.empty" "sh_clients (rs_shared ?r) = Map.empty" "\<not> rs_closed ?r"
      "js_job (se_slots (rs_session ?r) ! unat (p_job_id book_share)) = None"
    by (simp_all add: book_run_def new_session_def demo_shared_def MAX_JOB_SLOTS_def slot_default_def book_share_def demo_share_def
        split: prod.split)
  have send: "and_then (send_mining demo_ext book_clock b False r) (\<lambda>r. Some (Inr (), g r)) =
      Some (Inr (), g (snd (send_mining demo_ext book_clock b False r)))" if "\<not> rs_closed r" for b r g
    using sent_open(3) [OF that, of demo_ext book_clock b False] by (cases "send_mining demo_ext book_clock b False r") (simp add: and_then_def)
  have "block_amounts demo_ext book_env sh (book_found cb) None = Some (''split'', 0, [], [])" for sh
    by (simp add: block_amounts_def book_found_def)
  then show ?thesis
    using f by (simp add: on_block_candidate_def Let_def client_update_def send held_for_def)
qed

theorem found_block_reaches_node_witness:
  "\<exists>r1 r3 cb. on_block_candidate demo_ext book_env book_clock book_share (book_found cb) ''m'' (book_run demo_shared) = Some (Inr (), r1) \<and>
     on_validation demo_ext (FullBlock (p_job_id book_share) VOk [[1], [2]]) r1 = Some (Inr (), r3) \<and>
     length (rs_submits r3) = length (rs_submits r1) + 1"
proof -
  obtain cb where cb: "parse demo_coinbase = Inr cb" using demo_coinbase_parse by blast
  obtain r1 where r1: "on_block_candidate demo_ext book_env book_clock book_share (book_found cb) ''m'' (book_run demo_shared) = Some (Inr (), r1)"
      "held_for (p_job_id book_share) (rs_session (book_run demo_shared)) = []" using book_found_recorded by blast
  have "parse (v_coinbase_legacy (book_found cb)) = Inr (v_coinbase (book_found cb))" "p_blake2b book_share \<noteq> None"
    using cb by (simp_all add: book_found_def book_share_def demo_share_def)
  from found_block_reaches_node [OF r1(1) this, of r1 "FullBlock (p_job_id book_share) VOk [[1], [2]]" "[[1], [2]]"] r1
  show ?thesis by auto
qed

definition book_issued :: issued_coinbaser where
  "book_issued = \<lparr>ic_id = 1, ic_value = 100, ic_outputs = [], ic_payees = [
     \<lparr>py_identity = ''ann'', py_work = 2, py_sats = 60, py_script = [1]\<rparr>, \<lparr>py_identity = ''bob'', py_work = 1, py_sats = 33, py_script = [2]\<rparr>],
     ic_unpaid = [], ic_carry_paid = [], ic_snapshot = ''''\<rparr>"


end
