(* ===== verification/Sizing.thy ===== *)
theory Sizing
  imports Daemon
begin

text \<open>
  How the node's answer sizes the window.  The difficulty the poller computes from the compact target is
  the exact ratio to the target of difficulty one, up to one rounding (\<open>node_difficulty\<close> against
  \<open>nbits_to_target_le\<close>, which the share verifier uses), and after a turn of the poller the target work of
  the window is that ratio times the configured multiple, up to rounding.
\<close>

section \<open>The difficulty of a compact target\<close>

text \<open>A distance as two bounds.\<close>

lemma near_iff: "\<bar>a - b\<bar> \<le> c \<longleftrightarrow> b - c \<le> a \<and> a \<le> b + c" for a b c :: rat
  by (auto simp: abs_le_iff)

lemma near_pos: "\<bar>d - D\<bar> \<le> D / 2 ^ 53 \<Longrightarrow> 0 < D \<Longrightarrow> 0 < (d::rat)"
  by (cases "d \<le> 0") (simp_all add: abs_if split: if_splits)

lemma powi_256: "(256::rat) powi k = of_int 1 * 2 powi (8 * k)"
  using power_int_mult [of "2::rat" 8 k] by simp

lemma fpowi_256: "- 9 \<le> k \<Longrightarrow> k \<le> 29 \<Longrightarrow> fpowi 256 k = Fin (256 powi k)"
  unfolding fpowi_def powi_256
  by (rule rnd_exact) (use powi_mono [of "8 * k" 1000] in \<open>simp_all add: power_int_def\<close>)

lemma diff1_exact: "diff1_target = Fin (65535 * 2 ^ 208)"
proof -
  have "fpowi 2 208 = Fin (2 ^ 208)"
    using rnd_exact [of 1 208] by (simp add: fpowi_def)
  then show ?thesis using rnd_exact [of 65535 208] by (simp add: diff1_target_def)
qed

lemma compact_mantissa:
  assumes "(bits :: u32) AND 0x00800000 = 0"
  shows "unat (bits AND 0x00FFFFFF) = compact_mant bits"
proof -
  have b: "\<not> bit bits 23" using assms and_exp_eq_0_iff_not_bit [of bits 23] by simp
  have m: "bits AND 0x00FFFFFF = take_bit 24 bits" "bits AND 0x007FFFFF = take_bit 23 bits"
    by (simp_all add: take_bit_eq_mask mask_eq_exp_minus_1)
  have "take_bit 24 bits = take_bit 23 bits"
  proof (rule bit_eqI)
    show "bit (take_bit 24 bits) n \<longleftrightarrow> bit (take_bit 23 bits) n" for n
      using b by (cases "n = 23") (auto simp: bit_take_bit_iff)
  qed
  then show ?thesis by (simp add: compact_mant_def m)
qed

lemma compact_mant_less: "compact_mant bits < 2 ^ 23"
proof -
  have "bits AND 0x007FFFFF = take_bit 23 bits" by (simp add: take_bit_eq_mask mask_eq_exp_minus_1)
  then show ?thesis
    using take_bit_nat_less_exp [of 23 "unat bits"] by (simp add: compact_mant_def unsigned_take_bit_eq)
qed

lemma difficulty_of_compact:
  assumes "parse_hex (2 ^ 32) hex = Some n" and "compact_mant (of_nat n) \<noteq> 0" and "\<not> bit (of_nat n :: u32) 23"
    and "3 \<le> compact_exp (of_nat n)" and "compact_exp (of_nat n) \<le> 32"
  defines "D \<equiv> 65535 * 2 ^ 208 / (of_nat (compact_mant (of_nat n) * 256 ^ (compact_exp (of_nat n) - 3)) :: rat)"
  shows "\<exists>d. difficulty_from_bits hex = Some (Fin d) \<and> \<bar>d - D\<bar> \<le> D / 2 ^ 53 \<and> 0 < D"
proof -
  let ?bits = "of_nat n :: u32" let ?m = "compact_mant ?bits" let ?e = "compact_exp ?bits"
  have z: "?bits AND 0x00800000 = 0" using assms(3) and_exp_eq_0_iff_not_bit [of ?bits 23] by simp
  have m: "unat (?bits AND 0x00FFFFFF) = ?m" using compact_mantissa [OF z] .
  then have m0: "?bits AND 0x00FFFFFF \<noteq> 0" using assms(2) by auto
  have e: "unat (drop_bit 24 ?bits) = ?e" by (simp add: unat_drop_bit compact_exp_def)
  obtain k where k: "?e = 3 + k" "k \<le> 29" using assms(5) le_Suc_ex [OF assms(4)] by auto
  let ?T = "of_nat (?m * 256 ^ k) :: rat"
  have pw: "(256::nat) ^ k \<le> 256 ^ 29" by (rule power_increasing [OF k(2)]) simp
  have p: "(256::rat) powi (int ?e - 3) = 256 ^ k" by (simp add: k)
  have T: "fmul (Fin (of_nat ?m)) (fpowi 256 (int ?e - 3)) = Fin ?T"
  proof -
    have s: "?T = of_int (int ?m) * 2 powi (8 * int k)" by (simp add: powi_256 [of "int k", simplified] power_mult)
    have b: "(?m :: nat) < 2 ^ 53" using compact_mant_less [of ?bits] by simp
    have "?m * 256 ^ k < 2 ^ 23 * 256 ^ 29"
      using compact_mant_less [of ?bits] pw by (rule mult_less_le_imp_less) simp_all
    then have "?T < of_nat (2 ^ 23 * 256 ^ 29)" by (simp only: of_nat_less_iff)
    then have "\<bar>?T\<bar> < 2 ^ 1024" by simp
    then have "rnd ?T = Fin ?T" using rnd_exact [of "int ?m" "8 * int k"] b unfolding s by simp
    then show ?thesis using fpowi_256 [of "int ?e - 3"] k(2) by (simp add: k p)
  qed
  have m1: "1 \<le> ?m * 256 ^ k" "?m * 256 ^ k \<le> 2 ^ 23 * 256 ^ 29"
    using assms(2) mult_mono [OF less_imp_le [OF compact_mant_less [of ?bits]] pw] by (simp_all add: Suc_le_eq)
  have T1: "(1::rat) \<le> ?T" "?T \<le> 2 ^ 255" using m1 of_nat_mono [OF m1(1), where 'a = rat] of_nat_mono [OF m1(2), where 'a = rat] by simp_all
  have D: "D = 65535 * 2 ^ 208 / ?T" by (simp add: D_def k)
  have pos: "0 < D" using T1 by (simp add: D)
  have lo: "2 powi (- 1022) \<le> \<bar>D\<bar>"
  proof -
    have "65535 * 2 ^ 208 / 2 ^ 255 \<le> D" unfolding D using T1 by (intro divide_left_mono) simp_all
    moreover have "(2::rat) powi (- 1022) \<le> 65535 * 2 ^ 208 / 2 ^ 255"
      using powi_mono [of "- 1022" "- 47"] power_int_minus [of "2::rat" 47] by simp
    ultimately show ?thesis using pos by linarith
  qed
  have hi: "\<bar>D\<bar> \<le> 2 ^ 1023"
  proof -
    have "D \<le> 65535 * 2 ^ 208 / 1" unfolding D using T1 by (intro divide_left_mono) simp_all
    then show ?thesis using pos by simp
  qed
  obtain d where d: "rnd D = Fin d" "\<bar>d - D\<bar> \<le> D / 2 ^ 53" using rnd_relative [OF lo hi] pos by auto
  have "0 < d" using near_pos [OF d(2) pos] .
  moreover have "fdiv diff1_target (Fin ?T) = Fin d" using T1 d(1) assms(2) by (simp add: diff1_exact D)
  ultimately have "difficulty_from_bits hex = Some (Fin d)"
    using assms(4,5) T unfolding difficulty_from_bits_def assms(1) option.map bind.bind_lunit Let_def e m
    by (simp add: m0 z ffinite_def)
  then show ?thesis using d pos by blast
qed

section \<open>The target of the window\<close>

lemma unat_f64_to_u64:
  assumes "0 < n" and "n < 2 ^ 64"
  shows "unat (f64_to_u64 (Fin (of_int n))) = nat n"
proof -
  have "(of_int n :: rat) < of_int (2 ^ 64)" using assms(2) by (simp only: of_int_less_iff)
  then have "f64_to_u64 (Fin (of_int n)) = of_int n" using assms(1) by (simp add: f64_to_u64_def)
  then have "f64_to_u64 (Fin (of_int n)) = of_nat (nat n)" using assms(1) by simp
  moreover have "nat n < 2 ^ 64" using assms by (simp add: nat_less_iff)
  ultimately show ?thesis by (simp add: unat_of_nat)
qed

text \<open>A number of at least one, rounded to a count.\<close>

lemma rounded_count:
  assumes "1 / 2 \<le> p" and "p < 2 ^ 63"
  shows "\<bar>of_nat (unat (f64_to_u64 (fmax (fround (Fin p)) (Fin 1)))) - p\<bar> \<le> 1 / 2"
proof -
  let ?n = "\<lfloor>p + 1 / 2\<rfloor>"
  have n: "of_int ?n \<le> p + 1 / 2" "p + 1 / 2 < of_int ?n + 1" using floor_correct [of "p + 1 / 2"] by simp_all
  have pos: "1 \<le> ?n" using assms(1) by (simp add: le_floor_iff)
  have "of_int ?n < (of_int (2 ^ 64) :: rat)" using n(1) assms(2) by simp
  then have lt: "?n < 2 ^ 64" by (simp only: of_int_less_iff)
  have "fmax (fround (Fin p)) (Fin 1) = Fin (of_int ?n)"
    using assms(1) pos by (auto simp: fround_def fmax_def)
  then have "unat (f64_to_u64 (fmax (fround (Fin p)) (Fin 1))) = nat ?n" using unat_f64_to_u64 pos lt by simp
  then have "of_nat (unat (f64_to_u64 (fmax (fround (Fin p)) (Fin 1)))) = (of_int ?n :: rat)" using pos by simp
  then show ?thesis unfolding near_iff using n by linarith
qed

lemma near_near:
  assumes "\<bar>p - v\<bar> \<le> \<bar>v\<bar> / 2 ^ 53" and "\<bar>v - W\<bar> \<le> W / 2 ^ 53" and "0 < (W::rat)"
  shows "\<bar>p - W\<bar> \<le> W / 2 ^ 51"
proof -
  have "\<bar>v\<bar> \<le> 2 * W" using assms(2,3) by (simp add: abs_if split: if_splits)
  then have "\<bar>p - v\<bar> \<le> 2 * W / 2 ^ 53" using assms(1) by simp
  then show ?thesis using abs_triangle_ineq [of "p - v" "v - W"] assms(2,3) by simp
qed

lemma window_target_near:
  assumes "\<bar>d - D\<bar> \<le> D / 2 ^ 53" and "1 \<le> W" and "W \<le> 2 ^ 62" and "W = of_nat (unat (cfg_window cfg)) * D"
  shows "\<exists>r. window_target cfg (Fin d) = max r (cfg_window_min_work cfg) \<and> \<bar>of_nat (unat r) - W\<bar> \<le> W / 2 ^ 51 + 1 / 2"
proof -
  let ?w = "of_nat (unat (cfg_window cfg)) :: rat"
  have "\<bar>?w * d - W\<bar> = ?w * \<bar>d - D\<bar>"
    unfolding assms(4) right_diff_distrib [symmetric] abs_mult abs_of_nonneg [OF of_nat_0_le_iff] by (rule refl)
  also have "\<dots> \<le> ?w * (D / 2 ^ 53)" by (rule mult_left_mono [OF assms(1) of_nat_0_le_iff])
  finally have a: "\<bar>?w * d - W\<bar> \<le> W / 2 ^ 53" by (simp add: assms(4))
  have v: "1 / 2 \<le> v \<and> v \<le> 2 ^ 63" if "\<bar>v - W\<bar> \<le> W / 2 ^ 51" for v :: rat
    using that assms(2,3) by (simp add: abs_if split: if_splits)
  have "W / 2 ^ 53 \<le> W / 2 ^ 51" using assms(2) by simp
  then have r: "1 / 2 \<le> ?w * d" "?w * d \<le> 2 ^ 63" using v [OF order_trans [OF a]] by simp_all
  have "2 powi (- 1022) \<le> \<bar>?w * d\<bar>"
    using r(1) powi_mono [of "- 1022" "- 1"] power_int_minus [of "2::rat" 1] by simp
  moreover have "\<bar>?w * d\<bar> \<le> 2 ^ 1023" using r by simp
  ultimately obtain p where p: "rnd (?w * d) = Fin p" "\<bar>p - ?w * d\<bar> \<le> \<bar>?w * d\<bar> / 2 ^ 53" using rnd_relative by blast
  have near: "\<bar>p - W\<bar> \<le> W / 2 ^ 51"
    using near_near [OF p(2) a] assms(2) by simp
  have b: "1 / 2 \<le> p" "p < 2 ^ 63" using near assms(2,3) by (simp_all add: abs_if split: if_splits)
  let ?t = "f64_to_u64 (fmax (fround (fmul (Fin d) (Fin ?w))) (Fin 1))"
  have "\<bar>of_nat (unat ?t) - p\<bar> \<le> 1 / 2" using rounded_count [OF b] p(1) by (simp add: mult.commute)
  then have "\<bar>of_nat (unat ?t) - W\<bar> \<le> W / 2 ^ 51 + 1 / 2"
    using near abs_triangle_ineq [of "of_nat (unat ?t) - p" "p - W"] by simp
  then show ?thesis by (auto simp: window_target_def intro!: exI [of _ ?t])
qed

section \<open>A turn of the poller\<close>

lemma trim_target: "w_target_work (Window.trim w) = w_target_work w"
proof (induction w rule: Window.trim.induct)
  case (1 w)
  then show ?case by (subst Window.trim.simps) (auto simp: Let_def split: list.split option.split)
qed

lemma persist_window_window: "persist_window enc l d = Some (l', d') \<Longrightarrow> l_window l' = l_window l"
  by (auto simp: persist_window_def ledger_sync_def ledger_flush_def compact_if_grown_def ledger_compact_def Let_def
      split: if_splits Option.bind_splits)

lemma retarget_target:
  assumes "retarget x en d sh = Some sh'" and "fless (Fin 0) d"
  shows "w_target_work (l_window (sh_ledger sh')) = window_target (en_cfg en) d"
  using assms
  by (auto simp: retarget_def Let_def ledger_set_target_def set_target_def trim_target dest!: persist_window_window split: if_splits)

lemma poll_step_target:
  assumes "poll_step x en ck (Inr info) node (po, sh) = Some (told, po', sh')" and "fless (Fin 0) (node_difficulty info)"
  shows "w_target_work (l_window (sh_ledger sh')) = window_target (en_cfg en) (node_difficulty info)"
  using assms
  by (auto simp: poll_step_def Let_def dest!: retarget_target confirm_blocks_only [THEN blocks_onlyD] split: prod.splits if_splits Option.bind_splits)

text \<open>
  The configuration does not check the poll interval, and TOML has an infinity: \<open>poll = inf\<close> loads, and
  \<open>Duration::from_secs_f64\<close> then panics in the task of the poller.
\<close>

lemma infinite_poll_panics:
  "poll_period (cfg\<lparr>cfg_poll := 0x7FF0000000000000\<rparr>) = None"
proof -
  have "f64_of_bits 0x7FF0000000000000 = Inf False" by code_simp
  moreover have "fmax (Inf False) d = Inf False" for d by (cases d) (auto simp: fmax_def)
  ultimately show ?thesis by (simp add: poll_period_def duration_of_def)
qed

text \<open>
  C21: The window is as large as the network's target demands.  After a turn of the poller on a tip the node
  describes by its compact target alone: with \<open>T\<close> the target as the share verifier reads it, the work
  the window aims at is the configured multiple of \<open>0xffff * 2^208 / T\<close>, to one part in \<open>2^51\<close> and half a unit
  of work, or the configured least work, whichever is more.
\<close>

theorem window_sized_by_target:
  assumes "poll_step x en ck (Inr info) node (po, sh) = Some (told, po', sh')"
    and "field ''difficulty'' info = None" and "field ''bits'' info = Some (VString hex)"
    and "parse_hex (2 ^ 32) hex = Some n" and "nbits_to_target_le (of_nat n) = Some target" and "3 \<le> compact_exp (of_nat n)"
    and "W = of_nat (unat (cfg_window (en_cfg en))) * (65535 * 2 ^ 208 / of_nat (le_nat target))" and "1 \<le> W" and "W \<le> (2::rat) ^ 62"
  shows "\<exists>r. w_target_work (l_window (sh_ledger sh')) = max r (cfg_window_min_work (en_cfg en)) \<and> \<bar>of_nat (unat r) - W\<bar> \<le> W / 2 ^ 51 + 1 / 2"
proof -
  have c: "le_nat target = compact_mant (of_nat n) * 256 ^ compact_exp (of_nat n) div 256 ^ 3"
    "\<not> bit (of_nat n :: u32) 23" "compact_mant (of_nat n) \<noteq> 0" "compact_exp (of_nat n) \<le> 32"
    using nbits_target_meaning [of "of_nat n"] assms(5) by simp_all
  have "(256::nat) ^ compact_exp (of_nat n) = 256 ^ (compact_exp (of_nat n) - 3) * 256 ^ 3"
    using assms(6) by (subst power_add [symmetric]) simp
  then have T: "le_nat target = compact_mant (of_nat n) * 256 ^ (compact_exp (of_nat n) - 3)" using c(1) by simp
  obtain d where d: "difficulty_from_bits hex = Some (Fin d)"
      "\<bar>d - 65535 * 2 ^ 208 / of_nat (le_nat target)\<bar> \<le> 65535 * 2 ^ 208 / of_nat (le_nat target) / 2 ^ 53"
      "0 < (65535 * 2 ^ 208 / of_nat (le_nat target) :: rat)"
    using difficulty_of_compact [OF assms(4) c(3,2) assms(6) c(4)] unfolding T by blast
  have nd: "node_difficulty info = Fin d" using d(1) assms(2,3) by (simp add: node_difficulty_def)
  have "fless (Fin 0) (node_difficulty info)" using near_pos [OF d(2,3)] by (simp add: nd)
  from poll_step_target [OF assms(1) this] show ?thesis
    using window_target_near [OF d(2) assms(8,9,7)] by (simp add: nd)
qed

lemma persist_window_total:
  "length (w_credits (l_window l)) < 2 ^ 63 \<Longrightarrow> \<exists>l' d'. persist_window enc l d = Some (l', d')"
  by (simp add: persist_window_def ledger_sync_def ledger_flush_def compact_if_grown_def checked_add_def unat_of_nat ledger_compact_def Let_def
      split: Option.bind_split prod.split)

text \<open>A tip at difficulty one, which the node describes by its compact target.\<close>

definition demo_tip :: jvalue where
  "demo_tip = VObject [(''blocks'', VInt 7), (''bestblockhash'', VString ''00''), (''bits'', VString ''1d00ffff'')]"

definition poll_clock :: clock where
  "poll_clock = \<lparr>ck_now = 1000, ck_instant = secs 5\<rparr>"

lemma demo_bits: "parse_hex (2 ^ 32) ''1d00ffff'' = Some 0x1d00ffff"
  by code_simp

lemma demo_target: "\<exists>t. nbits_to_target_le 0x1d00ffff = Some t \<and> le_nat t = 65535 * 2 ^ 208"
proof -
  have "map_option le_nat (nbits_to_target_le 0x1d00ffff) = Some (65535 * 2 ^ 208)" by code_simp
  then show ?thesis by auto
qed

lemma demo_poll:
  "\<exists>told po' sh'. poll_step demo_ext demo_env poll_clock (Inr demo_tip) (\<lambda>_. Inl Rpc_timeout) (\<lparr>po_warned = True, po_confirm_at = secs 100\<rparr>, demo_shared) =
     Some (told, po', sh')"
proof -
  obtain told sh1 where t: "see_tip poll_clock 7 ''00'' (node_difficulty demo_tip) demo_shared = (told, sh1)" by fastforce
  then have l: "sh_ledger sh1 = sh_ledger demo_shared" by (auto simp: see_tip_def split: if_splits)
  have "length (w_credits (l_window (ledger_set_target (sh_ledger demo_shared) t))) < 2 ^ 63" for t
    using set_target_spec [OF demo_window_inv(1), of t] trimmed_suffix [of t "w_credits demo_window"]
    by (auto simp: ledger_set_target_def demo_shared_def demo_window_def)
  then have "\<exists>sh2. retarget demo_ext demo_env (node_difficulty demo_tip) sh1 = Some sh2"
    using persist_window_total by (fastforce simp: retarget_def Let_def l)
  then show ?thesis using t by (auto simp: poll_step_def demo_tip_def poll_clock_def secs_def Let_def)
qed

theorem window_sized_by_target_witness:
  "\<exists>told po' sh'. poll_step demo_ext demo_env poll_clock (Inr demo_tip) (\<lambda>_. Inl Rpc_timeout) (\<lparr>po_warned = True, po_confirm_at = secs 100\<rparr>, demo_shared) =
     Some (told, po', sh') \<and> w_target_work (l_window (sh_ledger sh')) = 8"
proof -
  obtain told po' sh' where s: "poll_step demo_ext demo_env poll_clock (Inr demo_tip) (\<lambda>_. Inl Rpc_timeout)
      (\<lparr>po_warned = True, po_confirm_at = secs 100\<rparr>, demo_shared) = Some (told, po', sh')" using demo_poll by blast
  obtain t where t: "nbits_to_target_le 0x1d00ffff = Some t" "le_nat t = 65535 * 2 ^ 208" using demo_target by blast
  have c: "cfg_window (en_cfg demo_env) = 8" "cfg_window_min_work (en_cfg demo_env) = 0"
    by (simp_all add: demo_env_def demo_loaded_def demo_config_def)
  obtain r where r: "w_target_work (l_window (sh_ledger sh')) = max r 0" "\<bar>of_nat (unat r) - (8::rat)\<bar> \<le> 8 / 2 ^ 51 + 1 / 2"
    using window_sized_by_target [OF s, where n = "0x1d00ffff" and target = t and hex = "''1d00ffff''" and W = 8] t c
    by (auto simp: demo_tip_def demo_bits [simplified] compact_exp_def)
  have "of_nat 7 < (of_nat (unat r) :: rat)" "of_nat (unat r) < (of_nat 9 :: rat)" using r(2) by (simp_all add: abs_if split: if_splits)
  then have "7 < unat r" "unat r < 9" unfolding of_nat_less_iff by simp_all
  then have "unat r = 8" by simp
  then have "unat r = unat (8 :: u64)" by simp
  then have "r = 8" by (simp only: word_unat_eq_iff)
  then show ?thesis using s r(1) by auto
qed

end
