(* ===== verification/Stats.thy ===== *)
theory Stats
  imports Daemon "HOL-Library.Product_Lexorder"
begin

text \<open>
  The statistics (\<open>primed/src/stats.rs\<close>): the document of \<open>stats.json\<close>, the export of the last hour, the
  answers of the HTTP server, and the check of a reloaded window against the last document
  (\<open>warn_if_window_cliff\<close> in \<open>main.rs\<close>).  A JSON document is a value; its text is left to the JSON library,
  which is an argument.  A hash table is walked in an order that is an argument as well.  \<open>None\<close> is a
  panic of checked arithmetic.
\<close>

section \<open>JSON values\<close>

definition jnum :: "'a::len word \<Rightarrow> jvalue" where
  "jnum n = VInt (uint n)"

definition jsize :: "nat \<Rightarrow> jvalue" where
  "jsize n = VInt (int n)"

text \<open>A float that is not finite is null.\<close>

definition jfloat :: "f64 \<Rightarrow> jvalue" where
  "jfloat d = (if ffinite d then VReal d else VNull)"

definition jopt :: "('a \<Rightarrow> jvalue) \<Rightarrow> 'a option \<Rightarrow> jvalue" where
  "jopt f v = (case v of None \<Rightarrow> VNull | Some x \<Rightarrow> f x)"

definition jpairs :: "(string \<times> u64) list \<Rightarrow> jvalue" where
  "jpairs ps = VArray (map (\<lambda>(s, n). VArray [VString s, jnum n]) ps)"

text \<open>The derived serializations of a block and of a client.\<close>

definition block_value :: "block_record \<Rightarrow> jvalue" where
  "block_value r = VObject
     [(''ts'', jnum (br_ts r)), (''height'', jnum (br_height r)), (''hash'', VString (br_hash r)),
      (''finder'', jopt VString (br_finder r)), (''coinbase_value'', jnum (br_coinbase_value r)), (''kind'', VString (br_kind r)),
      (''owed_sats'', jnum (br_owed_sats r)), (''split'', jpairs (br_split r)), (''pool_sats'', jnum (br_pool_sats r)),
      (''settled'', VBool (br_settled r)), (''submit'', VString (br_submit r)), (''gateway'', VString (br_gateway r)),
      (''unpaid'', jpairs (br_unpaid r)), (''carry_paid'', jpairs (br_carry_paid r)), (''snapshot'', VString (br_snapshot r)),
      (''carried'', VBool (br_carried r))]"

definition client_fields :: "client_info \<Rightarrow> (string \<times> jvalue) list" where
  "client_fields c =
     [(''id'', jnum (ci_id c)), (''remote'', VString (ci_remote c)), (''user_agent'', VString (ci_user_agent c)),
      (''generation'', VString (ci_generation c)), (''gateway'', VString (ci_gateway c)), (''fee_path'', VString (ci_fee_path c)),
      (''connected_ts'', jnum (ci_connected_ts c)), (''identity'', VString (ci_identity c)), (''accepted'', jnum (ci_accepted c)),
      (''rejected'', jnum (ci_rejected c)), (''work'', jnum (ci_work c)), (''last_share_ts'', jnum (ci_last_share_ts c)),
      (''coinbasers'', jnum (ci_coinbasers c)), (''block_candidates'', jnum (ci_block_candidates c)),
      (''last_reject'', jopt VString (ci_last_reject c)), (''cb_split'', jnum (ci_cb_split c)), (''cb_partial'', jnum (ci_cb_partial c)),
      (''cb_pool_only'', jnum (ci_cb_pool_only c)), (''cb_foreign'', jnum (ci_cb_foreign c))]"

section \<open>Recent work\<close>

definition HASHES_PER_WORK :: f64 where "HASHES_PER_WORK = Fin 4294967296"
definition HASHRATE_WINDOW_S :: u64 where "HASHRATE_WINDOW_S = 600"
definition LEDGER_EXPORT_S :: u64 where "LEDGER_EXPORT_S = 3600"

record recent =
  rc_of :: "u32 \<rightharpoonup> u64 \<times> u32"
  rc_total :: u64
  rc_oldest :: u32

text \<open>The rows of the window, newest first, down to the cutoff.\<close>

fun recent_rows :: "u32 \<Rightarrow> credit list \<Rightarrow> recent \<Rightarrow> recent option" where
  "recent_rows cutoff [] rc = Some rc"
| "recent_rows cutoff (c # cs) rc =
     (if cr_ts c \<le> cutoff then Some rc
      else do {
        let (wk, last_ts) = (case rc_of rc (cr_ident c) of None \<Rightarrow> (0, 0) | Some e \<Rightarrow> e);
        wk \<leftarrow> checked_add wk (cr_work c);
        total \<leftarrow> checked_add (rc_total rc) (cr_work c);
        recent_rows cutoff cs
          \<lparr>rc_of = (rc_of rc)(cr_ident c \<mapsto> (wk, max last_ts (cr_ts c))), rc_total = total, rc_oldest = min (rc_oldest rc) (cr_ts c)\<rparr>
      })"

definition clamp :: "u64 \<Rightarrow> u64 \<Rightarrow> u64 \<Rightarrow> u64" where
  "clamp lo hi n = (if n < lo then lo else if hi < n then hi else n)"

text \<open>Billions of hashes a second.\<close>

definition hashrate_ghs :: "u64 \<Rightarrow> u64 \<Rightarrow> f64" where
  "hashrate_ghs period work =
     fdiv (fdiv (fmul (f64_of_nat (unat work)) HASHES_PER_WORK) (f64_of_nat (unat period))) (Fin (10 ^ 9))"

definition percent :: "u64 \<Rightarrow> u64 \<Rightarrow> f64" where
  "percent part whole =
     (if whole > 0 then fdiv (fmul (Fin 100) (f64_of_nat (unat part))) (f64_of_nat (unat whole)) else Fin 0)"

section \<open>The miners\<close>

definition SAMPLE_VALUE :: u64 where "SAMPLE_VALUE = 312500000"

definition reason_text :: "unpaid_reason \<Rightarrow> string" where
  "reason_text r =
     (case r of NoScript \<Rightarrow> ''NoScript'' | BelowMinimum \<Rightarrow> ''BelowMinimum'' | OverBudget \<Rightarrow> ''OverBudget'' | BelowCut \<Rightarrow> ''BelowCut'')"

text \<open>A table filled in order: a later entry replaces an earlier one.\<close>

definition sats_table :: "split \<Rightarrow> string \<Rightarrow> u64" where
  "sats_table sp i = (case map_of (rev (map (\<lambda>p. (py_identity p, py_sats p)) (s_payees sp))) i of None \<Rightarrow> 0 | Some n \<Rightarrow> n)"

definition reason_table :: "split \<Rightarrow> string \<Rightarrow> string" where
  "reason_table sp i =
     (case map_of (rev (map (\<lambda>(i, _, r). (i, reason_text r)) (s_unpaid sp))) i of None \<Rightarrow> '''' | Some s \<Rightarrow> s)"

definition rule_params :: "split_params \<Rightarrow> split_params" where
  "rule_params p = p\<lparr>sp_max_payees := 100000\<rparr>"

definition miner_value ::
    "ext \<Rightarrow> env \<Rightarrow> u64 \<Rightarrow> split_params \<Rightarrow> split \<Rightarrow> split \<Rightarrow> recent \<Rightarrow> u64 \<Rightarrow> window \<Rightarrow> miner_stat \<Rightarrow> jvalue option" where
  "miner_value x en ts p sp rule rc period w m =
     (let i = m_identity m;
          (rw, last_ts) = (case Option.bind (index_of w i) (rc_of rc) of None \<Rightarrow> (0, m_last_ts m) | Some e \<Rightarrow> e) in do {
        twice \<leftarrow> checked_mul (m_stratum_work m) 2;
        Some (VObject
          [(''identity'', VString i), (''work'', jnum (m_work m)), (''stratum_work'', jnum (m_stratum_work m)),
           (''fee_path'', VString (if twice > m_work m then ''stratum'' else ''datum'')), (''credits'', jnum (m_credits m)),
           (''share_percent'', jfloat (percent (m_work m) (w_total_work w))),
           (''payout_sats'', jnum (sats_table sp i)), (''unpaid_reason'', VString (reason_table sp i)),
           (''rule_sats'', jnum (sats_table rule i)), (''payable'', VBool (script_for x en i \<noteq> None)),
           (''fee_bps'', jnum (snd (bps_for p i))), (''stratum_fee_bps'', jnum (fst (bps_for p i))),
           (''hashrate_ghs'', jfloat (hashrate_ghs period rw)),
           (''last_share_s'', jnum (sat_sub ts (ucast (max last_ts (m_last_ts m)))))])
      })"

section \<open>Clients and workers\<close>

definition client_value :: "u64 \<Rightarrow> client_info \<Rightarrow> jvalue" where
  "client_value ts c = VObject (client_fields c @
     [(''connected_s'', jnum (sat_sub ts (ci_connected_ts c))),
      (''last_share_s'', jnum (if ci_last_share_ts c > 0 then sat_sub ts (ci_last_share_ts c) else 0))])"

definition client_values :: "u64 \<Rightarrow> client_info list \<Rightarrow> jvalue list" where
  "client_values ts cs = map (client_value ts) (sort_key ci_id cs)"

definition coinbase_kinds :: "client_info list \<Rightarrow> jvalue option" where
  "coinbase_kinds cs = do {
     sp \<leftarrow> checked_sum 0 (map ci_cb_split cs);
     pa \<leftarrow> checked_sum 0 (map ci_cb_partial cs);
     po \<leftarrow> checked_sum 0 (map ci_cb_pool_only cs);
     fo \<leftarrow> checked_sum 0 (map ci_cb_foreign cs);
     Some (VObject [(''split'', jnum sp), (''partial'', jnum pa), (''pool_only'', jnum po), (''foreign'', jnum fo)])
   }"

definition worker_value :: "u64 \<Rightarrow> (string \<times> string) \<times> worker_stat \<Rightarrow> jvalue option" where
  "worker_value ts = (\<lambda>((identity, worker), e). do {
     recent_work \<leftarrow> checked_sum 0 (map snd (ws_recent e));
     let oldest = (case ws_recent e of [] \<Rightarrow> ts | (t, _) # _ \<Rightarrow> t);
     let period = clamp 30 WORKER_RATE_S (sat_sub ts oldest);
     Some (VObject
       [(''identity'', VString identity), (''worker'', VString worker), (''gateway'', VString (ws_gateway e)),
        (''accepted'', jnum (ws_accepted e)), (''work'', jnum (ws_work e)),
        (''last_share_s'', jnum (sat_sub ts (ws_last_share_ts e))),
        (''hashrate_ghs'', jfloat (hashrate_ghs period recent_work))])
   })"

definition worker_key :: "jvalue \<Rightarrow> string option \<times> string option" where
  "worker_key v = (Option.bind (field ''identity'' v) as_str, Option.bind (field ''worker'' v) as_str)"

definition worker_values :: "u64 \<Rightarrow> ((string \<times> string) \<times> worker_stat) list \<Rightarrow> jvalue list option" where
  "worker_values ts rows = map_option (sort_key worker_key) (those (map (worker_value ts) rows))"

section \<open>The document\<close>

definition controls_value :: "controls \<Rightarrow> jvalue" where
  "controls_value c = VObject
     [(''fee_bps'', jopt jnum (co_fee_bps c)), (''stratum_fee_bps'', jopt jnum (co_stratum_fee_bps c)),
      (''fee_overrides'', VObject (map (\<lambda>(i, n). (i, jnum n)) (co_fee_overrides c))),
      (''banned_identities'', jsize (card (co_banned_identities c))), (''banned_nets'', jsize (length (co_banned_nets c))),
      (''updated'', jopt VString (co_updated c))]"

text \<open>\<open>host:port\<close>; without a port, or with one that is no number, it is the port the pool listens on.\<close>

definition advertised :: "config \<Rightarrow> string \<times> u16" where
  "advertised cfg =
     (case rsplit_once (CHR '':'') (cfg_advertise_address cfg) of
        Some (h, p) \<Rightarrow> (h, case parse_unsigned (2 ^ 16) p of Some n \<Rightarrow> of_nat n | None \<Rightarrow> snd (cfg_listen cfg))
      | None \<Rightarrow> (cfg_advertise_address cfg, snd (cfg_listen cfg)))"

definition public_hex :: "ext \<Rightarrow> key_set \<Rightarrow> string" where
  "public_hex x k = x_hex x (sign_pk (x_nacl x) k) @ x_hex x (box_pk (x_nacl x) k)"

definition pool_value :: "ext \<Rightarrow> env \<Rightarrow> split_params \<Rightarrow> jvalue" where
  "pool_value x en p =
     (let c = en_cfg en; key = VString (public_hex x (en_pool en)); (host, port) = advertised c in VObject
       [(''headline'', VString (cfg_headline c)), (''pubkey'', key), (''address'', VString (cfg_payout_address c)),
        (''script'', VString (x_hex x (en_pool_script en))), (''tag'', VString (cfg_coinbase_tag c)),
        (''prime_id'', jnum (cfg_prime_id c)), (''fee_bps'', jnum (sp_fee_bps p)),
        (''stratum_fee_bps'', jnum (sp_stratum_fee_bps p)), (''config_fee_bps'', jnum (cfg_fee_bps c)),
        (''config_stratum_fee_bps'', jnum (cfg_stratum_fee_bps c)), (''window_multiple'', jnum (cfg_window c)),
        (''min_payout'', jnum (cfg_min_payout c)), (''max_payees'', jsize (cfg_max_payees c)), (''min_diff'', jnum (cfg_min_diff c)),
        (''network'', VString (cfg_network c)), (''advertise'', VString (cfg_advertise_address c)),
        (''datum'', VObject [(''host'', VString host), (''port'', jnum port), (''pubkey'', key)])])"

definition node_value :: "u64 \<Rightarrow> tip \<Rightarrow> jvalue" where
  "node_value ts t = VObject
     [(''height'', jnum (tp_height t)), (''tip'', VString (tp_hash t)), (''difficulty'', jfloat (tp_difficulty t)),
      (''tip_age_s'', jnum (sat_sub ts (tp_seen_ts t)))]"

definition window_value :: "window \<Rightarrow> jvalue list \<Rightarrow> f64 \<Rightarrow> split \<Rightarrow> u64 \<Rightarrow> nat \<Rightarrow> jvalue" where
  "window_value w rows ghs sp rule_paid rule_payees = VObject
     [(''shares'', jsize (length (w_credits w))), (''work'', jnum (w_total_work w)), (''target_work'', jnum (w_target_work w)),
      (''fill_percent'', jfloat (percent (w_total_work w) (w_target_work w))),
      (''miners'', VArray rows), (''identities'', jsize (length (w_idents w))), (''hashrate_ghs'', jfloat ghs),
      (''sample_value'', jnum SAMPLE_VALUE), (''sample_pool_sats'', jnum (s_pool_sats sp)),
      (''sample_fee_sats'', jnum (s_fee_sats sp)), (''rule_paid_sats'', jnum rule_paid), (''rule_payees'', jsize rule_payees)]"

definition totals_value :: "totals \<Rightarrow> window \<Rightarrow> seen_shares \<Rightarrow> jvalue" where
  "totals_value t w s = VObject
     [(''shares_accepted'', jnum (to_accepted t)), (''shares_rejected'', jnum (to_rejected t)), (''work_accepted'', jnum (to_work t)),
      (''lifetime_shares'', jnum (w_lifetime_shares w)), (''lifetime_work'', jnum (w_lifetime_work w)),
      (''coinbasers'', jnum (to_coinbasers t)), (''block_candidates'', jnum (to_block_candidates t)),
      (''blocks_submitted'', jnum (to_blocks_submitted t)), (''connections'', jnum (to_connections t)),
      (''connections_refused'', jnum (to_connections_refused t)), (''handshake_failures'', jnum (to_handshake_failures t)),
      (''seen_shares'', jsize (seen_len s)), (''seen_heights'', jsize (seen_heights s))]"

definition wavicles_value :: "env \<Rightarrow> jvalue \<Rightarrow> shared \<Rightarrow> jvalue" where
  "wavicles_value en kinds sh = VObject
     [(''coinbase_kinds'', kinds), (''carry_forward'', VBool (cfg_carry_forward (en_cfg en))),
      (''carry_total_sats'', jnum (carry_total (sh_carry sh))),
      (''carry'', VArray (map (\<lambda>(i, s). VObject [(''identity'', VString i), (''sats'', jnum s)]) (sh_carry sh))),
      (''commit_snapshot'', VBool (cfg_commit_snapshot (en_cfg en))), (''snapshot_tag'', VString (cfg_snapshot_tag (en_cfg en))),
      (''last_snapshot'', VString (sh_last_snapshot sh)), (''snapshot_url'', VString ''/snapshot/<hash>'')]"

text \<open>The rows of a hash table, in the order of its keys.\<close>

definition table_rows :: "('k \<rightharpoonup> 'v) \<Rightarrow> 'k list \<Rightarrow> ('k \<times> 'v) list" where
  "table_rows m ks = map (\<lambda>k. (k, the (m k))) ks"

definition rate_span :: "u64 \<Rightarrow> u64 \<Rightarrow> u32 \<Rightarrow> u64" where
  "rate_span ts started oldest = clamp 30 HASHRATE_WINDOW_S (max (sat_sub ts (ucast oldest)) (sat_sub ts started))"

definition owed_blocks :: "block_record list \<Rightarrow> u64 option" where
  "owed_blocks bs = checked_sum 0 (map br_owed_sats (filter (\<lambda>b. take 6 (br_kind b) \<noteq> ''orphan'') bs))"

text \<open>\<open>build\<close>, with the orders in which the tables of clients and of workers are walked.\<close>

definition stats_build :: "ext \<Rightarrow> env \<Rightarrow> clock \<Rightarrow> u64 list \<Rightarrow> (string \<times> string) list \<Rightarrow> shared \<Rightarrow> jvalue option" where
  "stats_build x en ck ids keys sh =
     (let ts = ck_now ck; w = l_window (sh_ledger sh); p = live_split_params en sh; clients = map snd (table_rows (sh_clients sh) ids) in do {
        rc \<leftarrow> recent_rows (ucast (sat_sub ts HASHRATE_WINDOW_S)) (rev (w_credits w)) \<lparr>rc_of = Map.empty, rc_total = 0, rc_oldest = ucast ts\<rparr>;
        let period = rate_span ts (en_started_ts en) (rc_oldest rc);
        sp \<leftarrow> window_split w SAMPLE_VALUE p (script_for x en);
        rule \<leftarrow> window_split w SAMPLE_VALUE (rule_params p) (script_for x en);
        ms \<leftarrow> miners w;
        rows \<leftarrow> those (map (miner_value x en ts p sp rule rc period w) ms);
        owed \<leftarrow> owed_blocks (sh_blocks sh);
        kinds \<leftarrow> coinbase_kinds clients;
        workers \<leftarrow> worker_values ts (table_rows (sh_workers sh) keys);
        rule_paid \<leftarrow> paid_sats rule;
        Some (VObject
          [(''ts'', jnum ts), (''build'', VObject [(''name'', VString ''primed''), (''version'', VString ''0.1.0'')]),
           (''uptime_s'', jsize ((ck_instant ck - en_started en) div 10 ^ 9)), (''started_ts'', jnum (en_started_ts en)),
           (''pool'', pool_value x en p), (''node'', jopt (node_value ts) (sh_tip sh)),
           (''window'', window_value w rows (hashrate_ghs period (rc_total rc)) sp rule_paid (length (s_payees rule))),
           (''hashrate'', VObject [(''pool_ghs'', jfloat (hashrate_ghs period (rc_total rc))), (''window_s'', jnum HASHRATE_WINDOW_S)]),
           (''totals'', totals_value (sh_totals sh) w (sh_seen sh)), (''clients'', VArray (client_values ts clients)),
           (''gateways'', jsize (length clients)), (''workers'', VArray workers), (''controls'', controls_value (sh_controls sh)),
           (''connections_open'', jnum (cn_total (sh_connections sh))), (''owed'', jnum owed),
           (''wavicles'', wavicles_value en kinds sh), (''blocks'', VArray (map block_value (take 100 (rev (sh_blocks sh)))))])
      })"

section \<open>The export of the last hour\<close>

text \<open>The newest rows down to the cutoff, oldest first.\<close>

definition exported :: "u32 \<Rightarrow> credit list \<Rightarrow> credit list" where
  "exported cutoff cs = rev (takeWhile (\<lambda>c. cutoff < cr_ts c) (rev cs))"

definition legacy_ledger :: "clock \<Rightarrow> shared \<Rightarrow> jvalue" where
  "legacy_ledger ck sh =
     (let w = l_window (sh_ledger sh); cutoff = ucast (sat_sub (ck_now ck) LEDGER_EXPORT_S) in VObject
       [(''credits'', VArray (map (\<lambda>c. VObject
           [(''ts'', jnum (cr_ts c)), (''identity'', VString (case identity_at w (cr_ident c) of Some i \<Rightarrow> i | None \<Rightarrow> '''')),
            (''work'', jnum (cr_work c)), (''height'', jnum (cr_height c))]) (exported cutoff (w_credits w)))),
        (''shares'', jnum (w_lifetime_shares w)), (''window_work'', jnum (w_total_work w)), (''target_work'', jnum (w_target_work w))])"

text \<open>
  \<open>write_atomic\<close>: a document is written under a temporary name and renamed.  What a failed write leaves
  under the temporary name is up to the system.
\<close>

datatype write_outcome = Write_failed "bytes option" | Rename_failed | Written

definition write_atomic :: "write_outcome \<Rightarrow> path \<Rightarrow> path \<Rightarrow> bytes \<Rightarrow> (path \<rightharpoonup> bytes) \<Rightarrow> path \<rightharpoonup> bytes" where
  "write_atomic how tmp file data fs =
     (case how of
        Write_failed left_over \<Rightarrow> fs(tmp := left_over)
      | Rename_failed \<Rightarrow> fs(tmp \<mapsto> data)
      | Written \<Rightarrow> (fs(tmp := None))(file \<mapsto> data))"

text \<open>The end of a round of the timer: both documents are mirrored to files.\<close>

definition export_documents ::
    "(jvalue \<Rightarrow> bytes) \<Rightarrow> ext \<Rightarrow> env \<Rightarrow> clock \<Rightarrow> u64 list \<Rightarrow> (string \<times> string) list \<Rightarrow> write_outcome \<Rightarrow> write_outcome \<Rightarrow> shared \<Rightarrow>
       (path \<rightharpoonup> bytes) \<Rightarrow> (path \<rightharpoonup> bytes) option" where
  "export_documents show_json x en ck ids keys how1 how2 sh fs =
     (let dir = cfg_data_dir (en_cfg en) in do {
        v \<leftarrow> stats_build x en ck ids keys sh;
        Some (write_atomic how2 (path_join dir ''ledger.tmp'') (path_join dir ''ledger.json'') (show_json (legacy_ledger ck sh))
          (write_atomic how1 (path_join dir ''stats.tmp'') (path_join dir ''stats.json'') (show_json v) fs))
      })"

section \<open>The server\<close>

text \<open>\<open>trim_start_matches\<close> and \<open>trim_end_matches\<close> take the pattern away as often as it is there.\<close>

function trim_start :: "string \<Rightarrow> string \<Rightarrow> string" where
  "trim_start p s = (if p \<noteq> [] \<and> take (length p) s = p then trim_start p (drop (length p) s) else s)"
  by pat_completeness auto
termination
  by (relation "measure (\<lambda>(_, s). length s)") (auto intro!: diff_less)

declare trim_start.simps [simp del]

definition trim_end :: "string \<Rightarrow> string \<Rightarrow> string" where
  "trim_end p s = rev (trim_start (rev p) (rev s))"

text \<open>The path of a request: its second word, without the query.\<close>

definition request_path :: "bytes \<Rightarrow> string" where
  "request_path req =
     (let path = (case words_from [] (from_utf8_lossy req) of _ # w # _ \<Rightarrow> bytes_str w | _ \<Rightarrow> ''/'')
      in takeWhile (\<lambda>c. c \<noteq> CHR ''?'') path)"

definition route ::
    "(jvalue \<Rightarrow> bytes) \<Rightarrow> ext \<Rightarrow> env \<Rightarrow> clock \<Rightarrow> u64 list \<Rightarrow> (string \<times> string) list \<Rightarrow> shared \<Rightarrow> string \<Rightarrow>
       (string \<times> string \<times> bytes) option" where
  "route show_json x en ck ids keys sh path =
     (if path \<in> {''/'', ''/stats.json'', ''/stats''}
      then map_option (\<lambda>v. (''200 OK'', ''application/json'', show_json v)) (stats_build x en ck ids keys sh)
      else if path = ''/ledger.json'' then Some (''200 OK'', ''application/json'', show_json (legacy_ledger ck sh))
      else if path = ''/healthz'' then Some (''200 OK'', ''text/plain'', str_bytes (''ok'' @ [CHR 0x0A]))
      else if take 10 path = ''/snapshot/''
      then Some (case snapshot_load (sh_snapshots sh) (trim_end ''.json'' (trim_start ''/snapshot/'' path)) of
          Some b \<Rightarrow> (''200 OK'', ''application/json'', from_utf8_lossy b)
        | None \<Rightarrow> (''404 Not Found'', ''text/plain'', str_bytes (''snapshot not found'' @ [CHR 0x0A])))
      else Some (''404 Not Found'', ''text/plain'', str_bytes (''not found'' @ [CHR 0x0A])))"

definition http_response :: "string \<times> string \<times> bytes \<Rightarrow> bytes" where
  "http_response = (\<lambda>(status, ctype, body).
     str_bytes (''HTTP/1.1 '' @ status @ crlf @ ''Content-Type: '' @ ctype @ crlf @ ''Content-Length: '' @ decimal (length body) @ crlf @
       ''Access-Control-Allow-Origin: *'' @ crlf @ ''Cache-Control: no-store'' @ crlf @ ''Connection: close'' @ crlf @ crlf) @ body)"

text \<open>What a client that sent these bytes is answered; only the first 2048 of them are read.\<close>

definition stats_answer ::
    "(jvalue \<Rightarrow> bytes) \<Rightarrow> ext \<Rightarrow> env \<Rightarrow> clock \<Rightarrow> u64 list \<Rightarrow> (string \<times> string) list \<Rightarrow> shared \<Rightarrow> bytes \<Rightarrow> bytes option" where
  "stats_answer show_json x en ck ids keys sh req =
     map_option http_response (route show_json x en ck ids keys sh (request_path (take 2048 req)))"

section \<open>The check of a reloaded window\<close>

text \<open>A miner of the last document who has lost more than a tenth of his work.\<close>

definition cliff_of :: "(string \<rightharpoonup> u64) \<Rightarrow> jvalue \<Rightarrow> bool option" where
  "cliff_of live m =
     (case Option.bind (field ''identity'' m) as_str of
        None \<Rightarrow> Some False
      | Some i \<Rightarrow>
          let prev = (case Option.bind (field ''work'' m) as_u64 of Some n \<Rightarrow> n | None \<Rightarrow> 0);
              held = (case live i of Some n \<Rightarrow> n | None \<Rightarrow> 0) in
          if prev < 1000000 then Some False
          else do {
            slack \<leftarrow> checked_add held (prev div 10);
            if slack < prev then do { _ \<leftarrow> checked_mul 100 held; Some True } else Some False
          })"

definition window_cliffs :: "jvalue \<Rightarrow> window \<Rightarrow> u32 option" where
  "window_cliffs v w =
     (case Option.bind (Option.bind (field ''window'' v) (field ''miners'')) (\<lambda>m. case m of VArray ms \<Rightarrow> Some ms | _ \<Rightarrow> None) of
        None \<Rightarrow> Some 0
      | Some rows \<Rightarrow> do {
          ms \<leftarrow> miners w;
          cliffs \<leftarrow> those (map (cliff_of (map_of (rev (map (\<lambda>m. (m_identity m, m_work m)) ms)))) rows);
          checked_sum 0 (map (\<lambda>c. if c then 1 else 0) cliffs)
        })"

end
