(* ===== verification/Stats_Page.thy ===== *)
theory Stats_Page
  imports Stats
begin

text \<open>
  What holds of the statistics: the document exists whenever the counters can be summed, and adds up to
  the value that is split; it does not depend on the order in which a hash table is walked; and a window
  that came back as it was is never reported as a cliff.
\<close>

section \<open>The document exists and adds up\<close>

lemma those_total: "(\<And>z. z \<in> set zs \<Longrightarrow> f z = Some (g z)) \<Longrightarrow> those (map f zs) = Some (map g zs)"
  by (induction zs) simp_all

lemma recent_rows_total:
  assumes "unat (rc_total rc) + works cs < 2 ^ 64" and "\<forall>i e. rc_of rc i = Some e \<longrightarrow> fst e \<le> rc_total rc"
  shows "\<exists>r. recent_rows cutoff cs rc = Some r"
  using assms
proof (induction cs arbitrary: rc)
  case (Cons c cs)
  obtain wk last_ts where e: "(case rc_of rc (cr_ident c) of None \<Rightarrow> (0, 0) | Some e \<Rightarrow> e) = (wk, last_ts)" by fastforce
  have "wk \<le> rc_total rc" using e Cons.prems(2) by (auto split: option.splits)
  then have lt: "unat wk + unat (cr_work c) < 2 ^ 64" "unat (rc_total rc) + unat (cr_work c) < 2 ^ 64"
    using Cons.prems(1) by (simp_all add: works_def word_le_nat_alt)
  obtain a where a: "checked_add wk (cr_work c) = Some a" "unat a = unat wk + unat (cr_work c)"
    using checked_ex(1) [of wk "cr_work c"] lt by auto
  obtain b where b: "checked_add (rc_total rc) (cr_work c) = Some b" "unat b = unat (rc_total rc) + unat (cr_work c)"
    using checked_ex(1) [of "rc_total rc" "cr_work c"] lt by auto
  let ?rc = "\<lparr>rc_of = (rc_of rc)(cr_ident c \<mapsto> (a, max last_ts (cr_ts c))), rc_total = b, rc_oldest = min (rc_oldest rc) (cr_ts c)\<rparr>"
  have "rc_total rc \<le> b" using b(2) by (simp add: word_le_nat_alt)
  then have "\<forall>i e. rc_of ?rc i = Some e \<longrightarrow> fst e \<le> rc_total ?rc"
    using Cons.prems(2) a(2) b(2) \<open>wk \<le> rc_total rc\<close> by (auto simp: word_le_nat_alt intro: trans_le_add1)
  moreover have "unat (rc_total ?rc) + works cs < 2 ^ 64" using Cons.prems(1) b(2) by (simp add: works_def)
  ultimately obtain r where "recent_rows cutoff cs ?rc = Some r" using Cons.IH [of ?rc] by blast
  then show ?case using e a(1) b(1) by simp
qed simp

lemma checked_sum_total: "sum_list (map unat xs) < 2 ^ 64 \<Longrightarrow> \<exists>s. checked_sum 0 (xs :: u64 list) = Some s"
  using unat_of_nat_lt [of "sum_list (map unat xs)", where 'a = 64] by (auto simp: checked_simps intro!: exI [of _ "of_nat (sum_list (map unat xs))"])

lemma payees_among_miners:
  assumes "split_bounds p stats tw v"
  shows "\<exists>s. compute stats tw v p sf = Some s \<and> mset (map py_identity (s_payees s)) \<subseteq># mset (map m_identity stats) \<and>
    sats_of (s_payees s) + unat (s_pool_sats s) = unat v \<and> map_option unat (paid_sats s) = Some (sats_of (s_payees s))"
proof -
  obtain a b c new where r: "split_run p stats tw v [] sf a b c new"
      "compute_with_carry stats tw v p [] sf = Some (split_of tw v b c new)"
    using compute_ok [OF assms] by blast
  have c: "ca_payees c = a_payees b" using r(1) by (auto simp: split_run_def carry_start_def)
  have e: "mset (map py_identity (a_payees a)) + mset (map fst (a_unpaid a)) = mset (map m_identity (if tw = 0 then [] else stats))"
    using r(1) unfolding split_run_def acc_inv_def by blast
  have "mset (map py_identity (a_payees a)) \<subseteq># mset (map m_identity stats)"
  proof (cases "tw = 0")
    case False
    then show ?thesis using e mset_subset_eq_add_left [of "mset (map py_identity (a_payees a))" "mset (map fst (a_unpaid a))"] by simp
  qed (use e in simp)
  moreover have "mset (map py_identity (a_payees b)) \<subseteq># mset (map py_identity (a_payees a))"
  proof (cases "sp_max_payees p > 0 \<and> a_payees a \<noteq> []")
    case True
    then have "map py_identity (a_payees b) = map py_identity (cap_at (sp_max_payees p) a)"
      using r(1) by (simp add: split_run_def capped_result_def)
    moreover have "mset (take k qs) \<subseteq># mset qs" for k and qs :: "payee list"
      by (metis append_take_drop_id mset_append mset_subset_eq_add_left)
    ultimately show ?thesis by (simp add: cap_at_def) (metis image_mset_subseteq_mono mset_sort)
  next
    case False
    then show ?thesis using r(1) by (simp add: split_run_def split: if_splits)
  qed
  ultimately show ?thesis
    using split_conserved [OF assms, of "[]" sf] r(2) c unfolding compute_def by (auto intro: subset_mset.order_trans)
qed

section \<open>Reading the page\<close>

fun elements :: "jvalue \<Rightarrow> jvalue list" where
  "elements (VArray vs) = vs"
| "elements _ = []"

fun whole :: "jvalue \<Rightarrow> int" where
  "whole (VInt n) = n"
| "whole _ = 0"

text \<open>The value behind a path of keys; null if there is none.\<close>

fun behind :: "string list \<Rightarrow> jvalue \<Rightarrow> jvalue" where
  "behind [] v = v"
| "behind (k # ks) v = behind ks (case field k v of Some u \<Rightarrow> u | None \<Rightarrow> VNull)"

abbreviation page_miners :: "jvalue \<Rightarrow> jvalue list" where
  "page_miners v \<equiv> elements (behind [''window'', ''miners''] v)"

lemma sum_distinct_map: "distinct (map f xs) \<Longrightarrow> (\<Sum>x\<leftarrow>xs. g (f x)) = sum g (f ` set xs)"
  by (induction xs) auto

lemma distinct_sub:
  assumes "distinct ys" and "mset xs \<subseteq># mset ys"
  shows "distinct xs"
proof -
  obtain zs where "mset ys = mset xs + mset zs" using assms(2) by (metis ex_mset mset_subset_eq_exists_conv)
  then have "mset (xs @ zs) = mset ys" by simp
  then have "distinct (xs @ zs)" using assms(1) by (metis mset_eq_imp_distinct_iff)
  then show ?thesis by simp
qed

lemma sats_table_sum:
  assumes "distinct (map m_identity ms)" and "mset (map py_identity (s_payees sp)) \<subseteq># mset (map m_identity ms)"
  shows "(\<Sum>m\<leftarrow>ms. unat (sats_table sp (m_identity m))) = sats_of (s_payees sp)"
proof -
  let ?ps = "s_payees sp" let ?g = "\<lambda>i. unat (sats_table sp i)"
  have d: "distinct (map py_identity ?ps)"
    using assms by (rule distinct_sub)
  have sub: "py_identity ` set ?ps \<subseteq> m_identity ` set ms"
    using set_mset_mono [OF assms(2)] by simp
  let ?kv = "map (\<lambda>p. (py_identity p, py_sats p)) ?ps"
  have k: "map fst ?kv = map py_identity ?ps" by (simp add: comp_def)
  have dk: "distinct (map fst (rev ?kv))" using d by (simp only: rev_map [symmetric] k distinct_rev)
  have "sats_table sp (py_identity p) = py_sats p" if "p \<in> set ?ps" for p
  proof -
    have "map_of (rev ?kv) (py_identity p) = Some (py_sats p)"
      using that by (intro map_of_is_SomeI [OF dk]) auto
    then show ?thesis by (simp add: sats_table_def)
  qed
  then have "(\<Sum>p\<leftarrow>?ps. ?g (py_identity p)) = sats_of ?ps"
    by (simp add: sats_of_def cong: map_cong)
  moreover have "(\<Sum>p\<leftarrow>?ps. ?g (py_identity p)) = sum ?g (py_identity ` set ?ps)" by (rule sum_distinct_map [OF d])
  moreover have "sum ?g (m_identity ` set ms) = sum ?g (py_identity ` set ?ps)"
  proof (rule sum.mono_neutral_right)
    show "\<forall>i \<in> m_identity ` set ms - py_identity ` set ?ps. ?g i = 0"
    proof
      fix i assume "i \<in> m_identity ` set ms - py_identity ` set ?ps"
      then have "map_of (rev ?kv) i = None" by (auto simp: map_of_eq_None_iff)
      then show "?g i = 0" by (simp add: sats_table_def)
    qed
  qed (use sub in simp_all)
  ultimately show ?thesis using sum_distinct_map [OF assms(1), of ?g] by simp
qed

lemma sample_bounds:
  assumes "bps_ok p" and "stat_works ms = unat tw"
  shows "split_bounds p ms tw SAMPLE_VALUE"
proof -
  have "unat SAMPLE_VALUE * (10000 * unat tw) < 312500000 * (10000 * 2 ^ 64)"
    using unat_lt [of tw] by (simp add: SAMPLE_VALUE_def)
  then show ?thesis using assms by (simp add: split_bounds_def SAMPLE_VALUE_def)
qed

text \<open>A row per miner; the doubled stratum work is all that can overflow in it.\<close>

lemma miner_rows_exist:
  assumes "\<forall>m \<in> set ms. unat (m_stratum_work m) < 2 ^ 63"
  shows "\<exists>rows. those (map (miner_value x en ts p sp rule rc period w) ms) = Some rows \<and>
    map (\<lambda>r. whole (behind [''payout_sats''] r)) rows = map (\<lambda>m. int (unat (sats_table sp (m_identity m)))) ms \<and>
    map (\<lambda>r. whole (behind [''work''] r)) rows = map (\<lambda>m. int (unat (m_work m))) ms \<and>
    map (\<lambda>r. behind [''identity''] r) rows = map (\<lambda>m. VString (m_identity m)) ms"
  using assms
proof (induction ms)
  case (Cons m ms)
  have "\<exists>t. checked_mul (m_stratum_work m) 2 = Some t" using Cons.prems checked_ex(2) [of "m_stratum_work m" 2] by auto
  moreover obtain rw last_ts where "(case Option.bind (index_of w (m_identity m)) (rc_of rc) of None \<Rightarrow> (0, m_last_ts m) | Some e \<Rightarrow> e) = (rw, last_ts)"
    by fastforce
  ultimately obtain v where v: "miner_value x en ts p sp rule rc period w m = Some v"
      "whole (behind [''payout_sats''] v) = int (unat (sats_table sp (m_identity m)))"
      "whole (behind [''work''] v) = int (unat (m_work m))" "behind [''identity''] v = VString (m_identity m)"
    by (auto simp: miner_value_def jnum_def Let_def split: prod.splits)
  then show ?case using Cons by auto
qed simp

lemma int_sum: "(\<Sum>x\<leftarrow>xs. int (f x)) = int (\<Sum>x\<leftarrow>xs. f x)"
  by (induction xs) simp_all

text \<open>Counters that can be summed up: of the clients, of what blocks owe, of each worker's recent shares.\<close>

definition counters_fit :: "u64 list \<Rightarrow> (string \<times> string) list \<Rightarrow> shared \<Rightarrow> bool" where
  "counters_fit ids keys sh \<longleftrightarrow>
     list_all (\<lambda>f. (\<Sum>i\<leftarrow>ids. unat (f (the (sh_clients sh i)))) < 2 ^ 64) [ci_cb_split, ci_cb_partial, ci_cb_pool_only, ci_cb_foreign] \<and>
     (\<Sum>b\<leftarrow>sh_blocks sh. unat (br_owed_sats b)) < 2 ^ 64 \<and>
     list_all (\<lambda>k. (\<Sum>e\<leftarrow>ws_recent (the (sh_workers sh k)). unat (snd e)) < 2 ^ 64) keys"

lemma table_rows_values: "map f (map snd (table_rows m ks)) = map (\<lambda>k. f (the (m k))) ks"
  by (simp add: table_rows_def)

lemma coinbase_kinds_exist:
  assumes "counters_fit ids keys sh"
  shows "\<exists>v. coinbase_kinds (map snd (table_rows (sh_clients sh) ids)) = Some v"
proof -
  have "\<exists>s. checked_sum 0 (map f (map snd (table_rows (sh_clients sh) ids))) = Some s"
    if "(\<Sum>i\<leftarrow>ids. unat (f (the (sh_clients sh i)))) < 2 ^ 64" for f :: "client_info \<Rightarrow> u64"
    using that unfolding table_rows_values by (intro checked_sum_total) (simp add: comp_def)
  from this [of ci_cb_split] this [of ci_cb_partial] this [of ci_cb_pool_only] this [of ci_cb_foreign] show ?thesis
    using assms unfolding coinbase_kinds_def counters_fit_def by auto
qed

lemma owed_blocks_exist:
  assumes "counters_fit ids keys sh"
  shows "\<exists>n. owed_blocks (sh_blocks sh) = Some n"
proof -
  have "(\<Sum>b\<leftarrow>filter P bs. unat (br_owed_sats b)) \<le> (\<Sum>b\<leftarrow>bs. unat (br_owed_sats b))" for P and bs :: "block_record list"
    by (induction bs) auto
  then show ?thesis
    using assms unfolding owed_blocks_def counters_fit_def
    by (intro checked_sum_total) (simp add: comp_def, meson le_less_trans)
qed

lemma worker_values_exist:
  assumes "counters_fit ids keys sh"
  shows "\<exists>vs. worker_values ts (table_rows (sh_workers sh) keys) = Some vs"
proof -
  have "\<exists>v. worker_value ts z = Some v" if z: "z \<in> set (table_rows (sh_workers sh) keys)" for z
  proof -
    obtain k where k: "k \<in> set keys" "z = (k, the (sh_workers sh k))" using z unfolding table_rows_def set_map by blast
    then have "(\<Sum>e\<leftarrow>ws_recent (snd z). unat (snd e)) < 2 ^ 64"
      using assms by (simp add: counters_fit_def list_all_iff)
    then obtain n where "checked_sum 0 (map snd (ws_recent (snd z))) = Some n"
      using checked_sum_total [of "map snd (ws_recent (snd z))"] by (auto simp: comp_def)
    then show ?thesis by (cases z) (auto simp: worker_value_def Let_def)
  qed
  then have "those (map (worker_value ts) (table_rows (sh_workers sh) keys)) =
      Some (map (\<lambda>z. the (worker_value ts z)) (table_rows (sh_workers sh) keys))"
    by (intro those_total) fastforce
  then show ?thesis by (simp add: worker_values_def)
qed

lemma page_adds_up:
  assumes "config_load toml exists contents = Inr (en_cfg en)" and "en_base_split en = base_split_of (en_cfg en)"
    and "controls_ok (sh_controls sh)" and inv: "window_inv (l_window (sh_ledger sh))"
    and small: "unat (w_total_work (l_window (sh_ledger sh))) < 2 ^ 63" and fit: "counters_fit ids keys sh"
  shows "\<exists>v. stats_build x en ck ids keys sh = Some v \<and>
    (\<Sum>r\<leftarrow>page_miners v. whole (behind [''payout_sats''] r)) + whole (behind [''window'', ''sample_pool_sats''] v) = 312500000 \<and>
    (\<Sum>r\<leftarrow>page_miners v. whole (behind [''work''] r)) = whole (behind [''window'', ''work''] v) \<and>
    distinct (map (behind [''identity'']) (page_miners v))"
proof -
  let ?w = "l_window (sh_ledger sh)" let ?p = "live_split_params en sh" let ?ts = "ck_now ck"
  have tot: "works (rev (w_credits ?w)) < 2 ^ 64"
    using total_after [OF inv] unat_lt [of "w_total_work ?w"] by (simp add: works_def rev_map [symmetric] sum_list_rev)
  obtain rc where rc: "recent_rows (ucast (sat_sub ?ts HASHRATE_WINDOW_S)) (rev (w_credits ?w))
      \<lparr>rc_of = Map.empty, rc_total = 0, rc_oldest = ucast ?ts\<rparr> = Some rc"
    using recent_rows_total [of "\<lparr>rc_of = Map.empty, rc_total = 0, rc_oldest = ucast ?ts\<rparr>" "rev (w_credits ?w)"] tot by auto
  obtain ms where ms: "miners ?w = Some ms" "distinct (map m_identity ms)"
      "(\<Sum>m\<leftarrow>ms. unat (m_work m)) = unat (w_total_work ?w)" "\<forall>m \<in> set ms. m_stratum_work m \<le> m_work m"
    using miners_exact [OF inv] by blast
  have bps: "bps_ok ?p" "bps_ok (rule_params ?p)"
    using live_params [OF assms(1-3)] by (simp_all add: rule_params_def bps_ok_def)
  note bounds = sample_bounds [OF _ ms(3) [folded stat_works_def]]
  obtain sp where sp: "compute ms (w_total_work ?w) SAMPLE_VALUE ?p (script_for x en) = Some sp"
      "mset (map py_identity (s_payees sp)) \<subseteq># mset (map m_identity ms)" "sats_of (s_payees sp) + unat (s_pool_sats sp) = unat SAMPLE_VALUE"
    using payees_among_miners [OF bounds [OF bps(1)]] by blast
  obtain rule paid where rule: "compute ms (w_total_work ?w) SAMPLE_VALUE (rule_params ?p) (script_for x en) = Some rule" "paid_sats rule = Some paid"
    using payees_among_miners [OF bounds [OF bps(2)], of "script_for x en"] by auto
  have st: "\<forall>m \<in> set ms. unat (m_stratum_work m) < 2 ^ 63"
  proof
    fix m assume m: "m \<in> set ms"
    then have "unat (m_work m) \<le> (\<Sum>m\<leftarrow>ms. unat (m_work m))" by (intro member_le_sum_list) auto
    moreover have "unat (m_stratum_work m) \<le> unat (m_work m)" using m ms(4) by (simp add: word_le_nat_alt)
    ultimately show "unat (m_stratum_work m) < 2 ^ 63" using ms(3) small by linarith
  qed
  let ?period = "rate_span ?ts (en_started_ts en) (rc_oldest rc)"
  obtain rows where rows: "those (map (miner_value x en ?ts ?p sp rule rc ?period ?w) ms) = Some rows"
      "map (\<lambda>r. whole (behind [''payout_sats''] r)) rows = map (\<lambda>m. int (unat (sats_table sp (m_identity m)))) ms"
      "map (\<lambda>r. whole (behind [''work''] r)) rows = map (\<lambda>m. int (unat (m_work m))) ms"
      "map (\<lambda>r. behind [''identity''] r) rows = map (\<lambda>m. VString (m_identity m)) ms"
    using miner_rows_exist [OF st, of x en ?ts ?p sp rule rc ?period ?w] by blast
  obtain kinds owed ws where o: "coinbase_kinds (map snd (table_rows (sh_clients sh) ids)) = Some kinds" "owed_blocks (sh_blocks sh) = Some owed"
      "worker_values ?ts (table_rows (sh_workers sh) keys) = Some ws"
    using coinbase_kinds_exist [OF fit] owed_blocks_exist [OF fit] worker_values_exist [OF fit] by blast
  obtain v where v: "stats_build x en ck ids keys sh = Some v" "page_miners v = rows"
      "whole (behind [''window'', ''sample_pool_sats''] v) = int (unat (s_pool_sats sp))" "whole (behind [''window'', ''work''] v) = int (unat (w_total_work ?w))"
    using rc ms(1) sp(1) rule rows(1) o
    by (simp add: stats_build_def window_split_def Let_def window_value_def jnum_def)
  have "(\<Sum>m\<leftarrow>ms. int (unat (sats_table sp (m_identity m)))) = int (sats_of (s_payees sp))"
    unfolding sats_table_sum [OF ms(2) sp(2), symmetric] by (rule int_sum)
  moreover have "(\<Sum>m\<leftarrow>ms. int (unat (m_work m))) = int (unat (w_total_work ?w))"
    unfolding ms(3) [symmetric] by (rule int_sum)
  moreover have "distinct (map (\<lambda>m. VString (m_identity m)) ms)"
    using ms(2) by (simp add: distinct_map inj_on_def)
  moreover have "int (sats_of (s_payees sp)) + int (unat (s_pool_sats sp)) = 312500000"
    using arg_cong [OF sp(3), of int] by (simp add: SAMPLE_VALUE_def)
  ultimately show ?thesis using v rows(2-4) by (auto simp del: behind.simps)
qed

text \<open>
  C20: The statistics are served, and they add up.  For a pool that started and a window within its
  invariant, as long as the counters can be summed, the document can be built: the expected payouts of
  the listed miners and what the pool keeps make up the sample value to the satoshi, the listed work
  makes up the work of the window, and no miner is listed twice.
\<close>

theorem statistics_add_up:
  assumes "config_load toml exists contents = Inr (en_cfg en)" and "en_base_split en = base_split_of (en_cfg en)"
    and "controls_ok (sh_controls sh)" and inv: "window_inv (l_window (sh_ledger sh))"
    and small: "unat (w_total_work (l_window (sh_ledger sh))) < 2 ^ 63" and fit: "counters_fit ids keys sh"
  shows "\<exists>v. stats_build x en ck ids keys sh = Some v \<and>
    (\<Sum>r\<leftarrow>page_miners v. whole (behind [''payout_sats''] r)) + whole (behind [''window'', ''sample_pool_sats''] v) = 312500000 \<and>
    (\<Sum>r\<leftarrow>page_miners v. whole (behind [''work''] r)) = whole (behind [''window'', ''work''] v) \<and>
    distinct (map (behind [''identity'']) (page_miners v))"
  using page_adds_up [OF assms] .

theorem statistics_add_up_witness:
  "\<exists>v. stats_build demo_ext demo_env \<lparr>ck_now = 1000, ck_instant = secs 5\<rparr> [] [] demo_shared = Some v \<and>
     (\<Sum>r\<leftarrow>page_miners v. whole (behind [''payout_sats''] r)) + whole (behind [''window'', ''sample_pool_sats''] v) = 312500000"
proof -
  have "config_load (\<lambda>_. Some demo_config) (\<lambda>_. False) (Some '''') = Inr (en_cfg demo_env)"
    "en_base_split demo_env = base_split_of (en_cfg demo_env)" "controls_ok (sh_controls demo_shared)"
    by (simp_all add: demo_loads demo_env_def demo_shared_def controls_ok_def controls_default_def)
  moreover have "window_inv (l_window (sh_ledger demo_shared))" "unat (w_total_work (l_window (sh_ledger demo_shared))) < 2 ^ 63"
    "counters_fit [] [] demo_shared"
    using demo_window_inv(1) by (simp_all add: demo_shared_def demo_window_def counters_fit_def)
  ultimately show ?thesis using statistics_add_up by blast
qed

section \<open>A window that came back\<close>

lemma no_cliff:
  assumes "live i = Some n" and "field ''identity'' r = Some (VString i)" and "field ''work'' r = Some (jnum n)" and "unat n < 2 ^ 63"
  shows "cliff_of live r = Some False"
proof -
  have w: "as_u64 (jnum n) = Some n" using uint_bounded [of n] by (simp add: jnum_def)
  have "unat (n div 10) \<le> unat n" by (simp add: unat_div)
  then obtain s where s: "checked_add n (n div 10) = Some s" "unat s = unat n + unat (n div 10)"
    using checked_ex(1) [of n "n div 10"] assms(4) by auto
  then have "\<not> s < n" by (simp add: word_less_nat_alt)
  then show ?thesis using assms(1-3) w s(1) by (simp add: cliff_of_def Let_def)
qed

text \<open>The rows of the page are those of the window's miners, whatever splits and rates they carry.\<close>

lemma miner_value_fields:
  "miner_value x en ts p sp rule rc period w m = Some r \<Longrightarrow>
     field ''identity'' r = Some (VString (m_identity m)) \<and> field ''work'' r = Some (jnum (m_work m))"
  by (auto simp: miner_value_def Let_def split: prod.splits Option.bind_splits)

lemma those_Some: "those zs = Some ys \<longleftrightarrow> zs = map Some ys"
  by (induction zs arbitrary: ys) (auto split: option.splits)

lemma stats_build_rows:
  assumes "stats_build x en ck ids keys sh = Some v" and "miners (l_window (sh_ledger sh)) = Some ms"
  shows "\<exists>rows. Option.bind (field ''window'' v) (field ''miners'') = Some (VArray rows) \<and>
    list_all2 (\<lambda>m r. field ''identity'' r = Some (VString (m_identity m)) \<and> field ''work'' r = Some (jnum (m_work m))) ms rows"
proof -
  obtain ts p sp rule rc period rows where r: "those (map (miner_value x en ts p sp rule rc period (l_window (sh_ledger sh))) ms) = Some rows"
      "Option.bind (field ''window'' v) (field ''miners'') = Some (VArray rows)"
    using assms by (auto simp: stats_build_def window_value_def Let_def split: Option.bind_splits)
  have "map (miner_value x en ts p sp rule rc period (l_window (sh_ledger sh))) ms = map Some rows" using r(1) by (simp only: those_Some)
  then have "list_all2 (\<lambda>m r. miner_value x en ts p sp rule rc period (l_window (sh_ledger sh)) m = Some r) ms rows"
    by (auto simp: list_all2_conv_all_nth dest: map_eq_imp_length_eq) (metis length_map nth_map)
  then have "list_all2 (\<lambda>m r. field ''identity'' r = Some (VString (m_identity m)) \<and> field ''work'' r = Some (jnum (m_work m))) ms rows"
    by (rule list_all2_mono) (erule miner_value_fields)
  then show ?thesis using r(2) by blast
qed

lemma miners_work:
  assumes inv: "window_inv w" and ms: "miners w = Some ms"
  shows "distinct (map m_identity ms) \<and> (\<forall>m \<in> set ms. m_work m = work_of w (m_identity m) \<and> m_work m \<le> w_total_work w) \<and>
    set (map m_identity ms) = (\<lambda>c. w_idents w ! unat (cr_ident c)) ` set (w_credits w)"
proof -
  have e: "distinct (map m_identity ms)" "(\<Sum>m\<leftarrow>ms. unat (m_work m)) = unat (w_total_work w)"
      "set (map m_identity ms) = (\<lambda>c. w_idents w ! unat (cr_ident c)) ` set (w_credits w)"
      "\<And>m. m \<in> set ms \<Longrightarrow> \<exists>i. identity_at w i = Some (m_identity m) \<and> unat (m_work m) = works (rows_of i (w_credits w))"
    using miners_exact [OF inv] ms by auto
  have "m_work m = work_of w (m_identity m) \<and> m_work m \<le> w_total_work w" if m: "m \<in> set ms" for m
  proof -
    obtain i where i: "identity_at w i = Some (m_identity m)" "unat (m_work m) = works (rows_of i (w_credits w))" using e(4) [OF m] by blast
    have "index_of w (m_identity m) = Some i"
      using inv i(1) by (auto simp: window_inv_def idents_ok_def identity_at_def index_of_def split: if_splits)
    then have "m_work m = work_of w (m_identity m)" using inv_work_of(2) [OF inv] i(2) by (simp add: word_unat_eq_iff)
    moreover have "unat (m_work m) \<le> (\<Sum>m\<leftarrow>ms. unat (m_work m))" using m by (intro member_le_sum_list) auto
    ultimately show ?thesis using e(2) by (simp add: word_le_nat_alt)
  qed
  then show ?thesis using e(1,3) by blast
qed

lemma same_rows_no_cliff:
  assumes doc: "stats_build x en ck ids keys sh = Some v" and inv: "window_inv (l_window (sh_ledger sh))" "window_inv w"
    and rows: "w_idents w = w_idents (l_window (sh_ledger sh))" "w_credits w = w_credits (l_window (sh_ledger sh))"
      "\<And>s. work_of w s = work_of (l_window (sh_ledger sh)) s"
    and small: "unat (w_total_work (l_window (sh_ledger sh))) < 2 ^ 63"
  shows "window_cliffs v w = Some 0"
proof -
  let ?w = "l_window (sh_ledger sh)"
  obtain ms where ms: "miners ?w = Some ms" using miners_exact [OF inv(1)] by blast
  obtain ms' where ms': "miners w = Some ms'" using miners_exact [OF inv(2)] by blast
  note k = miners_work [OF inv(1) ms] and k' = miners_work [OF inv(2) ms']
  obtain rs where rs: "Option.bind (field ''window'' v) (field ''miners'') = Some (VArray rs)"
      "list_all2 (\<lambda>m r. field ''identity'' r = Some (VString (m_identity m)) \<and> field ''work'' r = Some (jnum (m_work m))) ms rs"
    using stats_build_rows [OF doc ms] by blast
  let ?live = "map_of (rev (map (\<lambda>m. (m_identity m, m_work m)) ms'))"
  have live: "?live (m_identity m) = Some (m_work m)" if m: "m \<in> set ms" for m
  proof -
    have "m_identity m \<in> set (map m_identity ms')" using m k k' rows by auto
    then obtain m' where m': "m' \<in> set ms'" "m_identity m' = m_identity m" by auto
    then have "m_work m' = m_work m" using m k k' rows(3) by simp
    moreover have "distinct (map fst (rev (map (\<lambda>m. (m_identity m, m_work m)) ms')))"
      using k' by (simp add: rev_map [symmetric] comp_def)
    ultimately show ?thesis using m' by (intro map_of_is_SomeI) (auto intro!: image_eqI [of _ _ m'])
  qed
  have "cliff_of ?live r = Some False" if r: "r \<in> set rs" for r
  proof -
    obtain n where n: "n < length rs" "rs ! n = r" using r by (auto simp: in_set_conv_nth)
    then have "n < length ms" using rs(2) by (simp add: list_all2_lengthD)
    then obtain m where m: "m \<in> set ms" "field ''identity'' r = Some (VString (m_identity m))" "field ''work'' r = Some (jnum (m_work m))"
      using list_all2_nthD2 [OF rs(2) n(1)] n(2) nth_mem [of n ms] by blast
    have "unat (m_work m) < 2 ^ 63" using k m(1) small by (meson le_less_trans word_le_nat_alt)
    then show ?thesis using no_cliff [of ?live "m_identity m" "m_work m" r] live [OF m(1)] m(2,3) by simp
  qed
  then have "those (map (cliff_of ?live) rs) = Some (map (\<lambda>_. False) rs)"
    using those_total [of rs "cliff_of ?live" "\<lambda>_. False"] by simp
  moreover have "checked_sum 0 (map (\<lambda>c. if c then 1 else 0) (map (\<lambda>_. False) rs)) = Some (0 :: u32)"
    by (induction rs) (simp_all add: checked_add_def)
  ultimately show ?thesis using rs(1) ms' by (simp add: window_cliffs_def comp_def)
qed


text \<open>The primitives of the examples, with a codec of the meta file that can be undone.\<close>

definition demo_codec_ext :: ext where
  "demo_codec_ext = demo_ext\<lparr>x_enc_meta := demo_enc_meta\<rparr>"


section \<open>The exported files are whole\<close>

text \<open>
  Whoever reads \<open>stats.json\<close> finds the document of the last round or that of this one, whole, whatever
  fails on the way; and when this round's is written it is the one of the state at that moment.
\<close>

lemma exported_files_whole:
  assumes "export_documents show_json x en ck ids keys how1 how2 sh fs = Some fs'"
  shows "\<exists>v. stats_build x en ck ids keys sh = Some v \<and>
    (let file = path_join (cfg_data_dir (en_cfg en)) ''stats.json'' in
      fs' file = (if how1 = Written then Some (show_json v) else fs file))"
proof -
  have "path_join d ''stats.json'' \<noteq> path_join d f" if "f \<noteq> ''stats.json''" for d f
    using that by (simp add: path_join_def)
  from this [of "''stats.tmp''"] this [of "''ledger.tmp''"] this [of "''ledger.json''"] show ?thesis
    using assms by (auto simp: export_documents_def write_atomic_def Let_def split: write_outcome.splits Option.bind_splits)
qed

section \<open>The order of the tables does not show\<close>

lemma checked_sum_order: "mset xs = mset ys \<Longrightarrow> checked_sum a xs = checked_sum a ys"
proof -
  assume "mset xs = mset ys"
  then have "sum_list (map unat xs) = sum_list (map unat ys)" by (metis mset_map sum_mset_sum_list)
  then have "checked_sum a xs = Some r \<longleftrightarrow> checked_sum a ys = Some r" for r by (simp add: checked_sum_Some)
  then show ?thesis by (metis option.exhaust)
qed

lemma sort_key_order:
  assumes "mset xs = mset ys" and "inj_on f (set xs)"
  shows "sort_key f xs = sort_key f ys"
  by (rule sort_key_inj_key_eq [OF _ assms(2)]) (simp_all add: assms(1))

lemma those_order:
  assumes "mset xs = mset ys"
  shows "rel_option (\<lambda>us vs. mset us = mset vs) (those (map f xs)) (those (map f ys))"
proof (cases "\<forall>x \<in> set xs. f x \<noteq> None")
  case True
  then have "those (map f zs) = Some (map (\<lambda>z. the (f z)) zs)" if "set zs = set xs" for zs
    using that by (intro those_total) force
  then show ?thesis using assms by (simp add: mset_eq_setD [OF assms])
next
  case False
  have "those (map f zs) = None" if "\<exists>x \<in> set zs. f x = None" for zs
    using that by (induction zs) (auto split: option.splits)
  then show ?thesis using False mset_eq_setD [OF assms] by auto
qed

lemma rows_order: "mset ks = mset ks' \<Longrightarrow> mset (table_rows m ks) = mset (table_rows m ks')"
  by (simp add: table_rows_def)

lemma worker_values_order:
  assumes "mset ks = mset ks'" and "distinct ks"
  shows "worker_values ts (table_rows m ks) = worker_values ts (table_rows m ks')"
proof -
  have key: "worker_key v = (Some (fst (fst z)), Some (snd (fst z)))" if "worker_value ts z = Some v" for z v
    using that by (auto simp: worker_value_def worker_key_def Let_def split: prod.splits Option.bind_splits)
  have "inj_on worker_key (set vs)" if vs: "those (map (worker_value ts) (table_rows m ks)) = Some vs" for vs
  proof -
    have e: "map (worker_value ts) (table_rows m ks) = map Some vs" using vs by (simp only: those_Some)
    have "map worker_key vs = map (\<lambda>z. (Some (fst (fst z)), Some (snd (fst z)))) (table_rows m ks)"
    proof (rule nth_equalityI)
      show "length (map worker_key vs) = length (map (\<lambda>z. (Some (fst (fst z)), Some (snd (fst z)))) (table_rows m ks))"
        using arg_cong [OF e, of length] by simp
      fix i assume "i < length (map worker_key vs)"
      then show "map worker_key vs ! i = map (\<lambda>z. (Some (fst (fst z)), Some (snd (fst z)))) (table_rows m ks) ! i"
        using arg_cong [OF e, of length] arg_cong [OF e, of "\<lambda>l. l ! i"] key by simp
    qed
    also have "\<dots> = map (\<lambda>k. (Some (fst k), Some (snd k))) ks" by (simp add: table_rows_def comp_def)
    finally have "distinct (map worker_key vs)" using assms(2) by (auto simp: distinct_map inj_on_def prod_eq_iff)
    then show ?thesis by (simp add: distinct_map)
  qed
  then show ?thesis
    using those_order [OF rows_order [OF assms(1)], of "worker_value ts" m] sort_key_order
    by (auto simp: worker_values_def option.rel_sel split: option.splits)
qed

text \<open>
  The document is a function of the state.  The client and worker tables are hash tables, walked in an
  order that changes from one run to the next; listed in any two orders, clients under their own
  numbers, they give the same document, or the same panic.
\<close>

theorem statistics_order_free:
  assumes "mset ids = mset ids'" and "\<forall>i \<in> set ids. \<exists>c. sh_clients sh i = Some c \<and> ci_id c = i"
    and "mset keys = mset keys'" and "distinct keys"
  shows "stats_build x en ck ids keys sh = stats_build x en ck ids' keys' sh"
proof -
  let ?cs = "\<lambda>ids. map snd (table_rows (sh_clients sh) ids)"
  have m: "mset (?cs ids) = mset (?cs ids')" using rows_order [OF assms(1), of "sh_clients sh"] by simp
  have "ci_id (the (sh_clients sh i)) = i" if "i \<in> set ids" for i using assms(2) that by force
  then have "inj_on ci_id (set (?cs ids))" by (auto simp: table_rows_def inj_on_def)
  then have "client_values ts (?cs ids) = client_values ts (?cs ids')" for ts
    using sort_key_order [OF m, of ci_id] by (simp add: client_values_def)
  moreover have "checked_sum 0 (map f (?cs ids)) = checked_sum 0 (map f (?cs ids'))" for f :: "client_info \<Rightarrow> u64"
    using m by (intro checked_sum_order) (simp only: mset_map)
  then have "coinbase_kinds (?cs ids) = coinbase_kinds (?cs ids')" by (simp only: coinbase_kinds_def)
  moreover have "length (?cs ids) = length (?cs ids')" using m by (rule mset_eq_length)
  moreover note worker_values_order [OF assms(3,4)]
  ultimately show ?thesis by (simp add: stats_build_def Let_def)
qed

text \<open>A gateway that connected and has sent nothing yet.\<close>

definition demo_client :: "u64 \<Rightarrow> client_info" where
  "demo_client i = \<lparr>ci_id = i, ci_remote = ''1.2.3.4:5'', ci_user_agent = ''gw'', ci_generation = ''3'', ci_gateway = ''k'',
     ci_fee_path = ''datum'', ci_connected_ts = 900, ci_identity = '''', ci_accepted = 1, ci_rejected = 0, ci_work = 8,
     ci_last_share_ts = 950, ci_coinbasers = 1, ci_block_candidates = 0, ci_last_reject = None,
     ci_cb_split = 1, ci_cb_partial = 0, ci_cb_pool_only = 0, ci_cb_foreign = 0\<rparr>"

theorem statistics_order_free_witness:
  "stats_build demo_ext demo_env \<lparr>ck_now = 1000, ck_instant = secs 5\<rparr> [1, 2] [(''ann'', ''rig''), (''bob'', ''rig'')]
      (demo_shared\<lparr>sh_clients := [1 \<mapsto> demo_client 1, 2 \<mapsto> demo_client 2],
         sh_workers := [(''ann'', ''rig'') \<mapsto> worker_default, (''bob'', ''rig'') \<mapsto> worker_default]\<rparr>) =
   stats_build demo_ext demo_env \<lparr>ck_now = 1000, ck_instant = secs 5\<rparr> [2, 1] [(''bob'', ''rig''), (''ann'', ''rig'')]
      (demo_shared\<lparr>sh_clients := [1 \<mapsto> demo_client 1, 2 \<mapsto> demo_client 2],
         sh_workers := [(''ann'', ''rig'') \<mapsto> worker_default, (''bob'', ''rig'') \<mapsto> worker_default]\<rparr>)"
  by (rule statistics_order_free) (simp_all add: demo_client_def add_mset_commute)

end
