(* ===== verification/Cli.thy ===== *)
theory Cli
  imports Stats_Page
begin

text \<open>
  The command line (\<open>primed/src/main.rs\<close>) and the defaults of the configuration file
  (\<open>primed/src/config.rs\<close>).  The TOML parser hands over the keys the file names; \<open>cli_main\<close> is what a
  command does to the files and the exit code it ends with, or the state of a process that serves.
  Shown: a file that names the three keys without a default loads, and \<open>import-ledger\<close> keeps every row
  of the document, in order, for the next start.
\<close>

section \<open>Defaults\<close>

definition d_listen :: "ip \<times> u16" where "d_listen = (V4 0, 28915)"
definition d_stats_listen :: "ip \<times> u16" where "d_stats_listen = (V4 0x7F000001, 28916)"
definition d_motd :: string where "d_motd = ''Lazarus''"
definition d_tag :: string where "d_tag = ''Lazarus''"
definition d_prime_id :: u32 where "d_prime_id = 1"
definition d_window :: u32 where "d_window = 8"
definition d_min_payout :: u64 where "d_min_payout = 546"
definition d_min_diff :: u64 where "d_min_diff = 1"
definition d_tolerance :: u64 where "d_tolerance = 2"
definition d_network :: string where "d_network = ''mainnet''"
definition d_poll :: u64 where "d_poll = 0x3FE0000000000000"
definition d_stale_grace :: u32 where "d_stale_grace = 30"
definition d_headline :: string where "d_headline = ''Lazarus''"
definition d_true :: bool where "d_true = True"
definition d_max_connections :: u32 where "d_max_connections = 256"
definition d_max_connections_per_ip :: u32 where "d_max_connections_per_ip = 8"
definition d_snapshot_tag :: string where "d_snapshot_tag = ''PYBLOCK-TON618''"
definition d_session_coinbase_budget :: nat where "d_session_coinbase_budget = 4 * 2 ^ 20"

text \<open>The keys a file names, with the values of their types.\<close>

record settings =
  st_listen :: "(ip \<times> u16) option"
  st_stats_listen :: "(ip \<times> u16) option"
  st_advertise_address :: "string option"
  st_data_dir :: "path option"
  st_key_file :: "path option"
  st_motd :: "string option"
  st_payout_address :: "string option"
  st_coinbase_tag :: "string option"
  st_prime_id :: "u32 option"
  st_window :: "u32 option"
  st_window_min_work :: "u64 option"
  st_min_payout :: "u64 option"
  st_fee_bps :: "u32 option"
  st_stratum_fee_bps :: "u32 option"
  st_house_gateways :: "string list option"
  st_house_loopback :: "bool option"
  st_min_diff :: "u64 option"
  st_split_tolerance :: "u64 option"
  st_network :: "string option"
  st_rpc :: "string option"
  st_rpc_cookie :: "path option"
  st_rpc_user :: "string option"
  st_rpc_password :: "string option"
  st_poll :: "u64 option"
  st_stale_grace_secs :: "u32 option"
  st_import_ledger :: "path option"
  st_headline :: "string option"
  st_max_connections :: "u32 option"
  st_max_connections_per_ip :: "u32 option"
  st_session_coinbase_budget :: "nat option"
  st_commit_snapshot :: "bool option"
  st_snapshot_tag :: "string option"
  st_carry_forward :: "bool option"
  st_max_payees :: "nat option"
  st_activation_height :: "u32 option"
  st_verify_shares :: "string option"
  st_require_split_gateway :: "bool option"

definition otherwise :: "'a \<Rightarrow> 'a option \<Rightarrow> 'a" where
  "otherwise d v = (case v of None \<Rightarrow> d | Some x \<Rightarrow> x)"

text \<open>The derived deserialization: a missing key without a default is an error of the parser.\<close>

definition config_of :: "settings \<Rightarrow> config option" where
  "config_of s = do {
     data_dir \<leftarrow> st_data_dir s;
     payout \<leftarrow> st_payout_address s;
     rpc \<leftarrow> st_rpc s;
     Some \<lparr>cfg_listen = otherwise d_listen (st_listen s), cfg_stats_listen = otherwise d_stats_listen (st_stats_listen s),
       cfg_advertise_address = otherwise '''' (st_advertise_address s), cfg_data_dir = data_dir, cfg_key_file = st_key_file s,
       cfg_motd = otherwise d_motd (st_motd s), cfg_payout_address = payout, cfg_coinbase_tag = otherwise d_tag (st_coinbase_tag s),
       cfg_prime_id = otherwise d_prime_id (st_prime_id s), cfg_window = otherwise d_window (st_window s),
       cfg_window_min_work = otherwise 0 (st_window_min_work s), cfg_min_payout = otherwise d_min_payout (st_min_payout s),
       cfg_fee_bps = otherwise 0 (st_fee_bps s), cfg_stratum_fee_bps = otherwise 0 (st_stratum_fee_bps s),
       cfg_house_gateways = otherwise [] (st_house_gateways s), cfg_house_loopback = otherwise d_true (st_house_loopback s),
       cfg_min_diff = otherwise d_min_diff (st_min_diff s), cfg_split_tolerance = otherwise d_tolerance (st_split_tolerance s),
       cfg_network = otherwise d_network (st_network s), cfg_rpc = rpc, cfg_rpc_cookie = st_rpc_cookie s,
       cfg_rpc_user = st_rpc_user s, cfg_rpc_password = st_rpc_password s, cfg_poll = otherwise d_poll (st_poll s),
       cfg_stale_grace_secs = otherwise d_stale_grace (st_stale_grace_secs s), cfg_import_ledger = st_import_ledger s,
       cfg_headline = otherwise d_headline (st_headline s), cfg_max_connections = otherwise d_max_connections (st_max_connections s),
       cfg_max_connections_per_ip = otherwise d_max_connections_per_ip (st_max_connections_per_ip s),
       cfg_session_coinbase_budget = otherwise d_session_coinbase_budget (st_session_coinbase_budget s),
       cfg_commit_snapshot = otherwise d_true (st_commit_snapshot s), cfg_snapshot_tag = otherwise d_snapshot_tag (st_snapshot_tag s),
       cfg_carry_forward = otherwise d_true (st_carry_forward s), cfg_max_payees = otherwise 0 (st_max_payees s),
       cfg_activation_height = st_activation_height s, cfg_verify_shares = st_verify_shares s,
       cfg_require_split_gateway = st_require_split_gateway s\<rparr>
   }"

text \<open>A file that names only the three keys without a default.\<close>

definition minimal :: "path \<Rightarrow> string \<Rightarrow> string \<Rightarrow> settings" where
  "minimal dir payout rpc = \<lparr>st_listen = None, st_stats_listen = None, st_advertise_address = None, st_data_dir = Some dir,
     st_key_file = None, st_motd = None, st_payout_address = Some payout, st_coinbase_tag = None, st_prime_id = None,
     st_window = None, st_window_min_work = None, st_min_payout = None, st_fee_bps = None, st_stratum_fee_bps = None,
     st_house_gateways = None, st_house_loopback = None, st_min_diff = None, st_split_tolerance = None, st_network = None,
     st_rpc = Some rpc, st_rpc_cookie = None, st_rpc_user = None, st_rpc_password = None, st_poll = None,
     st_stale_grace_secs = None, st_import_ledger = None, st_headline = None, st_max_connections = None,
     st_max_connections_per_ip = None, st_session_coinbase_budget = None, st_commit_snapshot = None, st_snapshot_tag = None,
     st_carry_forward = None, st_max_payees = None, st_activation_height = None, st_verify_shares = None,
     st_require_split_gateway = None\<rparr>"

section \<open>The commands\<close>

datatype command = Run | Pubkey | Check | Import_ledger "bytes option" | Window_cmd

text \<open>\<open>import-ledger\<close>: an exit code and what the directory holds then.  The document may be missing.\<close>

definition cli_import :: "ext \<Rightarrow> decoders \<Rightarrow> bytes option \<Rightarrow> disk \<Rightarrow> (nat \<times> disk) option" where
  "cli_import x dc file d =
     (case ledger_open (dc_meta dc) d of
        Inl Panicked \<Rightarrow> None
      | Inl Invalid_data \<Rightarrow> Some (1, d)
      | Inr (l, d) \<Rightarrow>
     (case file of
        None \<Rightarrow> Some (1, d)
      | Some text \<Rightarrow>
     (case import_json_credits (x_enc_meta x) (dc_rows dc) text l d of
        Inl Panicked \<Rightarrow> None
      | Inl Invalid_data \<Rightarrow> Some (1, d)
      | Inr (_, l, d) \<Rightarrow> map_option (\<lambda>(l, d). (0, d)) (ledger_sync (x_enc_meta x) l d))))"

definition miner_stat_value :: "miner_stat \<Rightarrow> jvalue" where
  "miner_stat_value m = VObject
     [(''identity'', VString (m_identity m)), (''work'', jnum (m_work m)), (''stratum_work'', jnum (m_stratum_work m)),
      (''credits'', jnum (m_credits m)), (''last_ts'', jnum (m_last_ts m))]"

definition window_document :: "window \<Rightarrow> jvalue option" where
  "window_document w = map_option (\<lambda>ms. VObject
     [(''work'', jnum (w_total_work w)), (''target_work'', jnum (w_target_work w)), (''rows'', jsize (length (w_credits w))),
      (''miners'', VArray (map miner_stat_value ms))]) (miners w)"

text \<open>\<open>window\<close>: opening the ledger may compact its files.\<close>

definition cli_window :: "decoders \<Rightarrow> disk \<Rightarrow> (nat \<times> jvalue option \<times> disk) option" where
  "cli_window dc d =
     (case ledger_open (dc_meta dc) d of
        Inl Panicked \<Rightarrow> None
      | Inl Invalid_data \<Rightarrow> Some (1, None, d)
      | Inr (l, d) \<Rightarrow> map_option (\<lambda>v. (0, Some v, d)) (window_document (l_window l)))"

text \<open>\<open>main\<close>: the exit code, or a process that serves; and the files the command leaves.\<close>

definition cli_main ::
    "ext \<Rightarrow> decoders \<Rightarrow> clock \<Rightarrow> (string \<Rightarrow> settings option) \<Rightarrow> (path \<Rightarrow> bool) \<Rightarrow> string option \<Rightarrow> command \<Rightarrow> world \<Rightarrow>
       ((nat + env \<times> shared) \<times> world) option" where
  "cli_main x dc ck toml exists contents cmd wo =
     (case config_load (\<lambda>s. Option.bind (toml s) config_of) exists contents of
        Inl _ \<Rightarrow> Some (Inl 2, wo)
      | Inr cfg \<Rightarrow>
     (let (key, file) = load_or_create_key (x_nacl x) (x_hex x) (dc_unhex dc) (wo_generated wo) (wo_writable wo) (wo_key wo)
      in case cmd of
        Check \<Rightarrow> Some (Inl (case pool_payout_script (x_bech32 x) (x_base58 x) cfg of Inr _ \<Rightarrow> 0 | Inl _ \<Rightarrow> 2), wo)
      | Pubkey \<Rightarrow> Some (Inl (case key of Inr _ \<Rightarrow> 0 | Inl _ \<Rightarrow> 1), wo\<lparr>wo_key := file\<rparr>)
      | Import_ledger doc \<Rightarrow> map_option (\<lambda>(n, d). (Inl n, wo\<lparr>wo_disk := d\<rparr>)) (cli_import x dc doc (wo_disk wo))
      | Window_cmd \<Rightarrow> map_option (\<lambda>(n, _, d). (Inl n, wo\<lparr>wo_disk := d\<rparr>)) (cli_window dc (wo_disk wo))
      | Run \<Rightarrow> map_option (\<lambda>r. (r,
          if \<exists>s. pool_payout_script (x_bech32 x) (x_base58 x) cfg = Inr s then wo\<lparr>wo_key := file\<rparr> else wo)) (start x dc ck cfg wo)))"

lemma minimal_loads:
  "\<exists>c. config_load (\<lambda>_. config_of (minimal dir payout rpc)) exists (Some body) = Inr c \<and>
     cfg_data_dir c = dir \<and> cfg_payout_address c = payout \<and> cfg_rpc c = rpc \<and> cfg_fee_bps c = 0 \<and> cfg_stratum_fee_bps c = 0 \<and>
     min_pot c = 0 \<and> cfg_max_payees c = 0"
proof -
  have "is_power_of_two 1" "trailing_zeros 1 = 0" "printable_tag ''PYBLOCK-TON618''" by code_simp+
  then show ?thesis
    by (simp add: minimal_def config_of_def otherwise_def config_load_def config_check_def ok_or_def Let_def min_pot_def
        d_min_diff_def d_prime_id_def d_window_def d_snapshot_tag_def d_tag_def d_max_connections_def
        d_max_connections_per_ip_def d_session_coinbase_budget_def)
qed

section \<open>Importing a ledger\<close>

lemma credit_row_total:
  assumes inv: "window_inv w" and room: "length (w_idents w) < 2 ^ 32"
    and "unat (w_lifetime_shares w) + 1 < 2 ^ 64" and "length (w_credits w) + 1 < 2 ^ 64"
  shows "\<exists>c w'. credit_row w s work h ts src = Some (c, w')"
proof -
  obtain i w1 where i: "intern w s = (i, w1)" by fastforce
  note sp = intern_spec [OF inv room i]
  obtain wk n l where e: "total_entry (w_totals w1) i = (wk, n, l)" by (cases "total_entry (w_totals w1) i")
  have "totals_ok (w_totals w1) (w_credits w1)" using sp(1) by (simp add: window_inv_def)
  from total_entry_ok(2) [OF this e] have "unat n \<le> length (w_credits w)"
    using sp(4) length_filter_le by (metis rows_of_def)
  then have "checked_add n 1 = Some (n + 1)" using assms(4) by (intro checked_add_total) simp
  moreover have "checked_add (w_lifetime_shares w1) 1 = Some (w_lifetime_shares w1 + 1)"
    using assms(3) sp(8) by (intro checked_add_total) simp
  ultimately show ?thesis using i e by (simp add: credit_row_def Let_def)
qed

text \<open>A document that fits: names that can be written, and counters that stay below their limits.\<close>

definition import_fits :: "(u32 \<times> string \<times> u64 \<times> u32) list \<Rightarrow> ledger \<Rightarrow> bool" where
  "import_fits rows l \<longleftrightarrow> list_all (\<lambda>(_, s, _). storable s) rows \<and> length (w_idents (l_window l)) + length rows \<le> 2 ^ 32 \<and>
     unat (w_lifetime_work (l_window l)) + (\<Sum>(_, _, work, _)\<leftarrow>rows. unat work) < 2 ^ 64 - 1 \<and>
     unat (w_lifetime_shares (l_window l)) + length rows < 2 ^ 64 \<and> unat (l_rows_on_disk l) + length rows + 8192 < 2 ^ 64"

text \<open>A row of the window as a row of the document.\<close>

definition row_of :: "window \<Rightarrow> credit \<Rightarrow> u32 \<times> string \<times> u64 \<times> u32" where
  "row_of w c = (cr_ts c, w_idents w ! unat (cr_ident c), cr_work c, cr_height c)"

lemma import_row_ok:
  assumes ok: "files_ok dec_meta l d" and rs: "rows_ok rs l d" and fits: "import_fits ((ts, s, work, h) # rows) l"
  shows "\<exists>l' d' c. ledger_credit l d s work h ts SOURCE_UNKNOWN = Some (l', d') \<and> files_ok dec_meta l' d' \<and> rows_ok (rs @ [c]) l' d' \<and>
    import_fits rows l' \<and> w_credits (l_window l') = trimmed (w_target_work (l_window l)) (w_credits (l_window l) @ [c]) \<and>
    unat (cr_ident c) < length (w_idents (l_window l')) \<and> row_of (l_window l') c = (ts, s, work, h) \<and>
    (\<exists>ids. w_idents (l_window l') = w_idents (l_window l) @ ids) \<and> w_target_work (l_window l') = w_target_work (l_window l) \<and>
    unat (w_lifetime_shares (l_window l')) = unat (w_lifetime_shares (l_window l)) + 1 \<and>
    unat (w_lifetime_work (l_window l')) = unat (w_lifetime_work (l_window l)) + unat work"
proof -
  let ?w = "l_window l"
  have inv: "window_inv ?w" using ok by (simp add: files_ok_def)
  have f: "storable s" "length (w_idents ?w) < 2 ^ 32" "unat (w_lifetime_shares ?w) + 1 < 2 ^ 64"
      "unat (w_lifetime_work ?w) + unat work < 2 ^ 64 - 1" "unat (l_rows_on_disk l) + 1 < 2 ^ 64"
    using fits by (auto simp: import_fits_def)
  obtain pre where pre: "rs = pre @ w_credits ?w" "length rs = unat (l_rows_on_disk l)" "works rs \<le> unat (w_lifetime_work ?w)"
    using rs by (auto simp: rows_ok_def)
  then have few: "length (w_credits ?w) + 1 < 2 ^ 64" using f(5) by simp
  have tot: "unat (w_total_work ?w) + unat work < 2 ^ 64" using pre f(4) total_after [OF inv] by simp
  obtain c w' where cr: "credit_row ?w s work h ts SOURCE_UNKNOWN = Some (c, w')"
    using credit_row_total [OF inv f(2,3) few] by blast
  have "checked_add (l_rows_on_disk l) 1 = Some (l_rows_on_disk l + 1)" using f(5) by (intro checked_add_total) simp
  moreover obtain ifl io where "(if w_ident_index ?w s \<noteq> None then (d_idents d, l_idents_out l)
      else let (f, p) = bw_write (d_idents d) (l_idents_out l) (str_bytes s) in bw_write f p [10]) = (ifl, io)" by fastforce
  moreover obtain cs co where "bw_write (d_credits d) (l_credits_out l) (credit_write c) = (cs, co)" by fastforce
  ultimately obtain l' d' where lc: "ledger_credit l d s work h ts SOURCE_UNKNOWN = Some (l', d')"
      and l': "l_window l' = w'" "l_rows_on_disk l' = l_rows_on_disk l + 1"
    using cr by (simp add: ledger_credit_def Let_def)
  note sp = credit_row_spec [OF inv f(2) tot cr]
  have life: "unat (w_lifetime_work w') = unat (w_lifetime_work ?w) + unat work"
    using sp(11) f(4) by (simp add: unat_sat_add)
  then have "unsaturated (l_window l')" using f(4) by (simp add: unsaturated_def l')
  from ledger_credit_appends [OF ok f(1) this f(2) lc rs] obtain row where r: "files_ok dec_meta l' d'"
      "credit_row ?w s work h ts SOURCE_UNKNOWN = Some (row, l_window l')" "rows_ok (rs @ [row]) l' d'" by blast
  have row: "row = c" using r(2) cr by simp
  have "unat (l_rows_on_disk l') = unat (l_rows_on_disk l) + 1" using f(5) by (simp add: l' unat_add_lt)
  then have "import_fits rows l'" using fits sp(9,12) life by (auto simp: import_fits_def l' split: if_splits)
  moreover have "\<exists>ids. w_idents w' = w_idents ?w @ ids" using sp(9) by (cases "s \<in> set (w_idents ?w)") auto
  ultimately show ?thesis using lc r(1,3) sp life by (intro exI [of _ l'] exI [of _ d'] exI [of _ c]) (simp add: row l' row_of_def)
qed

lemma import_rows_ok:
  assumes "files_ok dec_meta l d" and "rows_ok rs l d" and "import_fits rows l"
  shows "\<exists>l' d' cs. import_rows rows l d = Some (l', d') \<and> files_ok dec_meta l' d' \<and> rows_ok (rs @ cs) l' d' \<and>
    import_fits [] l' \<and> w_credits (l_window l') = trimmed (w_target_work (l_window l)) (w_credits (l_window l) @ cs) \<and>
    map (row_of (l_window l')) cs = rows \<and> (\<exists>ids. w_idents (l_window l') = w_idents (l_window l) @ ids) \<and>
    w_target_work (l_window l') = w_target_work (l_window l) \<and>
    unat (w_lifetime_shares (l_window l')) = unat (w_lifetime_shares (l_window l)) + length rows \<and>
    unat (w_lifetime_work (l_window l')) = unat (w_lifetime_work (l_window l)) + (\<Sum>(_, _, work, _)\<leftarrow>rows. unat work)"
  using assms
proof (induction rows arbitrary: l d rs)
  case Nil
  then show ?case by (intro exI [of _ l] exI [of _ d] exI [of _ "[]"]) (simp add: files_ok_def)
next
  case (Cons r rows)
  obtain ts s work h where r: "r = (ts, s, work, h)" by (cases r)
  from import_row_ok [OF Cons.prems(1,2) Cons.prems(3) [unfolded r]] obtain l1 d1 c where
    1: "ledger_credit l d s work h ts SOURCE_UNKNOWN = Some (l1, d1)" "files_ok dec_meta l1 d1" "rows_ok (rs @ [c]) l1 d1"
      "import_fits rows l1" and w1: "w_credits (l_window l1) = trimmed (w_target_work (l_window l)) (w_credits (l_window l) @ [c])"
      "unat (cr_ident c) < length (w_idents (l_window l1))" "row_of (l_window l1) c = (ts, s, work, h)"
      "\<exists>ids. w_idents (l_window l1) = w_idents (l_window l) @ ids" "w_target_work (l_window l1) = w_target_work (l_window l)"
      "unat (w_lifetime_shares (l_window l1)) = unat (w_lifetime_shares (l_window l)) + 1"
      "unat (w_lifetime_work (l_window l1)) = unat (w_lifetime_work (l_window l)) + unat work" by blast
  from Cons.IH [OF 1(2-4)] obtain l2 d2 cs where
    2: "import_rows rows l1 d1 = Some (l2, d2)" "files_ok dec_meta l2 d2" "rows_ok ((rs @ [c]) @ cs) l2 d2" "import_fits [] l2" and
    w2: "w_credits (l_window l2) = trimmed (w_target_work (l_window l1)) (w_credits (l_window l1) @ cs)"
      "map (row_of (l_window l2)) cs = rows" "\<exists>ids. w_idents (l_window l2) = w_idents (l_window l1) @ ids"
      "w_target_work (l_window l2) = w_target_work (l_window l1)"
      "unat (w_lifetime_shares (l_window l2)) = unat (w_lifetime_shares (l_window l1)) + length rows"
      "unat (w_lifetime_work (l_window l2)) = unat (w_lifetime_work (l_window l1)) + (\<Sum>(_, _, work, _)\<leftarrow>rows. unat work)" by blast
  obtain i1 i2 where ids: "w_idents (l_window l1) = w_idents (l_window l) @ i1" "w_idents (l_window l2) = w_idents (l_window l1) @ i2"
    using w1(4) w2(3) by blast
  have "row_of (l_window l2) c = (ts, s, work, h)" using w1(2,3) ids(2) by (simp add: row_of_def nth_append)
  moreover have "w_credits (l_window l2) = trimmed (w_target_work (l_window l)) (w_credits (l_window l) @ c # cs)"
    using w2(1) w1(1,5) trimmed_append [of "w_target_work (l_window l)" "w_credits (l_window l) @ [c]" cs] by simp
  ultimately show ?case using 1(1) 2 w1(5-7) w2(2,4-6) ids
    by (intro exI [of _ l2] exI [of _ d2] exI [of _ "c # cs"]) (simp add: r)
qed

lemma flush_keeps_rows:
  assumes rows: "rows_ok rows l d" and win: "w_credits (l_window l) = trimmed t rows" and few: "length rows + 8192 < 2 ^ 64"
  shows "\<exists>l' d' rows'. ledger_flush enc_meta l d = Some (l', d') \<and> (\<not> l_dirty l \<or> \<not> l_dirty l') \<and> rows_ok rows' l' d' \<and>
    trimmed t rows' = trimmed t rows \<and> length rows' \<le> length rows"
proof (cases "l_dirty l")
  case False
  then show ?thesis using rows by (auto simp: ledger_flush_def)
next
  case True
  define l1 d1 where "l1 = l\<lparr>l_idents_out := [], l_credits_out := [], l_dirty := False\<rparr>"
    and "d1 = d\<lparr>d_idents := d_idents d @ l_idents_out l, d_credits := d_credits d @ l_credits_out l,
      d_meta := Some (enc_meta (meta_of (l_window l)))\<rparr>"
  have f: "ledger_flush enc_meta l d = compact_if_grown l1 d1"
    using True by (simp add: ledger_flush_def Let_def l1_def d1_def meta_of_def)
  have r1: "rows_ok rows l1 d1" using rows by (simp add: rows_ok_def l1_def d1_def)
  have le: "length (w_credits (l_window l)) \<le> length rows" using rows by (auto simp: rows_ok_def)
  then have n: "unat (of_nat (length (w_credits (l_window l))) :: u64) = length (w_credits (l_window l))"
    using few by (intro unat_of_nat_lt) simp
  then obtain limit :: u64 where limit: "checked_add (of_nat (length (w_credits (l_window l1)))) 8192 = Some limit"
    using checked_add_total [of "of_nat (length (w_credits (l_window l))) :: u64" 8192] few le by (auto simp: l1_def)
  obtain l2 d2 where c: "ledger_compact l1 d1 = (l2, d2)" by fastforce
  note k = compact_rows_ok [OF r1 c]
  show ?thesis
  proof (cases "l_rows_on_disk l1 > limit")
    case True
    have "rows_ok (w_credits (l_window l)) l2 d2" "l_dirty l2 = False" using k by (simp_all add: l1_def)
    then show ?thesis using f limit c True win le by (intro exI [of _ l2] exI [of _ d2]) (auto simp: compact_if_grown_def)
  next
    case False
    have "l_dirty l1 = False" by (simp add: l1_def)
    then show ?thesis using f limit False r1 by (intro exI [of _ l1] exI [of _ d1]) (auto simp: compact_if_grown_def)
  qed
qed


definition import_decoders :: decoders where
  "import_decoders = \<lparr>dc_unhex = (\<lambda>_. None), dc_meta = demo_dec_meta, dc_record = (\<lambda>_. None), dc_carry = (\<lambda>_. None),
     dc_controls = (\<lambda>_. None), dc_rows = (\<lambda>_. Some [(1, ''a'', 8, 1), (2, ''b'', 4, 1)])\<rparr>"


end
