(* ===== verification/Spec2Isabelle.thy ===== *)
theory Spec2Isabelle
  imports Pool Issuing Sizing Cli
begin

text \<open>
  A model of the DATUM Prime of this repository: the daemon \<open>primed\<close> that serves mining gateways, with
  its wire protocol (crate \<open>wire\<close>) and its payout accounting (crate \<open>tides\<close>).  Every definition is a
  translation of the Rust code named beside it; the theorems say what makes the code correct.

  \<^bold>\<open>The program.\<close>  A gateway connects, is greeted over sealed boxes and then sends encrypted frames
  (\<open>wire\<close>).  It asks for a \<^emph>\<open>coinbaser\<close>, the list of outputs its next block has to pay, and submits shares
  of work.  The pool verifies each share down to the hash, checks that the coinbase pays what was issued,
  and credits the work to an identity in a sliding window of rows (\<open>tides/src/lib.rs\<close>).  The split of a
  block is computed from that window (\<open>tides/src/split.rs\<close>); what a coinbase cannot carry is kept as a
  debt and paid by a later one.  A poller follows the node, sizes the window by the difficulty and
  confirms blocks; a timer flushes the ledger; a server shows statistics.

  \<^bold>\<open>How the code is modelled.\<close>  Machine integers are words of their width.  The release profile keeps the
  overflow checks, so arithmetic that can panic is \<open>checked_add\<close> and the like, and \<open>None\<close> is a panic;
  saturating and wrapping operations are written as such.  Errors are the left side of a sum.  A string
  is its UTF-8 bytes.  A hash table is a map or an association list, and the order in which one is walked is
  an argument; a \<open>BTreeMap\<close> is its sorted list.  Shared state is one record, and a task is a function or a
  step on it: the locks make the code atomic between awaits, and \<open>Pool\<close> lets the tasks interleave in any
  order.  A socket is the list of bytes written to it and a flag that it is closed.  Files are byte lists.
  Double precision numbers are computed exactly and rounded (\<open>Float64\<close>).

  \<^bold>\<open>Parameters.\<close>  Third-party code is an argument: SHA-256 and BLAKE2b-256, the primitives of NaCl
  (\<open>nacl\<close> in \<open>Crypto\<close>, with the laws a theorem uses as hypotheses), bech32 and base58check, hex, the codecs
  of JSON and TOML, the answers of the node, random bytes and the clock.  They are collected in the records
  \<open>ext\<close>, \<open>env\<close> and \<open>clock\<close> of \<open>State\<close>, and \<open>decoders\<close> and \<open>world\<close> of \<open>Daemon\<close>.

  \<^bold>\<open>The protocol\<close> (\<open>wire/src\<close>).
  \<^item> \<open>Prelude\<close>, \<open>Utf8\<close>, \<open>Text\<close>, \<open>Net\<close>, \<open>Ordered_Map\<close>, \<open>Float64\<close>: what the components use of the
    standard library.
  \<^item> \<open>Cursor\<close> (\<open>lib.rs\<close>): the reader, its errors and the limits; the locales \<open>wire_reader\<close>, \<open>wire_codec\<close>
    and \<open>wire_exact\<close> are the contract of a reader and its writer, interpreted on those of \<open>Cursor\<close>, \<open>Coinbase\<close>,
    \<open>Coinbaser\<close> and \<open>Mining\<close>.
  \<^item> \<open>Frame\<close> (\<open>frame.rs\<close>): the header and the key stream; both ends stay in step.
  \<^item> \<open>Crypto\<close>, \<open>Handshake\<close> (\<open>crypto.rs\<close>, \<open>handshake.rs\<close>): the channel never repeats a nonce and decrypts in
    order; a hello is read as it was built, and one that is accepted is authentic.
  \<^item> \<open>Coinbaser\<close>, \<open>Coinbase\<close>, \<open>Mining\<close> (\<open>coinbaser.rs\<close>, \<open>coinbase.rs\<close>, \<open>mining.rs\<close>): every message, with
    round trips, shapes of what is accepted, and totality.
  \<^item> \<open>Pow\<close> (\<open>pow.rs\<close>): targets, the staged commitment and the header; a target means a comparison of numbers.
  \<^item> \<open>Verify\<close> (\<open>verify.rs\<close>): job slots and their caches, the classification of a coinbase, the verification
    of a share, the assembly of a block; verification is sound, transparent to its caches and bounded.

  \<^bold>\<open>The accounting\<close> (\<open>tides/src\<close>).
  \<^item> \<open>Window\<close>: crediting, trimming and the view by miner; totals equal the sums over the rows in every
    history, and trimming keeps the shortest suffix that holds the target.
  \<^item> \<open>Splitter\<close>: the proportional and the capped split and the payment of debts; no satoshi is created or
    lost, budgets hold, and each rule is exact to the satoshi.
  \<^item> \<open>Ledger\<close>, \<open>Records\<close>: the files with their write buffers, the block log and the debts; after any history
    of operations what is reopened is what was live.

  \<^bold>\<open>The daemon\<close> (\<open>primed/src\<close>).
  \<^item> \<open>Address\<close>, \<open>Controls\<close>, \<open>Config\<close>, \<open>Snapshot\<close>: payout scripts, bans and fees, the configuration, the
    commitment to the inputs of a split.
  \<^item> \<open>State\<close> (\<open>state.rs\<close>): everything the tasks share; credited shares, connections, debts of settled
    blocks and the split in force.
  \<^item> \<open>Framing\<close>, \<open>Session\<close> (\<open>session.rs\<close>): the read loop, which does not depend on how the stream is cut and
    comes to rest on every input, and the handlers: \<open>on_coinbaser_request\<close>, \<open>on_pow\<close>,
    \<open>on_block_candidate\<close>, \<open>on_validation\<close>, the tick, opening and closing.
  \<^item> \<open>Session_Bounds\<close>, \<open>Crediting\<close>, \<open>Issuing\<close>: what holds of the handlers.  What a session holds is bounded
    and counted exactly; only earned shares change the books; a request is answered with outputs that sum to
    the block; a found block reaches the node; what a block that paid only the pool owes.
  \<^item> \<open>Rpc\<close>, \<open>Daemon\<close>, \<open>Sizing\<close> (\<open>rpc.rs\<close>, \<open>node.rs\<close>, \<open>main.rs\<close>): the client of the node, starting up, the
    accept loop, the poller and the timer.  Confirmation keeps records and carries every settled block; the
    window is sized by the compact target up to the rounding of double precision.
  \<^item> \<open>Stats\<close>, \<open>Stats_Page\<close> (\<open>stats.rs\<close>): the statistics document, the export and the server; the document
    exists, adds up, and does not depend on the order of a table; a clean restart is never called a cliff.
  \<^item> \<open>Cli\<close> (\<open>main.rs\<close>, \<open>config.rs\<close>): the defaults and the commands; imported rows survive to the next start.
  \<^item> \<open>Pool\<close>: all tasks interleaved; a start is fit to serve, and no share is ever credited twice.

  \<^bold>\<open>Loops and bounds.\<close>  Loops are structural or have a measure; a number a loop counts down is the number
  of rounds the code itself makes, and there is no fuel.  Counters that the code lets panic at their limit
  have that limit as a hypothesis, such as fewer than \<open>2 ^ 32\<close> identities and window work below \<open>2 ^ 63\<close>;
  the word sizes are far above what a pool can reach.  A property that holds up to a collision of the
  hash says so.

  \<^bold>\<open>Not modelled.\<close>  Sockets, timeouts of reads and writes and the runtime; the log; the parser of the
  command line, signals, file modes, and failures of the disk in the middle of a write (beyond torn rows);
  how an error or a summary of the controls is printed.  Tests and
  scripts of the repository are left out.
\<close>

end
